theory Spec2Isabelle
  imports Main "HOL-Library.List_Lexorder" "HOL-Library.Char_ord" "HOL-Library.Multiset"
    "HOL-Library.Sublist"
begin

section \<open>fastaselecth: selecting FASTA records in the order of a selection list\<close>

text \<open>
  A shallow embedding of \<^verbatim>\<open>fastaselecth.c\<close>. The program reads a selection list
  (\<^verbatim>\<open>get_entries\<close>), sorts it by name with a comb sort that carries the original index of
  every entry along (\<^verbatim>\<open>sort_entries\<close>), removes adjacent duplicates (\<^verbatim>\<open>remove_dups\<close>)
  and then reads the FASTA file line by line in \<^verbatim>\<open>main\<close>, looking every header up by binary
  search (\<^verbatim>\<open>bin_search\<close>) and writing the selected records in the order of the list.

  Conventions of the model.
  \<^item> A C string is a \<^typ>\<open>string\<close> without the terminating NUL; \<^verbatim>\<open>strcmp\<close> is the
    lexicographic order on bytes, which is the order of \<^typ>\<open>string\<close> here.
  \<^item> A file is the list of its lines, as \<^verbatim>\<open>fgets\<close> delivers them with the line
    terminator cut off; every line is taken to fit the line buffer and to hold no NUL.
  \<^item> \<^verbatim>\<open>malloc\<close>, \<^verbatim>\<open>calloc\<close> and \<^verbatim>\<open>realloc\<close> are taken to succeed.
  \<^item> \<^verbatim>\<open>insane\<close> and \<^verbatim>\<open>exit(EXIT_FAILURE)\<close> end the run with a value that names
    the reason.
\<close>

subsection \<open>Configuration and data\<close>

datatype frag = FRAG_NONE | FRAG_NEW | FRAG_APPEND

text \<open>The global variables set by \<^verbatim>\<open>process_command_line_args\<close>.\<close>

record config =
  gbl_hs :: string
  gbl_hi :: string
  gbl_out :: "string option"
  gbl_frag :: frag
  gbl_com :: bool
  gbl_cod :: bool
  gbl_reject :: bool
  gbl_sel :: string

text \<open>
  The three parallel arrays \<^verbatim>\<open>header_name_list\<close>, \<^verbatim>\<open>group_name_list\<close> and
  \<^verbatim>\<open>emitorder\<close> are always permuted together, so one table row holds the three values of
  one index. A group that was never assigned is \<open>None\<close>.
\<close>

datatype entry = Entry (header_name: string) (group_name: "string option") (emit_order: nat)

text \<open>
  The reasons for which the program ends with \<^verbatim>\<open>EXIT_FAILURE\<close>. The last one is not
  an exit of the C code: it stands for a read through a null or a freed pointer, which the
  model makes a visible result.
\<close>

datatype fatal =
    NothingRead
  | DuplicateSelector
  | CannotOpenIn
  | CannotOpenOut
  | NonNullStorage
  | DuplicateMatch
  | MissingGroup
  | MissingSelector
  | GroupContiguity
  | SinkError
  | RecordTooLong
  | UndefinedBehaviour

text \<open>The messages written to \<^verbatim>\<open>stderr\<close> that the properties below speak about.\<close>

datatype diag =
    DuplicateEntryWarning string
  | DidNotFindWarning string
  | DidNotFindFatal string

subsection \<open>The selection list: \<^verbatim>\<open>get_entries\<close>\<close>

definition strcspn :: "string \<Rightarrow> string \<Rightarrow> nat" where
  "strcspn s rej = length (takeWhile (\<lambda>c. c \<notin> set rej) s)"

definition strspn :: "string \<Rightarrow> string \<Rightarrow> nat" where
  "strspn s acc = length (takeWhile (\<lambda>c. c \<in> set acc) s)"

text \<open>The carriage return in front of the line terminator is cut off.\<close>

definition chomp_cr :: "string \<Rightarrow> string" where
  "chomp_cr l = (if l \<noteq> [] \<and> last l = CHR 0x0D then butlast l else l)"

text \<open>
  One line of the selection list. The name is the span in front of the first delimiter; an
  empty span is ignored. With \<^verbatim>\<open>-fragc\<close> or \<^verbatim>\<open>-fraga\<close> the group is the next span after
  the delimiters that follow. Where the line has no group the C code leaves the pointer of
  that row unassigned; the model has \<open>None\<close> there.

  The lines are the strings that \<^verbatim>\<open>fgets\<close> returns, without the line terminator, and
  they are taken to fit into the buffer of \<^verbatim>\<open>MYMAXSTRING\<close> characters. The selection
  list is taken to end with a line terminator. The code reads a last line without one in
  the same way, after a warning, with one exception that is outside of what is modelled
  here: with \<^verbatim>\<open>-fragc\<close> or \<^verbatim>\<open>-fraga\<close>, when the name runs to the end of such a line,
  \<^verbatim>\<open>rest = bigstring+spanned+1\<close> points behind the terminating NUL, and the group is
  read from the bytes that earlier lines have left in the buffer.
\<close>

definition parse_entry :: "config \<Rightarrow> string \<Rightarrow> (string \<times> string option) option" where
  "parse_entry cfg bigstring0 =
     (let bigstring = chomp_cr bigstring0;
          spanned = strcspn bigstring (gbl_hs cfg)
      in if spanned > 0
         then Some (take spanned bigstring,
                    if gbl_frag cfg \<noteq> FRAG_NONE
                    then (let rest0 = drop (spanned + 1) bigstring;
                              rest = drop (strspn rest0 (gbl_hs cfg)) rest0;
                              spanned2 = strcspn rest (gbl_hs cfg)
                          in if spanned2 > 0 then Some (take spanned2 rest) else None)
                    else None)
         else None)"

fun get_entries :: "config \<Rightarrow> string list \<Rightarrow> (string \<times> string option) list" where
  "get_entries cfg [] = []"
| "get_entries cfg (l # ls) =
     (case parse_entry cfg l of
        None \<Rightarrow> get_entries cfg ls
      | Some e \<Rightarrow> e # get_entries cfg ls)"

text \<open>\<^verbatim>\<open>for(i=0;i<entrynum;i++){emitorder[i]=i;}\<close>: every row starts with its own index.\<close>

definition number_entries :: "(string \<times> string option) list \<Rightarrow> entry list" where
  "number_entries raw = map (\<lambda>(i, (k, g)). Entry k g i) (enumerate 0 raw)"

subsection \<open>The comb sort: \<^verbatim>\<open>sort_entries\<close>\<close>

definition swap_rows :: "nat \<Rightarrow> nat \<Rightarrow> entry list \<Rightarrow> entry list" where
  "swap_rows i j xs = xs[i := xs ! j, j := xs ! i]"

text \<open>The body of the innermost loop at index \<open>i\<close>, with \<open>j = i + gap\<close>.\<close>

definition comb_step :: "nat \<Rightarrow> entry list \<times> nat \<Rightarrow> nat \<Rightarrow> entry list \<times> nat" where
  "comb_step gap s i =
     (case s of (xs, swaps) \<Rightarrow>
        if header_name (xs ! (i + gap)) < header_name (xs ! i)
        then (swap_rows i (i + gap) xs, swaps + 1)
        else (xs, swaps))"

text \<open>\<^verbatim>\<open>for(i=0,j=gap;j<entrynum;i++,j++)\<close>: one pass, returning the table and the swaps.\<close>

definition comb_pass :: "nat \<Rightarrow> entry list \<Rightarrow> entry list \<times> nat" where
  "comb_pass gap xs = foldl (comb_step gap) (xs, 0) [0 ..< length xs - gap]"

text \<open>
  \<^verbatim>\<open>gap/=shrink\<close> with the \<^verbatim>\<open>float\<close> variable \<^verbatim>\<open>shrink=1.3\<close>: the gap is converted to
  \<^verbatim>\<open>float\<close>, divided by \<^verbatim>\<open>shrink\<close>, and the quotient is cut to an integer. A
  \<^verbatim>\<open>float\<close> has 24 significant binary digits, and the conversion and the division each
  round to the nearest \<^verbatim>\<open>float\<close>, to the even one of two that are equally near (IEEE 754
  single precision, every operation evaluated in \<^verbatim>\<open>float\<close>). The \<^verbatim>\<open>float\<close> nearest to
  1.3 is \<open>10905190 / 2^23\<close>. Below, \<open>bits k\<close> is the number of binary digits of \<open>k\<close>, and
  \<open>rne a b\<close> is the fraction \<open>a / b\<close> rounded to an integer in the way described.
\<close>

function bits :: "int \<Rightarrow> nat" where
  "bits k = (if k \<le> 0 then 0 else Suc (bits (k div 2)))"
  by auto
termination by (relation "measure nat") auto

declare bits.simps [simp del]

definition rne :: "int \<Rightarrow> int \<Rightarrow> int" where
  "rne a b =
     (let q = a div b; r = a mod b
      in if 2 * r < b then q else if b < 2 * r then q + 1 else if even q then q else q + 1)"

text \<open>\<^verbatim>\<open>(float)gap\<close>: a \<^verbatim>\<open>float\<close> of this size is an integer.\<close>

definition float_of_int :: "int \<Rightarrow> int" where
  "float_of_int g = (let k = bits g - 24 in rne g (2 ^ k) * 2 ^ k)"

text \<open>
  \<^verbatim>\<open>(int)((float)gap / shrink)\<close>: the quotient is the fraction \<open>n / d\<close>; it lies between
  \<open>2^(e-1)\<close> and \<open>2^e\<close>, so it is rounded to a multiple of \<open>2^(e-24)\<close>.
\<close>

definition div_shrink :: "int \<Rightarrow> int" where
  "div_shrink gap =
     (let a = float_of_int gap;
          n = a * 2 ^ 23;
          d = 10905190;
          e = bits (n div d)
      in if e \<le> 24 then rne (n * 2 ^ (24 - e)) d div 2 ^ (24 - e)
         else rne n (d * 2 ^ (e - 24)) * 2 ^ (e - 24))"

definition shrink_gap :: "nat \<Rightarrow> nat" where
  "shrink_gap gap = nat (div_shrink (int gap))"

text \<open>
  The gap gets smaller, a gap above one does not drop to zero, and the gap one drops to
  zero. The rounding is off by half a unit of the last digit at most.
\<close>

lemma bits_nonpos: "k \<le> 0 \<Longrightarrow> bits k = 0"
  by (simp add: bits.simps)

lemma bits_pos: "0 < k \<Longrightarrow> bits k = Suc (bits (k div 2))"
  by (simp add: bits.simps)

lemma bits_bounds: "0 < k \<Longrightarrow> 2 ^ (bits k - 1) \<le> k \<and> k < 2 ^ bits k"
proof (induction k rule: bits.induct)
  case (1 k)
  show ?case
  proof (cases "k div 2 \<le> 0")
    case True
    then have "k = 1" using "1.prems" by linarith
    then show ?thesis by (simp add: bits_pos bits_nonpos)
  next
    case False
    then have h: "0 < k div 2" by simp
    have ih: "2 ^ (bits (k div 2) - 1) \<le> k div 2 \<and> k div 2 < 2 ^ bits (k div 2)"
      using "1.IH" "1.prems" h by simp
    obtain b where b: "bits (k div 2) = Suc b" using bits_pos[OF h] by simp
    have "bits k = Suc (Suc b)" using bits_pos[OF "1.prems"] b by simp
    moreover have "(2::int) ^ Suc b \<le> k" using ih b by simp linarith
    moreover have "k < (2::int) ^ Suc (Suc b)" using ih b by simp linarith
    ultimately show ?thesis by simp
  qed
qed

lemma rne_bounds:
  assumes "0 < b"
  shows "2 * (b * rne a b) \<le> 2 * a + b" "2 * a \<le> 2 * (b * rne a b) + b"
proof -
  define q where "q = a div b"
  define r where "r = a mod b"
  have a: "a = b * q + r" and r: "0 \<le> r" "r < b"
    using assms by (simp_all add: q_def r_def)
  have e: "rne a b = (if 2 * r < b then q else if b < 2 * r then q + 1 else if even q then q else q + 1)"
    by (simp add: rne_def q_def r_def Let_def)
  show "2 * (b * rne a b) \<le> 2 * a + b" unfolding e using a r by (auto simp: algebra_simps)
  show "2 * a \<le> 2 * (b * rne a b) + b" unfolding e using a r by (auto simp: algebra_simps)
qed

lemma float_bounds:
  assumes "0 < g"
  shows "2 ^ 24 * float_of_int g \<le> (2 ^ 24 + 1) * g" "(2 ^ 24 - 1) * g \<le> 2 ^ 24 * float_of_int g"
proof -
  define k where "k = bits g - 24"
  define u :: int where "u = 2 ^ k"
  define m where "m = rne g u"
  have up: "0 < u" by (simp add: u_def)
  have f: "float_of_int g = m * u" by (simp add: float_of_int_def k_def u_def m_def Let_def)
  note rb = rne_bounds[OF up, of g, folded m_def]
  have one: "k = 0 \<Longrightarrow> m = g"
    using rb by (simp add: u_def)
  show "2 ^ 24 * float_of_int g \<le> (2 ^ 24 + 1) * g"
  proof (cases "k = 0")
    case True
    then show ?thesis using one assms by (simp add: f u_def)
  next
    case False
    then have "bits g - 1 = k + 23" by (simp add: k_def)
    then have "(2::int) ^ (k + 23) \<le> g" using bits_bounds[OF assms] by simp
    then have "2 ^ 23 * u \<le> g" by (simp add: u_def power_add)
    then show ?thesis using rb(1) by (simp add: f algebra_simps)
  qed
  show "(2 ^ 24 - 1) * g \<le> 2 ^ 24 * float_of_int g"
  proof (cases "k = 0")
    case True
    then show ?thesis using one assms by (simp add: f u_def)
  next
    case False
    then have "bits g - 1 = k + 23" by (simp add: k_def)
    then have "(2::int) ^ (k + 23) \<le> g" using bits_bounds[OF assms] by simp
    then have "2 ^ 23 * u \<le> g" by (simp add: u_def power_add)
    then show ?thesis using rb(2) by (simp add: f algebra_simps)
  qed
qed

lemma div_less_int:
  assumes "0 < s" "m < g * s"
  shows "m div s < (g::int)"
proof (rule ccontr)
  assume "\<not> m div s < g"
  then have "g \<le> m div s" by simp
  then have "g * s \<le> (m div s) * s" using assms(1) by (simp add: mult_right_mono)
  moreover have "(m div s) * s \<le> m"
    using assms(1) by (metis mult.commute pos_mod_sign mult_div_mod_eq le_add_same_cancel1)
  ultimately show False using assms(2) by linarith
qed

lemma div_shrink_bounds:
  assumes g: "0 < g"
  shows "0 \<le> div_shrink g" "div_shrink g < g" "2 \<le> g \<Longrightarrow> 1 \<le> div_shrink g"
proof -
  define a where "a = float_of_int g"
  define n where "n = a * 2 ^ 23"
  define e where "e = bits (n div 10905190)"
  have A1: "2 * n \<le> 16777217 * g" and A2: "16777215 * g \<le> 2 * n"
    using float_bounds[OF g] by (simp_all add: n_def a_def)
  have n: "0 < n" using A2 g by linarith
  have nd: "n div 10905190 < g"
    by (rule div_less_int) (use A1 g in auto)
  have sh: "div_shrink g = (if e \<le> 24 then rne (n * 2 ^ (24 - e)) 10905190 div 2 ^ (24 - e)
                         else rne n (10905190 * 2 ^ (e - 24)) * 2 ^ (e - 24))"
    by (simp add: div_shrink_def a_def n_def e_def Let_def)
  have low: "2 ^ (e - 1) * 10905190 \<le> n \<and> 2 ^ (e - 1) < g" if "0 < e"
  proof -
    have p: "0 < n div 10905190" using that bits_nonpos[of "n div 10905190"] by (auto simp: e_def intro: ccontr)
    have b: "2 ^ (e - 1) \<le> n div 10905190" using bits_bounds[OF p] by (simp add: e_def)
    have "(n div 10905190) * 10905190 \<le> n"
      by (metis mult.commute pos_mod_sign mult_div_mod_eq le_add_same_cancel1 zero_less_numeral)
    moreover have "2 ^ (e - 1) * 10905190 \<le> (n div 10905190) * (10905190::int)"
      using b by simp
    ultimately show ?thesis using b nd by linarith
  qed
  have all: "0 \<le> div_shrink g \<and> div_shrink g < g \<and> (2 \<le> g \<longrightarrow> 1 \<le> div_shrink g)"
  proof (cases "e \<le> 24")
    case True
    define s :: int where "s = 2 ^ (24 - e)"
    define m where "m = rne (n * s) 10905190"
    have sp: "0 < s" by (simp add: s_def)
    have R: "2 * (10905190 * m) \<le> 2 * (n * s) + 10905190" "2 * (n * s) \<le> 2 * (10905190 * m) + 10905190"
      using rne_bounds[of 10905190 "n * s"] by (simp_all add: m_def)
    have val: "div_shrink g = m div s" using True by (simp add: sh m_def s_def)
    have P: "2 * (n * s) \<le> 16777217 * (g * s)"
      using mult_right_mono[OF A1, of s] sp by (simp add: algebra_simps)
    have P2: "16777215 * (g * s) \<le> 2 * (n * s)"
      using mult_right_mono[OF A2, of s] sp by (simp add: algebra_simps)
    have Q: "3 \<le> g * s"
    proof (cases "e = 0")
      case True
      then have "s = 16777216" by (simp add: s_def)
      then show ?thesis using g by simp
    next
      case False
      then have ep: "0 < e" by simp
      have "(2::int) ^ (e - 1) * 2 ^ (24 - e) = 2 ^ 23"
        using ep True by (simp add: power_add[symmetric])
      moreover have "2 ^ (e - 1) * s \<le> g * s"
        using low[OF ep] sp by (simp add: mult_right_mono)
      ultimately show ?thesis by (simp add: s_def)
    qed
    have mlt: "m < g * s" using R(1) P Q by linarith
    have mnn: "0 \<le> m"
    proof -
      have "0 \<le> n * s" using n sp by simp
      then show ?thesis using R(2) by linarith
    qed
    have up: "m div s < g" using div_less_int[OF sp mlt] .
    have nn: "0 \<le> m div s" using mnn sp by (simp add: pos_imp_zdiv_nonneg_iff)
    have lo: "1 \<le> m div s" if "2 \<le> g"
    proof -
      have "2 * s \<le> g * s" using that sp by (simp add: mult_right_mono)
      then have "s \<le> m" using R(2) P2 sp by linarith
      then have "0 < m div s" using sp by (simp add: pos_imp_zdiv_pos_iff)
      then show ?thesis by simp
    qed
    show ?thesis using up nn lo by (simp add: val)
  next
    case False
    define t :: int where "t = 2 ^ (e - 24)"
    define m where "m = rne n (10905190 * t)"
    have tp: "0 < t" by (simp add: t_def)
    have R: "2 * (10905190 * t * m) \<le> 2 * n + 10905190 * t" "2 * n \<le> 2 * (10905190 * t * m) + 10905190 * t"
      using rne_bounds[of "10905190 * t" n] tp by (simp_all add: m_def)
    have val: "div_shrink g = m * t" using False by (simp add: sh m_def t_def)
    have ep: "0 < e" using False by simp
    have "e - 1 = (e - 24) + 23" using False by simp
    then have "(2::int) ^ (e - 1) = t * 2 ^ 23"
      unfolding t_def by (metis power_add)
    then have B: "t * 8388608 * 10905190 \<le> n" using low[OF ep] by simp
    have mp: "1 \<le> m"
    proof (rule ccontr)
      assume "\<not> 1 \<le> m"
      then have "m \<le> 0" by simp
      then have "t * m \<le> 0" using tp by (simp add: mult_nonneg_nonpos)
      then show False using R(2) B n tp by (simp add: algebra_simps) 
    qed
    have lo: "1 \<le> m * t"
    proof -
      have "1 * 1 \<le> m * t" using mp tp by (intro mult_mono) auto
      then show ?thesis by simp
    qed
    have up: "m * t < g" using R(1) B A1 g by (simp add: algebra_simps)
    show ?thesis using up lo by (simp add: val)
  qed
  show "0 \<le> div_shrink g" "div_shrink g < g" "2 \<le> g \<Longrightarrow> 1 \<le> div_shrink g"
    using all by simp_all
qed

lemma shrink_gap_less: "0 < gap \<Longrightarrow> shrink_gap gap < gap"
  using div_shrink_bounds(1,2)[of "int gap"] by (simp add: shrink_gap_def)

lemma shrink_gap_one: "shrink_gap (Suc 0) = 0"
  by code_simp

text \<open>
  \<^verbatim>\<open>for( ;gap>=1;gap/=shrink)\<close>: the result is the table, the flag \<^verbatim>\<open>done\<close> and the
  counter \<^verbatim>\<open>restart\<close>.
\<close>

function gap_loop :: "nat \<Rightarrow> nat \<Rightarrow> entry list \<Rightarrow> entry list \<times> bool \<times> nat" where
  "gap_loop gap restart xs =
     (if gap < 1 then (xs, False, restart)
      else (case comb_pass gap xs of (xs', swaps) \<Rightarrow>
        if gap = 1
        then (if swaps = 0 then (xs', True, restart)
              else (if restart + 1 > 7 then (xs', False, restart + 1)
                    else gap_loop (shrink_gap gap) (restart + 1) xs'))
        else gap_loop (shrink_gap gap) restart xs'))"
  by pat_completeness auto
termination
  by (relation "measure (\<lambda>(gap, restart, xs). gap)") (auto simp: shrink_gap_less shrink_gap_one)

definition first_gap :: "nat \<Rightarrow> nat" where
  "first_gap entrynum = (if entrynum div 2 < 2 then 1 else entrynum div 2 - 1)"

text \<open>
  The loop \<^verbatim>\<open>for(done=0; !done; )\<close> starts the gap sequence again until a pass with gap
  one makes no swap. That it ends needs an argument: every swap exchanges a pair that is out
  of order, which lowers the following measure of disorder, the sum over all rows of the
  rank of the row's name weighted by the distance of the row from the end of the table.
\<close>

definition rank_in :: "entry list \<Rightarrow> string \<Rightarrow> nat" where
  "rank_in xs k = card {y \<in> header_name ` set xs. y < k}"

definition disorder :: "entry list \<Rightarrow> nat" where
  "disorder xs = (\<Sum>k<length xs. (length xs - k) * rank_in xs (header_name (xs ! k)))"

lemma length_swap_rows [simp]: "length (swap_rows i j xs) = length xs"
  by (simp add: swap_rows_def)

lemma mset_swap_rows: "i < length xs \<Longrightarrow> j < length xs \<Longrightarrow> mset (swap_rows i j xs) = mset xs"
  unfolding swap_rows_def by (simp add: mset_swap)

lemma set_swap_rows: "i < length xs \<Longrightarrow> j < length xs \<Longrightarrow> set (swap_rows i j xs) = set xs"
  using mset_swap_rows [of i xs j] by (metis set_mset_mset)

lemma rank_in_mono:
  assumes "a \<in> header_name ` set xs" "a < b"
  shows "rank_in xs a < rank_in xs b"
proof -
  have "{y \<in> header_name ` set xs. y < a} \<subset> {y \<in> header_name ` set xs. y < b}"
    using assms by auto
  moreover have "finite {y \<in> header_name ` set xs. y < b}" by simp
  ultimately show ?thesis unfolding rank_in_def by (rule psubset_card_mono[rotated])
qed

lemma disorder_swap:
  assumes ij: "i < j" "j < length xs" and lt: "header_name (xs ! j) < header_name (xs ! i)"
  shows "disorder (swap_rows i j xs) < disorder xs"
proof -
  let ?n = "length xs"
  let ?ys = "swap_rows i j xs"
  let ?r = "\<lambda>e. rank_in xs (header_name e)"
  have set_eq: "set ?ys = set xs" using ij by (simp add: set_swap_rows)
  have rk: "rank_in ?ys = rank_in xs" by (simp add: rank_in_def set_eq fun_eq_iff)
  let ?A = "{..<?n} - {i} - {j}"
  have fin: "finite {..<?n}" by simp
  have split: "\<And>g::nat \<Rightarrow> nat. sum g {..<?n} = g i + (g j + sum g ?A)"
  proof -
    fix g :: "nat \<Rightarrow> nat"
    have "sum g {..<?n} = g i + sum g ({..<?n} - {i})"
      using ij by (intro sum.remove) auto
    also have "sum g ({..<?n} - {i}) = g j + sum g ?A"
      using ij by (intro sum.remove) auto
    finally show "sum g {..<?n} = g i + (g j + sum g ?A)" .
  qed
  have rest: "(\<Sum>k\<in>?A. (?n - k) * ?r (?ys ! k)) = (\<Sum>k\<in>?A. (?n - k) * ?r (xs ! k))"
    by (rule sum.cong) (auto simp: swap_rows_def)
  have yi: "?ys ! i = xs ! j" using ij by (simp add: swap_rows_def nth_list_update)
  have yj: "?ys ! j = xs ! i" using ij by (simp add: swap_rows_def)
  have a: "?r (xs ! j) < ?r (xs ! i)"
    using ij lt by (intro rank_in_mono) auto
  have "disorder ?ys = (?n - i) * ?r (xs ! j) + ((?n - j) * ?r (xs ! i) + (\<Sum>k\<in>?A. (?n - k) * ?r (xs ! k)))"
    unfolding disorder_def rk length_swap_rows
    by (subst split) (simp only: yi yj rest)
  moreover have "disorder xs = (?n - i) * ?r (xs ! i) + ((?n - j) * ?r (xs ! j) + (\<Sum>k\<in>?A. (?n - k) * ?r (xs ! k)))"
    unfolding disorder_def by (subst split) simp
  moreover have "(?n - i) * ?r (xs ! j) + (?n - j) * ?r (xs ! i) < (?n - i) * ?r (xs ! i) + (?n - j) * ?r (xs ! j)"
  proof -
    obtain d where d: "?r (xs ! i) = ?r (xs ! j) + d" "0 < d"
      using a by (metis less_imp_add_positive)
    have "?n - j < ?n - i" using ij by simp
    then have "(?n - j) * d < (?n - i) * d" using d by simp
    then show ?thesis unfolding d(1) by (simp add: algebra_simps)
  qed
  ultimately show ?thesis by simp
qed


lemma comb_step_props:
  assumes "i + gap < length xs" "0 < gap" "comb_step gap (xs, sw) i = (ys, sw')"
  shows "length ys = length xs \<and> mset ys = mset xs \<and> disorder ys \<le> disorder xs \<and> sw \<le> sw'
       \<and> (sw < sw' \<longrightarrow> disorder ys < disorder xs)
       \<and> (sw' = sw \<longrightarrow> ys = xs \<and> \<not> header_name (xs ! (i + gap)) < header_name (xs ! i))"
  using assms disorder_swap [of i "i + gap" xs]
  by (auto simp: comb_step_def mset_swap_rows split: if_splits)

lemma comb_fold_props:
  assumes "0 < gap" "\<forall>i\<in>set js. i + gap < length xs"
    "foldl (comb_step gap) (xs, sw) js = (ys, sw')"
  shows "length ys = length xs \<and> mset ys = mset xs \<and> disorder ys \<le> disorder xs \<and> sw \<le> sw'
       \<and> (sw < sw' \<longrightarrow> disorder ys < disorder xs)
       \<and> (sw' = sw \<longrightarrow> ys = xs \<and> (\<forall>i\<in>set js. \<not> header_name (xs ! (i + gap)) < header_name (xs ! i)))"
  using assms(2,3)
proof (induction js arbitrary: ys sw' rule: rev_induct)
  case Nil
  then show ?case by auto
next
  case (snoc j js)
  obtain zs sw1 where mid: "foldl (comb_step gap) (xs, sw) js = (zs, sw1)"
    by (cases "foldl (comb_step gap) (xs, sw) js") auto
  have step: "comb_step gap (zs, sw1) j = (ys, sw')"
    using snoc.prems(2) mid by simp
  have ih: "length zs = length xs \<and> mset zs = mset xs \<and> disorder zs \<le> disorder xs \<and> sw \<le> sw1
       \<and> (sw < sw1 \<longrightarrow> disorder zs < disorder xs)
       \<and> (sw1 = sw \<longrightarrow> zs = xs \<and> (\<forall>i\<in>set js. \<not> header_name (xs ! (i + gap)) < header_name (xs ! i)))"
    using snoc.IH[OF _ mid] snoc.prems(1) by simp
  have "j + gap < length zs" using ih snoc.prems(1) by simp
  from comb_step_props[OF this assms(1) step]
  have st: "length ys = length zs" "mset ys = mset zs" "disorder ys \<le> disorder zs" "sw1 \<le> sw'"
    "sw1 < sw' \<longrightarrow> disorder ys < disorder zs"
    "sw' = sw1 \<longrightarrow> ys = zs \<and> \<not> header_name (zs ! (j + gap)) < header_name (zs ! j)"
    by blast+
  have c1: "length ys = length xs" "mset ys = mset xs" "disorder ys \<le> disorder xs" "sw \<le> sw'"
    using st ih by auto
  have c2: "sw < sw' \<longrightarrow> disorder ys < disorder xs"
    using st ih by linarith
  have c3: "sw' = sw \<longrightarrow> ys = xs \<and> (\<forall>i\<in>set (js @ [j]). \<not> header_name (xs ! (i + gap)) < header_name (xs ! i))"
  proof
    assume e: "sw' = sw"
    then have "sw1 = sw" "sw' = sw1" using st(4) ih by auto
    then show "ys = xs \<and> (\<forall>i\<in>set (js @ [j]). \<not> header_name (xs ! (i + gap)) < header_name (xs ! i))"
      using st(6) ih by auto
  qed
  show ?case using c1 c2 c3 by blast
qed

lemma comb_pass_props:
  assumes "0 < gap" "comb_pass gap xs = (ys, sw)"
  shows "length ys = length xs \<and> mset ys = mset xs \<and> disorder ys \<le> disorder xs
       \<and> (0 < sw \<longrightarrow> disorder ys < disorder xs)
       \<and> (sw = 0 \<longrightarrow> ys = xs \<and> (\<forall>i. i + gap < length xs \<longrightarrow> \<not> header_name (xs ! (i + gap)) < header_name (xs ! i)))"
proof -
  have "\<forall>i\<in>set [0 ..< length xs - gap]. i + gap < length xs" by auto
  from comb_fold_props[OF assms(1) this assms(2)[unfolded comb_pass_def]]
  show ?thesis by auto
qed

text \<open>
  Up to the gap 1363149 the quotient is the exact quotient by 1.3 cut to an integer; at
  1363150 the rounding of the \<^verbatim>\<open>float\<close> quotient reaches the next integer.
\<close>

lemma div_shrink_rounding:
  "div_shrink 1363149 = 1048576 \<and> (1363149 * 10) div 13 = (1048576::int)
   \<and> div_shrink 1363150 = 1048577 \<and> (1363150 * 10) div 13 = (1048576::int)"
  by code_simp

lemma shrink_gap_pos: "2 \<le> gap \<Longrightarrow> 1 \<le> shrink_gap gap"
  using div_shrink_bounds(3)[of "int gap"] by (simp add: shrink_gap_def)

lemma gap_loop_props:
  "gap_loop gap restart xs = (ys, dn, r') \<Longrightarrow>
     length ys = length xs \<and> mset ys = mset xs \<and> disorder ys \<le> disorder xs
     \<and> (1 \<le> gap \<and> \<not> dn \<longrightarrow> disorder ys < disorder xs)
     \<and> (dn \<longrightarrow> sorted (map header_name ys))"
proof (induction gap restart xs arbitrary: ys dn r' rule: gap_loop.induct)
  case (1 gap restart xs)
  show ?case
  proof (cases "gap < 1")
    case True
    then show ?thesis using "1.prems" by (simp)
  next
    case False
    obtain zs sw where pass: "comb_pass gap xs = (zs, sw)" by (cases "comb_pass gap xs") auto
    have gpos: "0 < gap" using False by simp
    note P = comb_pass_props[OF gpos pass]
    show ?thesis
    proof (cases "gap = 1")
      case True
      show ?thesis
      proof (cases "sw = 0")
        case True
        then have "ys = zs" "dn" using "1.prems" pass \<open>gap = 1\<close> by (auto)
        moreover have "sorted (map header_name xs)"
          using P True \<open>gap = 1\<close> by (auto simp: sorted_iff_nth_Suc not_less)
        ultimately show ?thesis using P True by auto
      next
        case sw: False
        show ?thesis
        proof (cases "restart + 1 > 7")
          case True
          then show ?thesis using "1.prems" pass \<open>gap = 1\<close> sw P by auto
        next
          case r: False
          have rec: "gap_loop (shrink_gap gap) (restart + 1) zs = (ys, dn, r')"
            using "1.prems" pass \<open>gap = 1\<close> sw r False by (simp)
          have "shrink_gap gap = 0" using \<open>gap = 1\<close> by (simp add: shrink_gap_one)
          then have "ys = zs" "\<not> dn" using rec by auto
          then show ?thesis using P sw by auto
        qed
      qed
    next
      case g: False
      have rec: "gap_loop (shrink_gap gap) restart zs = (ys, dn, r')"
        using "1.prems" pass g False by simp
      from "1.IH"(2)[OF False pass[symmetric] g rec] 
      show ?thesis using P shrink_gap_pos[of gap] g False by auto
    qed
  qed
qed


lemma first_gap_pos: "1 \<le> first_gap n"
  by (auto simp: first_gap_def)

function sort_loop :: "nat \<Rightarrow> entry list \<Rightarrow> entry list" where
  "sort_loop restart xs =
     (case gap_loop (first_gap (length xs)) restart xs of
        (xs', finished, restart') \<Rightarrow> if finished then xs' else sort_loop restart' xs')"
  by pat_completeness auto
termination
proof (relation "measure (\<lambda>(restart, xs). disorder xs)")
  show "wf (measure (\<lambda>(restart, xs). disorder xs))" by simp
next
  fix restart xs x xs' y finished restart'
  assume "(xs', y) = gap_loop (first_gap (length xs)) restart xs" "(finished, restart') = y" "\<not> finished"
  then have "gap_loop (first_gap (length xs)) restart xs = (xs', finished, restart')" by simp
  from gap_loop_props[OF this] \<open>\<not> finished\<close> first_gap_pos[of "length xs"]
  show "((restart', xs'), (restart, xs)) \<in> measure (\<lambda>(restart, xs). disorder xs)" by simp
qed

definition sort_entries :: "entry list \<Rightarrow> entry list" where
  "sort_entries xs = sort_loop 0 xs"

lemma sort_loop_props:
  "length (sort_loop restart xs) = length xs \<and> mset (sort_loop restart xs) = mset xs
   \<and> sorted (map header_name (sort_loop restart xs))"
proof (induction restart xs rule: sort_loop.induct)
  case (1 restart xs)
  obtain ys dn r' where g: "gap_loop (first_gap (length xs)) restart xs = (ys, dn, r')"
    by (cases "gap_loop (first_gap (length xs)) restart xs") auto
  note P = gap_loop_props[OF g]
  show ?case
  proof (cases dn)
    case True
    then have "sort_loop restart xs = ys" using g by simp
    then show ?thesis using P True by simp
  next
    case False
    then have "sort_loop restart xs = sort_loop r' ys" using g by simp
    moreover note "1.IH"[OF g[symmetric] refl False]
    ultimately show ?thesis using P by simp
  qed
qed

subsection \<open>Duplicates: \<^verbatim>\<open>remove_dups\<close>\<close>

text \<open>
  The loop over \<open>i\<close> from 1: \<open>dst\<close> is the name kept last, \<open>kept\<close> the rows
  \<open>0..didx\<close> of the compacted table, \<open>warns\<close> the warnings written so far.
\<close>

fun dups_loop ::
  "bool \<Rightarrow> string \<Rightarrow> entry list \<Rightarrow> entry list \<Rightarrow> diag list \<Rightarrow> fatal + entry list \<times> diag list" where
  "dups_loop cod dst [] kept warns = Inr (kept, warns)"
| "dups_loop cod dst (e # es) kept warns =
     (if dst = header_name e
      then (if cod then dups_loop cod dst es kept (warns @ [DuplicateEntryWarning dst])
            else Inl DuplicateSelector)
      else dups_loop cod (header_name e) es (kept @ [e]) warns)"

definition remove_dups :: "bool \<Rightarrow> entry list \<Rightarrow> fatal + entry list \<times> diag list" where
  "remove_dups cod tab =
     (case tab of
        [] \<Rightarrow> Inr ([], [])
      | e # es \<Rightarrow> dups_loop cod (header_name e) es [e] [])"

subsection \<open>Lookup: \<^verbatim>\<open>bin_search\<close>\<close>

text \<open>\<open>bot\<close> and \<open>top\<close> are \<^verbatim>\<open>int\<close>: \<open>top\<close> starts at \<open>size - 1\<close> and may reach \<open>-1\<close>.\<close>

function bin_search_loop :: "string \<Rightarrow> string list \<Rightarrow> int \<Rightarrow> int \<Rightarrow> nat option" where
  "bin_search_loop find_me list bot_i top_i =
     (if bot_i \<le> top_i
      then (let mid = (bot_i + top_i) div 2 in
            if list ! nat mid = find_me then Some (nat mid)
            else if list ! nat mid > find_me then bin_search_loop find_me list bot_i (mid - 1)
            else bin_search_loop find_me list (mid + 1) top_i)
      else None)"
  by pat_completeness auto
termination
  by (relation "measure (\<lambda>(find_me, list, bot_i, top_i). nat (top_i - bot_i + 1))") auto

declare bin_search_loop.simps [simp del]

definition bin_search :: "string \<Rightarrow> string list \<Rightarrow> nat option" where
  "bin_search find_me list = bin_search_loop find_me list 0 (int (length list) - 1)"

subsection \<open>The state of \<^verbatim>\<open>main\<close>\<close>

text \<open>
  A slot of \<^verbatim>\<open>emitstrings\<close> is a null pointer, a pointer to an accumulated record, or a
  pointer whose memory was given back with \<^verbatim>\<open>free\<close> (the code does not reset it).
\<close>

datatype slot = Null | Alloc string | Freed

datatype sink = Stdout | File string

text \<open>
  Besides the local variables of \<^verbatim>\<open>main\<close> the state holds what the run does to the
  outside: every \<^verbatim>\<open>fprintf(fout, ...)\<close> in order with the sink it went to, the names of
  the files that exist, and the messages on \<^verbatim>\<open>stderr\<close>.
\<close>

record state =
  emitlist :: "bool list"
  emitstrings :: "slot list"
  emitgroups :: "string option list"
  accumstring :: "string option"
  emitting :: nat
  emit :: bool
  lastemitted :: int
  records :: nat
  emitted :: nat
  fout :: sink
  last_group :: string
  written :: "(sink \<times> string) list"
  existing :: "string set"
  stderr :: "diag list"

text \<open>
  The file system at the start, whether a file can be opened for writing, and whether the
  FASTA file ends without a line terminator, so that \<^verbatim>\<open>fgets\<close> returns its last line
  without one.
\<close>

record env =
  files0 :: "string set"
  openable :: "string \<Rightarrow> bool"
  no_final_newline :: bool

text \<open>A step goes on, jumps to the label \<^verbatim>\<open>bye\<close>, or ends the run with a fatal error.\<close>

datatype res = Go state | Bye state | Die fatal state

datatype exit = EXIT_SUCCESS state | EXIT_FAILURE fatal state

definition and_then :: "res \<Rightarrow> (state \<Rightarrow> res) \<Rightarrow> res" where
  "and_then r f = (case r of Go st \<Rightarrow> f st | Bye st \<Rightarrow> Bye st | Die e st \<Rightarrow> Die e st)"

text \<open>The arrays are allocated with \<^verbatim>\<open>calloc\<close> for the number of entries read.\<close>

definition init_state :: "env \<Rightarrow> nat \<Rightarrow> state" where
  "init_state env entrynum =
     \<lparr> emitlist = replicate entrynum False,
       emitstrings = replicate entrynum Null,
       emitgroups = replicate entrynum None,
       accumstring = None,
       emitting = 0,
       emit = False,
       lastemitted = -1,
       records = 0,
       emitted = 0,
       fout = Stdout,
       last_group = [],
       written = [],
       existing = files0 env,
       stderr = [] \<rparr>"

subsection \<open>Writing one position\<close>

text \<open>
  \<^verbatim>\<open>sprintf(temp_name,gbl_out,last_group)\<close>: the group replaces the \<^verbatim>\<open>%s\<close> of the
  template, which the command line check requires to be there; the template is taken to
  hold no other conversion.
\<close>

fun sprintf_s :: "string \<Rightarrow> string \<Rightarrow> string" where
  "sprintf_s [] g = []"
| "sprintf_s [c] g = [c]"
| "sprintf_s (c # d # fmt) g =
     (if c = CHR ''%'' \<and> d = CHR ''s'' then g @ fmt else c # sprintf_s (d # fmt) g)"

definition template :: "config \<Rightarrow> string" where
  "template cfg = (case gbl_out cfg of None \<Rightarrow> [] | Some t \<Rightarrow> t)"

text \<open>
  The change of the output file in front of a write, the same text in both emitting loops:
  when the group of position \<open>p\<close> is not the group written last, the open file is closed
  and the file of the new group is opened, for appending with \<^verbatim>\<open>-fraga\<close>, and with
  \<^verbatim>\<open>-fragc\<close> only when it cannot be opened for reading, that is, does not exist.
\<close>

definition open_group :: "config \<Rightarrow> env \<Rightarrow> nat \<Rightarrow> state \<Rightarrow> res" where
  "open_group cfg env p st =
     (case emitgroups st ! p of
        None \<Rightarrow> Die UndefinedBehaviour st
      | Some g \<Rightarrow>
          if last_group st \<noteq> g
          then (let st1 = st\<lparr>last_group := g\<rparr>;
                    temp_name = sprintf_s (template cfg) g
                in case gbl_frag cfg of
                     FRAG_APPEND \<Rightarrow>
                       if openable env temp_name
                       then Go (st1\<lparr>fout := File temp_name,
                                    existing := insert temp_name (existing st1)\<rparr>)
                       else Die SinkError st1
                   | FRAG_NEW \<Rightarrow>
                       if temp_name \<in> existing st1 then Die GroupContiguity st1
                       else if openable env temp_name
                       then Go (st1\<lparr>fout := File temp_name,
                                    existing := insert temp_name (existing st1)\<rparr>)
                       else Die SinkError st1
                   | FRAG_NONE \<Rightarrow> Go st1)
          else Go st)"

text \<open>
  The body of both emitting loops for the position \<^verbatim>\<open>lastemitted\<close>: change the file
  if need be, write the string, free it.
\<close>

definition emit_slot :: "config \<Rightarrow> env \<Rightarrow> state \<Rightarrow> res" where
  "emit_slot cfg env st =
     (let p = nat (lastemitted st) in
      and_then (if gbl_frag cfg \<noteq> FRAG_NONE then open_group cfg env p st else Go st)
        (\<lambda>st1. case emitstrings st1 ! p of
                 Alloc s \<Rightarrow> Go (st1\<lparr>written := written st1 @ [(fout st1, s)],
                                     emitstrings := (emitstrings st1)[p := Freed]\<rparr>)
               | Null \<Rightarrow> Die UndefinedBehaviour st1
               | Freed \<Rightarrow> Die UndefinedBehaviour st1))"

lemma and_then_Go_iff:
  "and_then r f = Go st' \<longleftrightarrow> (\<exists>st. r = Go st \<and> f st = Go st')"
  by (cases r) (auto simp: and_then_def)

lemma open_group_frame:
  assumes "open_group cfg env p st = Go st'"
  shows "emitstrings st' = emitstrings st \<and> lastemitted st' = lastemitted st
       \<and> emitlist st' = emitlist st \<and> emitgroups st' = emitgroups st
       \<and> accumstring st' = accumstring st \<and> emitting st' = emitting st \<and> emit st' = emit st
       \<and> records st' = records st \<and> emitted st' = emitted st \<and> written st' = written st
       \<and> stderr st' = stderr st"
  using assms
  by (auto simp: open_group_def Let_def split: option.splits if_splits frag.splits)

lemma emit_slot_frame:
  assumes "emit_slot cfg env st = Go st'"
  shows "length (emitstrings st') = length (emitstrings st) \<and> lastemitted st' = lastemitted st"
proof -
  from assms obtain st1 where
    a: "(if gbl_frag cfg \<noteq> FRAG_NONE then open_group cfg env (nat (lastemitted st)) st else Go st) = Go st1"
    and b: "(case emitstrings st1 ! nat (lastemitted st) of
                 Alloc s \<Rightarrow> Go (st1\<lparr>written := written st1 @ [(fout st1, s)],
                                     emitstrings := (emitstrings st1)[nat (lastemitted st) := Freed]\<rparr>)
               | Null \<Rightarrow> Die UndefinedBehaviour st1
               | Freed \<Rightarrow> Die UndefinedBehaviour st1) = Go st'"
    unfolding emit_slot_def Let_def and_then_Go_iff by blast
  have "emitstrings st1 = emitstrings st \<and> lastemitted st1 = lastemitted st"
    using a open_group_frame[of cfg env "nat (lastemitted st)" st st1] by (auto split: if_splits)
  then show ?thesis using b by (auto split: slot.splits)
qed

subsection \<open>The eager loop\<close>

text \<open>
  \<^verbatim>\<open>while(1)\<close> after a record was stored: as long as the next position is there it is
  written; when the last position of the table was written the program jumps to
  \<^verbatim>\<open>bye\<close>. A read outside the array does not occur in a run; the model lets the loop
  stop there.
\<close>

function drain :: "config \<Rightarrow> env \<Rightarrow> nat \<Rightarrow> state \<Rightarrow> res" where
  "drain cfg env entrynum st =
     (if 0 \<le> lastemitted st + 1 \<and> nat (lastemitted st + 1) < length (emitstrings st)
         \<and> emitstrings st ! nat (lastemitted st + 1) \<noteq> Null
      then (case emit_slot cfg env (st\<lparr>lastemitted := lastemitted st + 1\<rparr>) of
              Go st' \<Rightarrow>
                if lastemitted st' = int entrynum - 1 then Bye st'
                else drain cfg env entrynum st'
            | Bye st' \<Rightarrow> Bye st'
            | Die e st' \<Rightarrow> Die e st')
      else Go st)"
  by pat_completeness auto
termination
proof (relation "measure (\<lambda>(cfg, env, entrynum, st). length (emitstrings st) - nat (lastemitted st + 1))")
  show "wf (measure (\<lambda>(cfg, env, entrynum, st). length (emitstrings st) - nat (lastemitted st + 1)))"
    by simp
next
  fix cfg env entrynum st st'
  assume a: "0 \<le> lastemitted st + 1 \<and> nat (lastemitted st + 1) < length (emitstrings st)
              \<and> emitstrings st ! nat (lastemitted st + 1) \<noteq> Null"
    and b: "emit_slot cfg env (st\<lparr>lastemitted := lastemitted st + 1\<rparr>) = Go st'"
  from emit_slot_frame[OF b] a
  show "((cfg, env, entrynum, st'), (cfg, env, entrynum, st))
          \<in> measure (\<lambda>(cfg, env, entrynum, st). length (emitstrings st) - nat (lastemitted st + 1))"
    by auto
qed

declare drain.simps [simp del]

text \<open>
  The start of a new entry: the record accumulated before it is stored at its position and
  the eager loop runs.
\<close>

definition store_accum :: "config \<Rightarrow> env \<Rightarrow> entry list \<Rightarrow> state \<Rightarrow> res" where
  "store_accum cfg env tab st =
     (case accumstring st of
        None \<Rightarrow> Go st
      | Some a \<Rightarrow>
          (let p = emit_order (tab ! emitting st) in
           if emitstrings st ! p \<noteq> Null then Die NonNullStorage st
           else drain cfg env (length tab)
                  (st\<lparr>emitstrings := (emitstrings st)[p := Alloc a],
                      accumstring := None, emitting := 0\<rparr>)))"

subsection \<open>One line of the FASTA file\<close>

text \<open>
  The name of a header line: the text after \<^verbatim>\<open>>\<close> up to the first delimiter of
  \<^verbatim>\<open>-hi\<close>; when that span is empty nothing is cut.
\<close>

definition header_key :: "config \<Rightarrow> string \<Rightarrow> string" where
  "header_key cfg bigstring =
     (let bptr = tl bigstring;
          b_num_chars = strcspn bptr (gbl_hi cfg)
      in if b_num_chars > 0 then take b_num_chars bptr else bptr)"

text \<open>
  The lookup of a header and what follows from it: in select mode a match on a row that
  has matched before is fatal, the row is marked, and with fragments the group of the row
  is copied to its position and must be there.
\<close>

definition match_header :: "config \<Rightarrow> entry list \<Rightarrow> string \<Rightarrow> state \<Rightarrow> res" where
  "match_header cfg tab bigstring st =
     (let st0 = st\<lparr>emit := False\<rparr>;
          matched = bin_search (header_key cfg bigstring) (map header_name tab)
      in if (matched \<noteq> None) \<noteq> gbl_reject cfg
         then and_then
                (if \<not> gbl_reject cfg
                 then (let m = the matched; st1 = st0\<lparr>emitting := m\<rparr> in
                       if emitlist st1 ! m then Die DuplicateMatch st1
                       else (let st2 = st1\<lparr>emitlist := (emitlist st1)[m := True]\<rparr> in
                             if gbl_frag cfg \<noteq> FRAG_NONE
                             then (case group_name (tab ! m) of
                                     None \<Rightarrow> Die MissingGroup st2
                                   | Some g \<Rightarrow>
                                       if g = [] then Die MissingGroup st2
                                       else Go (st2\<lparr>emitgroups :=
                                                  (emitgroups st2)[emit_order (tab ! m) := Some g]\<rparr>))
                             else Go st2))
                 else Go st0)
                (\<lambda>st3. Go (st3\<lparr>emit := True, accumstring := None, emitted := emitted st3 + 1\<rparr>))
         else Go st0)"

text \<open>
  The end of the loop body: a line of an entry that is emitted is written at once in
  reject mode and appended to \<^verbatim>\<open>accumstring\<close> otherwise.
\<close>

definition accumulate :: "config \<Rightarrow> string \<Rightarrow> state \<Rightarrow> state" where
  "accumulate cfg bigstring st =
     (if emit st
      then (if gbl_reject cfg
            then st\<lparr>written := written st @ [(fout st, bigstring @ [CHR 0x0A])]\<rparr>
            else st\<lparr>accumstring :=
                       Some ((case accumstring st of None \<Rightarrow> [] | Some a \<Rightarrow> a)
                             @ bigstring @ [CHR 0x0A])\<rparr>)
      else st)"

definition is_header :: "string \<Rightarrow> bool" where
  "is_header bigstring = (bigstring \<noteq> [] \<and> hd bigstring = CHR ''>'')"

text \<open>
  The first part of the loop body at a header line: the entry is counted, and in select mode
  the record accumulated before it is stored and the eager loop runs.
\<close>

definition new_entry :: "config \<Rightarrow> env \<Rightarrow> entry list \<Rightarrow> state \<Rightarrow> res" where
  "new_entry cfg env tab st =
     (let st1 = st\<lparr>records := records st + 1\<rparr> in
      if \<not> gbl_reject cfg \<and> accumstring st1 \<noteq> None
      then store_accum cfg env tab st1 else Go st1)"

definition line_step :: "config \<Rightarrow> env \<Rightarrow> entry list \<Rightarrow> string \<Rightarrow> state \<Rightarrow> res" where
  "line_step cfg env tab bigstring0 st =
     (let bigstring = chomp_cr bigstring0 in
      if is_header bigstring
      then and_then
             (and_then (new_entry cfg env tab st) (match_header cfg tab bigstring))
             (\<lambda>st3. Go (accumulate cfg bigstring st3))
      else Go (accumulate cfg bigstring st))"

text \<open>
  \<^verbatim>\<open>feof(stdin)\<close> in \<^verbatim>\<open>main\<close>: \<^verbatim>\<open>get_entries\<close> has read \<^verbatim>\<open>stdin\<close> to its end when the
  selection list came from there, and nothing has read it otherwise.
\<close>

definition feof_stdin :: "config \<Rightarrow> bool" where
  "feof_stdin cfg \<longleftrightarrow> gbl_sel cfg = ''-''"

text \<open>
  The reading loop: it ends at the end of the file, at \<^verbatim>\<open>bye\<close> or at a fatal error.
  The lines are the strings that \<^verbatim>\<open>fgets\<close> returns, without the line terminator. They
  are taken to fit into the buffer of \<^verbatim>\<open>MYMAXSTRING\<close> characters, so the only line that
  \<^verbatim>\<open>fgets\<close> can return without a line terminator is the last line of a file that
  ends without one, and that line is not empty. For such a line the loop tests
  \<^verbatim>\<open>feof(stdin)\<close>, not the end of the FASTA file: the run ends with the fatal error
  "input record in fasta file exceeds ..." unless the selection list was read from
  \<^verbatim>\<open>stdin\<close>.
\<close>

fun read_loop :: "config \<Rightarrow> env \<Rightarrow> entry list \<Rightarrow> string list \<Rightarrow> state \<Rightarrow> res" where
  "read_loop cfg env tab [] st = Go st"
| "read_loop cfg env tab (l # ls) st =
     (if ls = [] \<and> l \<noteq> [] \<and> no_final_newline env \<and> \<not> feof_stdin cfg
      then Die RecordTooLong st
      else and_then (line_step cfg env tab l st) (read_loop cfg env tab ls))"

subsection \<open>After the last line\<close>

text \<open>One message for every row that did not match.\<close>

definition report_misses :: "config \<Rightarrow> entry list \<Rightarrow> state \<Rightarrow> diag list" where
  "report_misses cfg tab st =
     map (\<lambda>i. if gbl_com cfg then DidNotFindWarning (header_name (tab ! i))
              else DidNotFindFatal (header_name (tab ! i)))
         (filter (\<lambda>i. \<not> emitlist st ! i) [0 ..< length tab])"

definition check_found :: "config \<Rightarrow> entry list \<Rightarrow> state \<Rightarrow> res" where
  "check_found cfg tab st =
     (if \<not> gbl_reject cfg \<and> int (emitted st) \<le> int (length tab) - 1
      then (let st1 = st\<lparr>stderr := stderr st @ report_misses cfg tab st\<rparr> in
            if \<not> gbl_com cfg then Die MissingSelector st1 else Go st1)
      else Go st)"

text \<open>The record that was still accumulated at the end of the file gets its position.\<close>

definition store_last :: "entry list \<Rightarrow> state \<Rightarrow> state" where
  "store_last tab st =
     (case accumstring st of
        None \<Rightarrow> st
      | Some a \<Rightarrow> st\<lparr>emitstrings := (emitstrings st)[emit_order (tab ! emitting st) := Alloc a]\<rparr>)"

text \<open>
  \<^verbatim>\<open>for(lastemitted++; lastemitted < entrynum; lastemitted++)\<close>: the function is the loop
  from its test on, so the caller does the first increment.
\<close>

function final_drain :: "config \<Rightarrow> env \<Rightarrow> nat \<Rightarrow> state \<Rightarrow> res" where
  "final_drain cfg env entrynum st =
     (if lastemitted st < int entrynum
      then (if 0 \<le> lastemitted st \<and> nat (lastemitted st) < length (emitstrings st)
               \<and> emitstrings st ! nat (lastemitted st) \<noteq> Null
            then (case emit_slot cfg env st of
                    Go st' \<Rightarrow> final_drain cfg env entrynum (st'\<lparr>lastemitted := lastemitted st' + 1\<rparr>)
                  | Bye st' \<Rightarrow> Bye st'
                  | Die e st' \<Rightarrow> Die e st')
            else final_drain cfg env entrynum (st\<lparr>lastemitted := lastemitted st + 1\<rparr>))
      else Go st)"
  by pat_completeness auto
termination
proof (relation "measure (\<lambda>(cfg, env, entrynum, st). nat (int entrynum - lastemitted st))")
  show "wf (measure (\<lambda>(cfg, env, entrynum, st). nat (int entrynum - lastemitted st)))" by simp
next
  fix cfg env entrynum st st'
  assume a: "lastemitted st < int entrynum"
    and b: "emit_slot cfg env st = Go st'"
  from emit_slot_frame[OF b] a
  show "((cfg, env, entrynum, st'\<lparr>lastemitted := lastemitted st' + 1\<rparr>), (cfg, env, entrynum, st))
          \<in> measure (\<lambda>(cfg, env, entrynum, st). nat (int entrynum - lastemitted st))"
    by auto
next
  fix cfg env entrynum st
  assume a: "lastemitted st < int entrynum"
  then show "((cfg, env, entrynum, st\<lparr>lastemitted := lastemitted st + 1\<rparr>), (cfg, env, entrynum, st))
          \<in> measure (\<lambda>(cfg, env, entrynum, st). nat (int entrynum - lastemitted st))"
    by auto
qed

declare final_drain.simps [simp del]

text \<open>From the end of the reading loop to the end of the program.\<close>

definition finish :: "config \<Rightarrow> env \<Rightarrow> entry list \<Rightarrow> state \<Rightarrow> exit" where
  "finish cfg env tab st =
     (case and_then (check_found cfg tab st)
             (\<lambda>st1. let st2 = store_last tab st1 in
                    final_drain cfg env (length tab) (st2\<lparr>lastemitted := lastemitted st2 + 1\<rparr>)) of
        Go st' \<Rightarrow> EXIT_SUCCESS st'
      | Bye st' \<Rightarrow> EXIT_SUCCESS st'
      | Die e st' \<Rightarrow> EXIT_FAILURE e st')"

subsection \<open>The program\<close>

text \<open>
  With fragments the output starts at \<^verbatim>\<open>stdout\<close> with no group; otherwise it is
  \<^verbatim>\<open>stdout\<close> when \<^verbatim>\<open>-out\<close> is missing or \<^verbatim>\<open>-\<close>, and the named file, opened for
  writing, in the other case.
\<close>

definition open_out :: "config \<Rightarrow> env \<Rightarrow> state \<Rightarrow> res" where
  "open_out cfg env st =
     (if gbl_frag cfg \<noteq> FRAG_NONE then Go (st\<lparr>fout := Stdout, last_group := []\<rparr>)
      else (case gbl_out cfg of
              None \<Rightarrow> Go (st\<lparr>fout := Stdout\<rparr>)
            | Some name \<Rightarrow>
                if name = ''-'' then Go (st\<lparr>fout := Stdout\<rparr>)
                else if openable env name
                then Go (st\<lparr>fout := File name, existing := insert name (existing st)\<rparr>)
                else Die CannotOpenOut st))"

text \<open>The table of selectors: read, numbered, sorted, duplicates removed.\<close>

definition select_table :: "config \<Rightarrow> string list \<Rightarrow> fatal + entry list \<times> diag list" where
  "select_table cfg sel =
     remove_dups (gbl_cod cfg) (sort_entries (number_entries (get_entries cfg sel)))"

text \<open>
  The output is opened and the FASTA file is read; \<open>entrynum\<close> is the number of entries
  read, for which the arrays were allocated, and \<open>warns\<close> what \<^verbatim>\<open>remove_dups\<close> wrote.
\<close>

definition scan ::
  "config \<Rightarrow> env \<Rightarrow> nat \<Rightarrow> entry list \<Rightarrow> diag list \<Rightarrow> string list \<Rightarrow> res" where
  "scan cfg env entrynum tab warns lines =
     and_then (open_out cfg env ((init_state env entrynum)\<lparr>stderr := warns\<rparr>))
       (read_loop cfg env tab lines)"

text \<open>
  \<^verbatim>\<open>main\<close> after the command line: \<open>sel\<close> holds the lines of the selection list and
  \<open>input\<close> the lines of the FASTA file, \<open>None\<close> when that file cannot be opened.
\<close>

definition main :: "config \<Rightarrow> env \<Rightarrow> string list \<Rightarrow> string list option \<Rightarrow> exit" where
  "main cfg env sel input =
     (let entrynum = length (get_entries cfg sel) in
      if entrynum = 0 then EXIT_FAILURE NothingRead (init_state env entrynum)
      else (case select_table cfg sel of
              Inl e \<Rightarrow> EXIT_FAILURE e (init_state env entrynum)
            | Inr (tab, warns) \<Rightarrow>
                (case input of
                   None \<Rightarrow> EXIT_FAILURE CannotOpenIn ((init_state env entrynum)\<lparr>stderr := warns\<rparr>)
                 | Some lines \<Rightarrow>
                     (case scan cfg env entrynum tab warns lines of
                        Go st' \<Rightarrow> finish cfg env tab st'
                      | Bye st' \<Rightarrow> EXIT_SUCCESS st'
                      | Die e st' \<Rightarrow> EXIT_FAILURE e st'))))"

text \<open>
  The settings with \<^verbatim>\<open>-sel -\<close> and no other option, and a file system that is empty
  and writable, with a FASTA file that ends with a line terminator.
\<close>

definition default_config :: config where
  "default_config =
     \<lparr> gbl_hs = [CHR ''|'', CHR 0x09, CHR '' '', CHR '':''],
       gbl_hi = [CHR 0x01, CHR 0x09, CHR '' ''],
       gbl_out = None, gbl_frag = FRAG_NONE,
       gbl_com = False, gbl_cod = False, gbl_reject = False, gbl_sel = ''-'' \<rparr>"

definition plain_env :: env where
  "plain_env = \<lparr> files0 = {}, openable = (\<lambda>name. True), no_final_newline = False \<rparr>"

text \<open>
  The settings with the selection list in a file, and a FASTA file that ends without a line
  terminator.
\<close>

definition file_config :: config where
  "file_config = default_config\<lparr>gbl_sel := ''sel.txt''\<rparr>"

definition cut_env :: env where
  "cut_env = plain_env\<lparr>no_final_newline := True\<rparr>"

subsection \<open>Reading a result\<close>


fun final_state :: "exit \<Rightarrow> state" where
  "final_state (EXIT_SUCCESS st) = st"
| "final_state (EXIT_FAILURE e st) = st"

fun succeeded :: "exit \<Rightarrow> bool" where
  "succeeded (EXIT_SUCCESS st) = True"
| "succeeded (EXIT_FAILURE e st) = False"

definition outputs :: "exit \<Rightarrow> string list" where
  "outputs x = map snd (written (final_state x))"

text \<open>
  What \<^verbatim>\<open>remove_dups\<close> keeps and what it drops, as functions of the name kept last and
  the rows that follow; they describe the loop in the proofs.
\<close>

fun keep_rows :: "string \<Rightarrow> entry list \<Rightarrow> entry list" where
  "keep_rows dst [] = []"
| "keep_rows dst (e # es) =
     (if dst = header_name e then keep_rows dst es else e # keep_rows (header_name e) es)"

fun dropped_names :: "string \<Rightarrow> entry list \<Rightarrow> string list" where
  "dropped_names dst [] = []"
| "dropped_names dst (e # es) =
     (if dst = header_name e then dst # dropped_names dst es
      else dropped_names (header_name e) es)"


definition cod_config :: config where
  "cod_config = default_config\<lparr>gbl_cod := True\<rparr>"

text \<open>The state that a step ends in.\<close>

fun res_state :: "res \<Rightarrow> state" where
  "res_state (Go st) = st"
| "res_state (Bye st) = st"
| "res_state (Die e st) = st"

text \<open>The assignment that stores the accumulated record at its position.\<close>

definition stored :: "entry list \<Rightarrow> string \<Rightarrow> state \<Rightarrow> state" where
  "stored tab a st =
     st\<lparr>emitstrings := (emitstrings st)[emit_order (tab ! emitting st) := Alloc a],
        accumstring := None, emitting := 0\<rparr>"

text \<open>The FASTA file of scenario A: the entries A, B, C, D with one line each.\<close>

definition scenario_A_stream :: "string list" where
  "scenario_A_stream = [''>A'', ''a'', ''>B'', ''b'', ''>C'', ''c'', ''>D'', ''d'']"

text \<open>
  The positions whose slot holds a record, in ascending order, and the relation between
  the slots and the last position written that the program keeps up.
\<close>

fun is_Alloc :: "slot \<Rightarrow> bool" where
  "is_Alloc (Alloc s) = True"
| "is_Alloc Null = False"
| "is_Alloc Freed = False"

definition resident :: "state \<Rightarrow> nat list" where
  "resident st = filter (\<lambda>p. is_Alloc (emitstrings st ! p)) [0 ..< length (emitstrings st)]"

definition buffer_ok :: "state \<Rightarrow> bool" where
  "buffer_ok st \<longleftrightarrow>
     - 1 \<le> lastemitted st \<and> lastemitted st < int (length (emitstrings st))
     \<and> (\<forall>p < length (emitstrings st). int p \<le> lastemitted st \<longleftrightarrow> emitstrings st ! p = Freed)"

text \<open>
  The output as the file system sees it: every file written to exists, the open file
  exists, the writes to one sink are one block, and the last write went to the open
  sink.
\<close>

fun sink_known :: "state \<Rightarrow> sink \<Rightarrow> bool" where
  "sink_known st Stdout = True"
| "sink_known st (File f) = (f \<in> existing st)"

definition blocks :: "state \<Rightarrow> bool" where
  "blocks st = distinct (remdups_adj (map fst (written st)))"

definition log_ok :: "state \<Rightarrow> bool" where
  "log_ok st =
     (list_all (sink_known st) (map fst (written st)) \<and> sink_known st (fout st) \<and> blocks st
      \<and> (written st = [] \<or> fst (last (written st)) = fout st))"

text \<open>A property of the state a step ends in: one for going on, one for a fatal end.\<close>

definition post :: "(state \<Rightarrow> bool) \<Rightarrow> (state \<Rightarrow> bool) \<Rightarrow> res \<Rightarrow> bool" where
  "post P Q r = (case r of Go st \<Rightarrow> P st | Bye st \<Rightarrow> P st | Die e st \<Rightarrow> Q st)"

text \<open>
  Scenario B: the settings, the table, and the state in front of the write of position 2
  in the loop after the last line.
\<close>

definition scenario_B_config :: config where
  "scenario_B_config = default_config\<lparr>gbl_frag := FRAG_NEW, gbl_out := Some ''out_%s.fa''\<rparr>"

definition scenario_B_table :: "entry list" where
  "scenario_B_table =
     [Entry ''A'' (Some ''g1'') 0, Entry ''B'' (Some ''g2'') 1, Entry ''C'' (Some ''g1'') 2]"

definition scenario_B_state :: state where
  "scenario_B_state =
     (store_last scenario_B_table
        (res_state (scan scenario_B_config plain_env 3 scenario_B_table []
                      [''>A'', ''a'', ''>B'', ''b'', ''>C'', ''c''])))\<lparr>lastemitted := 2\<rparr>"

text \<open>
  The FASTA file as the specification sees it: a list of records, each with the name of
  its header and its payload, the header line and the lines that follow it up to the next
  header, every line with a line terminator. Lines in front of the first header belong to
  no record.
\<close>

definition add_line :: "config \<Rightarrow> (string \<times> string) list \<Rightarrow> string \<Rightarrow> (string \<times> string) list" where
  "add_line cfg rs l =
     (let line = chomp_cr l in
      if is_header line then rs @ [(header_key cfg line, line @ [CHR 0x0A])]
      else if rs = [] then []
      else butlast rs @ [(fst (last rs), snd (last rs) @ line @ [CHR 0x0A])])"

definition records_of :: "config \<Rightarrow> string list \<Rightarrow> (string \<times> string) list" where
  "records_of cfg ls = foldl (add_line cfg) [] ls"

text \<open>The rows marked are the rows whose name a record has carried.\<close>

definition seen_ok :: "entry list \<Rightarrow> (string \<times> string) list \<Rightarrow> state \<Rightarrow> bool" where
  "seen_ok tab rs st \<longleftrightarrow>
     length tab \<le> length (emitlist st)
     \<and> (\<forall>i < length tab. emitlist st ! i \<longleftrightarrow> header_name (tab ! i) \<in> fst ` set rs)"

text \<open>A property of the result of a step, one for each way to end it.\<close>

definition outcome ::
  "(state \<Rightarrow> bool) \<Rightarrow> (state \<Rightarrow> bool) \<Rightarrow> (fatal \<Rightarrow> state \<Rightarrow> bool) \<Rightarrow> res \<Rightarrow> bool" where
  "outcome G B D r = (case r of Go st \<Rightarrow> G st | Bye st \<Rightarrow> B st | Die e st \<Rightarrow> D e st)"

subsection \<open>The reading loop on lines with their line terminator\<close>

text \<open>
  What the reading loop does on lines that all have their line terminator: the test for a
  line without one never fires. The state in which the reading loop is when it has read
  some lines of a file, the last line left aside, is a result of this loop, and the
  properties of these states are proved for it.
\<close>

fun read_lines :: "config \<Rightarrow> env \<Rightarrow> entry list \<Rightarrow> string list \<Rightarrow> state \<Rightarrow> res" where
  "read_lines cfg env tab [] st = Go st"
| "read_lines cfg env tab (l # ls) st =
     and_then (line_step cfg env tab l st) (read_lines cfg env tab ls)"

definition scan_lines ::
  "config \<Rightarrow> env \<Rightarrow> nat \<Rightarrow> entry list \<Rightarrow> diag list \<Rightarrow> string list \<Rightarrow> res" where
  "scan_lines cfg env entrynum tab warns lines =
     and_then (open_out cfg env ((init_state env entrynum)\<lparr>stderr := warns\<rparr>))
       (read_lines cfg env tab lines)"

text \<open>
  The last line of the file has no line terminator and \<^verbatim>\<open>stdin\<close> is not at its end: a
  run that gets to this line ends there.
\<close>

definition cut_last :: "config \<Rightarrow> env \<Rightarrow> string list \<Rightarrow> bool" where
  "cut_last cfg env ls \<longleftrightarrow>
     ls \<noteq> [] \<and> last ls \<noteq> [] \<and> no_final_newline env \<and> \<not> feof_stdin cfg"

subsection \<open>A run described by the records of the stream\<close>

text \<open>
  The notions below describe the states of a run without \<^verbatim>\<open>-reject\<close> from the selection
  list as it was read, \<open>raw\<close>, and the records of the stream, \<open>rs\<close>. The payload that
  position \<open>p\<close> of the list waits for is the payload of the record with the key of that
  position.
\<close>

definition want :: "(string \<times> string) list \<Rightarrow> (string \<times> string option) list \<Rightarrow> nat \<Rightarrow> string option" where
  "want rs raw p = map_of rs (fst (raw ! p))"

fun slot_for :: "string option \<Rightarrow> slot" where
  "slot_for None = Null"
| "slot_for (Some pl) = Alloc pl"

text \<open>No key of the selection list comes twice in the stream.\<close>

definition once :: "(string \<times> string option) list \<Rightarrow> (string \<times> string) list \<Rightarrow> bool" where
  "once raw rs = distinct (filter (\<lambda>k. k \<in> fst ` set raw) (map fst rs))"

text \<open>
  The table of a selection list without duplicates: the rows of the list sorted by name,
  every row with the position it has in the list.
\<close>

definition table_of :: "(string \<times> string option) list \<Rightarrow> entry list \<Rightarrow> bool" where
  "table_of raw tab \<longleftrightarrow>
     raw \<noteq> [] \<and> length tab = length raw \<and> distinct (map fst raw)
     \<and> sorted (map header_name tab) \<and> distinct (map header_name tab)
     \<and> set (map header_name tab) = fst ` set raw
     \<and> (\<forall>i < length raw. emit_order (tab ! i) < length raw
            \<and> raw ! emit_order (tab ! i) = (header_name (tab ! i), group_name (tab ! i)))"

text \<open>
  The positions and the output when the records \<open>closed\<close> have been stored: the positions
  up to \<^verbatim>\<open>lastemitted\<close> are written, in this order, and freed; every other position holds
  the payload it waits for, if a record has brought it.
\<close>

definition core :: "(string \<times> string option) list \<Rightarrow> (string \<times> string) list \<Rightarrow> state \<Rightarrow> bool" where
  "core raw closed st \<longleftrightarrow>
     length (emitstrings st) = length raw \<and> length (emitlist st) = length raw
     \<and> length (emitgroups st) = length raw
     \<and> - 1 \<le> lastemitted st \<and> lastemitted st < int (length raw)
     \<and> (\<forall>p < length raw. emitstrings st ! p =
            (if int p \<le> lastemitted st then Freed else slot_for (want closed raw p)))
     \<and> map snd (written st) = map (\<lambda>p. the (want closed raw p)) [0 ..< nat (lastemitted st + 1)]
     \<and> (\<forall>p. int p \<le> lastemitted st \<longrightarrow> want closed raw p \<noteq> None)"

text \<open>The marks, the count of matches and the groups, after the headers of \<open>rs\<close>.\<close>

definition flags ::
  "config \<Rightarrow> (string \<times> string option) list \<Rightarrow> entry list \<Rightarrow> (string \<times> string) list \<Rightarrow> state \<Rightarrow> bool" where
  "flags cfg raw tab rs st \<longleftrightarrow>
     (\<forall>i < length raw. emitlist st ! i \<longleftrightarrow> header_name (tab ! i) \<in> fst ` set rs)
     \<and> emitted st = length (filter (\<lambda>k. k \<in> fst ` set raw) (map fst rs))
     \<and> (gbl_frag cfg \<noteq> FRAG_NONE \<longrightarrow>
           (\<forall>p < length raw. fst (raw ! p) \<in> fst ` set rs \<longrightarrow> emitgroups st ! p \<noteq> None))"

text \<open>The record that is read at the moment: it is accumulated when its key is selected.\<close>

definition open_rec ::
  "(string \<times> string option) list \<Rightarrow> entry list \<Rightarrow> (string \<times> string) list \<Rightarrow> state \<Rightarrow> bool" where
  "open_rec raw tab rs st \<longleftrightarrow>
     (if rs \<noteq> [] \<and> fst (last rs) \<in> fst ` set raw
      then emit st \<and> accumstring st = Some (snd (last rs)) \<and> emitting st < length raw
           \<and> header_name (tab ! emitting st) = fst (last rs)
      else \<not> emit st \<and> accumstring st = None)"

text \<open>The state between two lines, when the records \<open>rs\<close> have been read.\<close>

definition inv_sel ::
  "config \<Rightarrow> (string \<times> string option) list \<Rightarrow> entry list \<Rightarrow> (string \<times> string) list \<Rightarrow> state \<Rightarrow> bool" where
  "inv_sel cfg raw tab rs st \<longleftrightarrow>
     once raw rs \<and> core raw (butlast rs) st \<and> flags cfg raw tab rs st \<and> open_rec raw tab rs st
     \<and> lastemitted st < int (length raw) - 1"

text \<open>The fatal errors of the fragment files.\<close>

definition frag_error :: "config \<Rightarrow> fatal \<Rightarrow> bool" where
  "frag_error cfg e \<longleftrightarrow>
     gbl_frag cfg \<noteq> FRAG_NONE \<and> (e = GroupContiguity \<or> e = SinkError \<or> e = MissingGroup)"

definition groups_set :: "config \<Rightarrow> (string \<times> string option) list \<Rightarrow> (string \<times> string) list \<Rightarrow> state \<Rightarrow> bool" where
  "groups_set cfg raw closed st \<longleftrightarrow>
     (gbl_frag cfg \<noteq> FRAG_NONE \<longrightarrow>
        (\<forall>p < length raw. want closed raw p \<noteq> None \<longrightarrow> emitgroups st ! p \<noteq> None))"

text \<open>The states of the eager loop that starts in \<open>st0\<close>.\<close>

definition mid ::
  "config \<Rightarrow> (string \<times> string option) list \<Rightarrow> (string \<times> string) list \<Rightarrow> state \<Rightarrow> state \<Rightarrow> bool" where
  "mid cfg raw closed st0 st \<longleftrightarrow>
     core raw closed st \<and> groups_set cfg raw closed st
     \<and> emitlist st = emitlist st0 \<and> emitgroups st = emitgroups st0
     \<and> accumstring st = accumstring st0 \<and> emitting st = emitting st0 \<and> emit st = emit st0
     \<and> records st = records st0 \<and> emitted st = emitted st0 \<and> stderr st = stderr st0"

definition after_store ::
  "config \<Rightarrow> (string \<times> string option) list \<Rightarrow> entry list \<Rightarrow> (string \<times> string) list \<Rightarrow> state \<Rightarrow> bool" where
  "after_store cfg raw tab rs st \<longleftrightarrow>
     once raw rs \<and> core raw rs st \<and> flags cfg raw tab rs st \<and> accumstring st = None"

text \<open>The state at \<^verbatim>\<open>bye\<close>: every position is written.\<close>

definition all_written :: "(string \<times> string option) list \<Rightarrow> (string \<times> string) list \<Rightarrow> state \<Rightarrow> bool" where
  "all_written raw rs st \<longleftrightarrow>
     rs \<noteq> [] \<and> lastemitted st = int (length raw) - 1
     \<and> map snd (written st) = map (\<lambda>p. the (want (butlast rs) raw p)) [0 ..< length raw]
     \<and> (\<forall>p < length raw. want (butlast rs) raw p \<noteq> None)"

text \<open>The output of a run without fragments can be opened.\<close>

definition out_ok :: "config \<Rightarrow> env \<Rightarrow> bool" where
  "out_ok cfg env =
     (case gbl_out cfg of None \<Rightarrow> True | Some name \<Rightarrow> name = ''-'' \<or> openable env name)"

text \<open>The fatal errors of the reading loop, each with its cause.\<close>

definition scan_error ::
  "config \<Rightarrow> env \<Rightarrow> (string \<times> string option) list \<Rightarrow> (string \<times> string) list \<Rightarrow> fatal \<Rightarrow> bool" where
  "scan_error cfg env raw rs e \<longleftrightarrow>
     frag_error cfg e \<or> (e = DuplicateMatch \<and> \<not> once raw rs)
     \<or> (e = CannotOpenOut \<and> gbl_frag cfg = FRAG_NONE \<and> \<not> out_ok cfg env)"

text \<open>
  The payloads that the positions hold, from position 0 upwards: an empty position and a
  freed one hold nothing.
\<close>

fun held_in :: "slot \<Rightarrow> string list" where
  "held_in (Alloc pl) = [pl]"
| "held_in Null = []"
| "held_in Freed = []"

definition held :: "state \<Rightarrow> string list" where
  "held st = concat (map held_in (emitstrings st))"

text \<open>The states of the last loop that starts in \<open>s0\<close> and runs up to position \<open>n\<close>.\<close>

definition fin_inv :: "nat \<Rightarrow> state \<Rightarrow> state \<Rightarrow> bool" where
  "fin_inv n s0 s \<longleftrightarrow>
     length (emitstrings s) = length (emitstrings s0)
     \<and> lastemitted s0 \<le> lastemitted s \<and> lastemitted s \<le> int n
     \<and> (\<forall>p. nat (lastemitted s) \<le> p \<and> p < n \<longrightarrow> emitstrings s ! p = emitstrings s0 ! p)
     \<and> map snd (written s) = map snd (written s0)
          @ concat (map held_in (drop (nat (lastemitted s0)) (take (nat (lastemitted s)) (emitstrings s0))))
     \<and> emitgroups s = emitgroups s0 \<and> stderr s = stderr s0"

text \<open>
  The order law in the words of the specification, not of the code: the selectors in the
  order of the list, each one with the records of the stream that carry its key.
\<close>

definition order_law :: "(string \<times> string option) list \<Rightarrow> (string \<times> string) list \<Rightarrow> string list" where
  "order_law raw rs = concat (map (\<lambda>e. map snd (filter (\<lambda>r. fst r = fst e) rs)) raw)"

text \<open>
  The names of the table that no record of the stream carries, in the order of the table,
  and the line that \<^verbatim>\<open>main\<close> prints for such a name.
\<close>

definition unmatched :: "entry list \<Rightarrow> (string \<times> string) list \<Rightarrow> string list" where
  "unmatched tab rs = filter (\<lambda>k. k \<notin> fst ` set rs) (map header_name tab)"

definition miss_diag :: "config \<Rightarrow> string \<Rightarrow> diag" where
  "miss_diag cfg k = (if gbl_com cfg then DidNotFindWarning k else DidNotFindFatal k)"

fun failure :: "exit \<Rightarrow> fatal option" where
  "failure (EXIT_SUCCESS st) = None"
| "failure (EXIT_FAILURE e st) = Some e"

text \<open>The options of a run with \<^verbatim>\<open>-com\<close> only.\<close>

definition com_config :: config where
  "com_config = default_config\<lparr>gbl_com := True\<rparr>"

section \<open>Properties\<close>

subsection \<open>An empty selection\<close>

lemma get_entries_empty_iff:
  "get_entries cfg sel = [] \<longleftrightarrow> (\<forall>l\<in>set sel. parse_entry cfg l = None)"
  by (induction sel) (auto split: option.splits)

lemma parse_entry_None_iff:
  "parse_entry cfg l = None \<longleftrightarrow> take (strcspn (chomp_cr l) (gbl_hs cfg)) (chomp_cr l) = []"
  by (auto simp: parse_entry_def Let_def strcspn_def takeWhile_eq_Nil_iff)

text \<open>
  C10. When the selection list gives no selector, because the file has no line or because
  on every line the name in front of the first delimiter is empty, the program ends with
  the fatal error "nothing was read from -sel". This is so whatever the FASTA file is, and
  also when it cannot be opened: the file is not looked at. Nothing has been written, no
  file has been created, and no entry has been counted.
\<close>

theorem no_selector_is_fatal:
  assumes "\<forall>l\<in>set sel. take (strcspn (chomp_cr l) (gbl_hs cfg)) (chomp_cr l) = []"
  shows "main cfg env sel input = EXIT_FAILURE NothingRead (init_state env 0)
       \<and> written (init_state env 0) = []
       \<and> existing (init_state env 0) = files0 env
       \<and> records (init_state env 0) = 0"
proof -
  have "get_entries cfg sel = []"
    using assms by (simp add: get_entries_empty_iff parse_entry_None_iff)
  then show ?thesis by (simp add: main_def init_state_def)
qed

theorem no_selector_is_fatal_witness:
  "main default_config plain_env ['''', '' x'', ''|A''] (Some [''>A'', ''acgt''])
       = EXIT_FAILURE NothingRead (init_state plain_env 0)
   \<and> main default_config plain_env ['''', '' x'', ''|A''] None
       = EXIT_FAILURE NothingRead (init_state plain_env 0)"
proof -
  have h: "\<forall>l\<in>set ['''', '' x'', ''|A''].
       take (strcspn (chomp_cr l) (gbl_hs default_config)) (chomp_cr l) = []"
    by (simp add: strcspn_def chomp_cr_def default_config_def)
  show ?thesis
    using no_selector_is_fatal [OF h, of plain_env "Some [''>A'', ''acgt'']"]
      no_selector_is_fatal [OF h, of plain_env None]
    by simp
qed

subsection \<open>The table of selectors\<close>

lemma dups_loop_cod:
  "dups_loop True dst es kept warns =
     Inr (kept @ keep_rows dst es, warns @ map DuplicateEntryWarning (dropped_names dst es))"
  by (induction es arbitrary: dst kept warns) auto

lemma keep_rows_all: "dropped_names dst es = [] \<Longrightarrow> keep_rows dst es = es"
  by (induction es arbitrary: dst) (auto split: if_splits)

lemma dups_loop_nocod:
  "dups_loop False dst es kept warns =
     (if dropped_names dst es = [] then Inr (kept @ es, warns) else Inl DuplicateSelector)"
  by (induction es arbitrary: dst kept warns) (auto)

lemma keep_rows_strict:
  "sorted (dst # map header_name es) \<Longrightarrow> sorted_wrt (<) (dst # map header_name (keep_rows dst es))"
proof (induction es arbitrary: dst)
  case Nil
  then show ?case by simp
next
  case (Cons e es)
  show ?case
  proof (cases "dst = header_name e")
    case True
    then show ?thesis using Cons.IH[of dst] Cons.prems by auto
  next
    case False
    then have lt: "dst < header_name e" using Cons.prems by auto
    have "sorted_wrt (<) (header_name e # map header_name (keep_rows (header_name e) es))"
      using Cons.IH[of "header_name e"] Cons.prems by auto
    then show ?thesis using False lt by (auto intro: less_trans)
  qed
qed

lemma keep_rows_subset: "set (keep_rows dst es) \<subseteq> set es"
  by (induction es arbitrary: dst) auto

lemma keep_rows_names:
  "insert dst (header_name ` set (keep_rows dst es)) = insert dst (header_name ` set es)"
  by (induction es arbitrary: dst) auto

lemma keep_rows_count:
  "mset (map header_name es) = mset (map header_name (keep_rows dst es)) + mset (dropped_names dst es)"
  by (induction es arbitrary: dst) auto

lemma keep_rows_first:
  assumes "sorted (dst # map header_name es)" "e \<in> set (keep_rows dst es)"
  shows "find (\<lambda>x. header_name x = header_name e) es = Some e"
  using assms
proof (induction es arbitrary: dst)
  case Nil
  then show ?case by simp
next
  case (Cons x es)
  show ?case
  proof (cases "dst = header_name x")
    case True
    then have e: "e \<in> set (keep_rows dst es)" using Cons.prems by simp
    have s: "sorted (dst # map header_name es)" using Cons.prems by auto
    have "dst < header_name e" using keep_rows_strict[OF s] e by auto
    then have "header_name x \<noteq> header_name e" using True by simp
    then show ?thesis using Cons.IH[OF s e] by simp
  next
    case False
    show ?thesis
    proof (cases "e = x")
      case True
      then show ?thesis by simp
    next
      case ne: False
      then have e: "e \<in> set (keep_rows (header_name x) es)" using Cons.prems False by simp
      have s: "sorted (header_name x # map header_name es)" using Cons.prems by auto
      have "header_name x < header_name e" using keep_rows_strict[OF s] e by auto
      then have "header_name x \<noteq> header_name e" by simp
      then show ?thesis using Cons.IH[OF s e] by simp
    qed
  qed
qed

lemma dropped_names_distinct:
  "dst \<notin> header_name ` set es \<Longrightarrow> distinct (map header_name es) \<Longrightarrow> dropped_names dst es = []"
  by (induction es arbitrary: dst) auto

lemma number_entries_nth:
  "i < length raw \<Longrightarrow> number_entries raw ! i = Entry (fst (raw ! i)) (snd (raw ! i)) i"
  by (simp add: number_entries_def nth_enumerate_eq case_prod_beta)

lemma length_number_entries [simp]: "length (number_entries raw) = length raw"
  by (simp add: number_entries_def)

lemma number_entries_names: "map header_name (number_entries raw) = map fst raw"
  by (rule nth_equalityI) (auto simp: number_entries_nth)

lemma number_entries_orders: "map emit_order (number_entries raw) = [0 ..< length raw]"
  by (rule nth_equalityI) (auto simp: number_entries_nth)

lemma number_entries_row:
  assumes "e \<in> set (number_entries raw)"
  shows "emit_order e < length raw \<and> raw ! emit_order e = (header_name e, group_name e)"
proof -
  from assms obtain i where "i < length raw" "e = number_entries raw ! i"
    by (metis in_set_conv_nth length_number_entries)
  then show ?thesis by (simp add: number_entries_nth)
qed

lemma sort_entries_props:
  "length (sort_entries xs) = length xs \<and> mset (sort_entries xs) = mset xs
   \<and> sorted (map header_name (sort_entries xs))"
  unfolding sort_entries_def by (rule sort_loop_props)

lemma sort_entries_set: "set (sort_entries xs) = set xs"
  using sort_entries_props[of xs] by (metis set_mset_mset)

lemma select_table_cod:
  assumes cod: "gbl_cod cfg" and ne: "get_entries cfg sel \<noteq> []"
  defines "raw \<equiv> get_entries cfg sel"
  defines "srt \<equiv> sort_entries (number_entries raw)"
  shows "select_table cfg sel =
           Inr (hd srt # keep_rows (header_name (hd srt)) (tl srt),
                map DuplicateEntryWarning (dropped_names (header_name (hd srt)) (tl srt)))"
proof -
  have "length srt = length raw" using sort_entries_props[of "number_entries raw"] by (simp add: srt_def)
  then have "srt \<noteq> []" using ne by (auto simp: raw_def)
  then obtain e es where s: "srt = e # es" by (cases srt) auto
  show ?thesis
    using s cod unfolding select_table_def remove_dups_def raw_def[symmetric] srt_def[symmetric]
    by (simp add: dups_loop_cod)
qed

text \<open>
  C4, as the code has it. With \<^verbatim>\<open>-cod\<close> a selection list with duplicates is accepted:
  the table keeps exactly one row for every name of the list, every row dropped gets a
  warning that names it, every row kept is a row of the list with the position it had
  there, and the row kept for a name is the one that the sort has put first among the rows
  of that name. The sort is not stable, so this need not be the row that came first in
  the list.
\<close>

theorem duplicate_selectors_one_kept:
  assumes "gbl_cod cfg" and "get_entries cfg sel \<noteq> []"
  shows "\<exists>tab dropped.
           select_table cfg sel = Inr (tab, map DuplicateEntryWarning dropped)
         \<and> distinct (map header_name tab)
         \<and> set (map header_name tab) = fst ` set (get_entries cfg sel)
         \<and> mset (map fst (get_entries cfg sel)) = mset (map header_name tab) + mset dropped
         \<and> (\<forall>e\<in>set tab.
               emit_order e < length (get_entries cfg sel)
             \<and> get_entries cfg sel ! emit_order e = (header_name e, group_name e)
             \<and> find (\<lambda>x. header_name x = header_name e)
                    (sort_entries (number_entries (get_entries cfg sel))) = Some e)"
proof -
  define raw where "raw = get_entries cfg sel"
  define srt where "srt = sort_entries (number_entries raw)"
  have P: "length srt = length raw" "mset srt = mset (number_entries raw)"
    "sorted (map header_name srt)"
    using sort_entries_props[of "number_entries raw"] by (simp_all add: srt_def)
  have "srt \<noteq> []" using P(1) assms(2) by (auto simp: raw_def)
  then obtain e0 es where s: "srt = e0 # es" by (cases srt) auto
  define tab where "tab = e0 # keep_rows (header_name e0) es"
  define dropped where "dropped = dropped_names (header_name e0) es"
  have st: "select_table cfg sel = Inr (tab, map DuplicateEntryWarning dropped)"
    using select_table_cod[OF assms] s
    by (simp add: tab_def dropped_def raw_def[symmetric] srt_def[symmetric])
  have so: "sorted (header_name e0 # map header_name es)" using P(3) s by simp
  have strict: "sorted_wrt (<) (map header_name tab)"
    using keep_rows_strict[OF so] by (simp add: tab_def)
  have d: "distinct (map header_name tab)"
    using strict strict_sorted_iff by blast
  have set_srt: "set srt = set (number_entries raw)" using P(2) by (metis set_mset_mset)
  have names_srt: "mset (map header_name srt) = mset (map fst raw)"
    using P(2) number_entries_names[of raw] by (metis mset_map)
  have names: "set (map header_name tab) = fst ` set raw"
  proof -
    have "set (map header_name tab) = insert (header_name e0) (header_name ` set es)"
      using keep_rows_names[of "header_name e0" es] by (simp add: tab_def)
    also have "\<dots> = header_name ` set srt" using s by simp
    also have "\<dots> = set (map fst raw)" using names_srt by (metis set_map set_mset_mset)
    finally show ?thesis by simp
  qed
  have cnt: "mset (map fst raw) = mset (map header_name tab) + mset dropped"
    using keep_rows_count[of es "header_name e0"] names_srt s by (simp add: tab_def dropped_def)
  have rows: "\<forall>e\<in>set tab. emit_order e < length raw
             \<and> raw ! emit_order e = (header_name e, group_name e)
             \<and> find (\<lambda>x. header_name x = header_name e) srt = Some e"
  proof
    fix e assume e: "e \<in> set tab"
    then have "e \<in> set srt" using keep_rows_subset[of "header_name e0" es] s by (auto simp: tab_def)
    then have a: "emit_order e < length raw \<and> raw ! emit_order e = (header_name e, group_name e)"
      using set_srt number_entries_row by blast
    have b: "find (\<lambda>x. header_name x = header_name e) srt = Some e"
    proof (cases "e = e0")
      case True
      then show ?thesis using s by simp
    next
      case False
      then have k: "e \<in> set (keep_rows (header_name e0) es)" using e by (simp add: tab_def)
      have "header_name e0 < header_name e" using keep_rows_strict[OF so] k by auto
      then have "header_name e0 \<noteq> header_name e" by simp
      then show ?thesis using keep_rows_first[OF so k] s by simp
    qed
    show "emit_order e < length raw
             \<and> raw ! emit_order e = (header_name e, group_name e)
             \<and> find (\<lambda>x. header_name x = header_name e) srt = Some e"
      using a b by simp
  qed
  show ?thesis
    using st d names cnt rows unfolding raw_def srt_def by blast
qed


theorem duplicate_selectors_one_kept_witness:
  "\<exists>tab dropped.
      select_table cod_config [''C'', ''A'', ''A'', ''D'', ''E'', ''F'']
         = Inr (tab, map DuplicateEntryWarning dropped)
    \<and> distinct (map header_name tab)
    \<and> set (map header_name tab) = fst ` set (get_entries cod_config [''C'', ''A'', ''A'', ''D'', ''E'', ''F''])
    \<and> mset (map fst (get_entries cod_config [''C'', ''A'', ''A'', ''D'', ''E'', ''F'']))
        = mset (map header_name tab) + mset dropped"
proof -
  have c: "gbl_cod cod_config" by (simp add: cod_config_def default_config_def)
  have n: "get_entries cod_config [''C'', ''A'', ''A'', ''D'', ''E'', ''F''] \<noteq> []"
    by code_simp
  from duplicate_selectors_one_kept [OF c n] show ?thesis by blast
qed

text \<open>
  The list C, A, A, D, E, F: the first pass of the sort, with gap two, exchanges C with
  the second A, which thereby overtakes the first one. The row kept for A is the row of
  position 2, although A stands at position 1 as well.
\<close>

theorem later_duplicate_kept:
  "select_table cod_config [''C'', ''A'', ''A'', ''D'', ''E'', ''F'']
     = Inr ([Entry ''A'' None 2, Entry ''C'' None 0, Entry ''D'' None 3,
             Entry ''E'' None 4, Entry ''F'' None 5],
            [DuplicateEntryWarning ''A''])
   \<and> get_entries cod_config [''C'', ''A'', ''A'', ''D'', ''E'', ''F''] ! 1 = (''A'', None)"
  by code_simp

text \<open>
  C3 at the list A, A, B with \<^verbatim>\<open>-cod\<close>: the rows kept have the positions 0 and 2, not
  0 and 1. The eager loop waits for position 1, which no record can fill, and the final
  loop stops in front of position 2, the number of rows left: the record of B is matched
  and counted, and never written, and the program ends with success.
\<close>

theorem positions_not_compacted:
  "select_table cod_config [''A'', ''A'', ''B'']
     = Inr ([Entry ''A'' None 0, Entry ''B'' None 2], [DuplicateEntryWarning ''A''])
   \<and> succeeded (main cod_config plain_env [''A'', ''A'', ''B''] (Some [''>A'', ''aa'', ''>B'', ''bb'']))
   \<and> outputs (main cod_config plain_env [''A'', ''A'', ''B''] (Some [''>A'', ''aa'', ''>B'', ''bb'']))
       = [[CHR ''>'', CHR ''A'', CHR 0x0A, CHR ''a'', CHR ''a'', CHR 0x0A]]
   \<and> emitted (final_state (main cod_config plain_env [''A'', ''A'', ''B'']
                 (Some [''>A'', ''aa'', ''>B'', ''bb'']))) = 2"
  by code_simp

subsection \<open>The lookup\<close>

text \<open>On a sorted table the binary search finds a name exactly when it is there.\<close>


lemma bin_search_loop_Some:
  "bin_search_loop k list lo hi = Some i \<Longrightarrow> 0 \<le> lo \<Longrightarrow> hi < int (length list)
     \<Longrightarrow> i < length list \<and> list ! i = k"
proof (induction k list lo hi rule: bin_search_loop.induct)
  case (1 k list lo hi)
  show ?case
  proof (cases "lo \<le> hi")
    case False
    then show ?thesis using "1.prems" by (simp add: bin_search_loop.simps[of k list lo hi])
  next
    case True
    define mid where "mid = (lo + hi) div 2"
    have m: "lo \<le> mid" "mid \<le> hi" using True by (auto simp: mid_def)
    show ?thesis
    proof (cases "list ! nat mid = k")
      case True
      then have "i = nat mid" using "1.prems"(1) \<open>lo \<le> hi\<close>
        by (simp add: bin_search_loop.simps[of k list lo hi] mid_def Let_def)
      then show ?thesis using True m "1.prems" by auto
    next
      case ne: False
      show ?thesis
      proof (cases "list ! nat mid > k")
        case True
        then have "bin_search_loop k list lo (mid - 1) = Some i"
          using "1.prems"(1) \<open>lo \<le> hi\<close> ne
          by (simp add: bin_search_loop.simps[of k list lo hi] mid_def Let_def)
        from "1.IH"(1)[OF \<open>lo \<le> hi\<close> mid_def ne True this] show ?thesis
          using m "1.prems" by auto
      next
        case False
        then have "bin_search_loop k list (mid + 1) hi = Some i"
          using "1.prems"(1) \<open>lo \<le> hi\<close> ne
          by (simp add: bin_search_loop.simps[of k list lo hi] mid_def Let_def)
        from "1.IH"(2)[OF \<open>lo \<le> hi\<close> mid_def ne False this] show ?thesis
          using m "1.prems" by auto
      qed
    qed
  qed
qed

lemma bin_search_loop_None:
  "bin_search_loop k list lo hi = None \<Longrightarrow> sorted list \<Longrightarrow> 0 \<le> lo \<Longrightarrow> hi < int (length list)
     \<Longrightarrow> lo \<le> int i \<Longrightarrow> int i \<le> hi \<Longrightarrow> list ! i \<noteq> k"
proof (induction k list lo hi rule: bin_search_loop.induct)
  case (1 k list lo hi)
  have le: "lo \<le> hi" using "1.prems" by simp
  note unf = bin_search_loop.simps[of k list lo hi]
  define mid where "mid = (lo + hi) div 2"
  have m: "lo \<le> mid" "mid \<le> hi" using le by (auto simp: mid_def)
  have ne: "list ! nat mid \<noteq> k" using "1.prems"(1) le by (auto simp: unf mid_def Let_def split: if_splits)
  have midn: "nat mid < length list" using m "1.prems" by auto
  have il: "i < length list" using "1.prems" by auto
  show ?case
  proof (cases "list ! nat mid > k")
    case True
    then have r: "bin_search_loop k list lo (mid - 1) = None"
      using "1.prems"(1) le ne by (simp add: unf mid_def Let_def)
    show ?thesis
    proof (cases "int i \<le> mid - 1")
      case True
      from "1.IH"(1)[OF le mid_def ne \<open>list ! nat mid > k\<close> r "1.prems"(2,3) _ "1.prems"(5) True]
      show ?thesis using m "1.prems" by auto
    next
      case False
      then have "nat mid \<le> i" by auto
      then have "list ! nat mid \<le> list ! i" using "1.prems"(2) il by (simp add: sorted_nth_mono)
      then show ?thesis using True by auto
    qed
  next
    case False
    then have lt: "list ! nat mid < k" using ne by auto
    have r: "bin_search_loop k list (mid + 1) hi = None"
      using "1.prems"(1) le ne False by (simp add: unf mid_def Let_def)
    show ?thesis
    proof (cases "mid + 1 \<le> int i")
      case True
      from "1.IH"(2)[OF le mid_def ne False r "1.prems"(2) _ "1.prems"(4) True "1.prems"(6)]
      show ?thesis using m "1.prems" by auto
    next
      case False
      then have "i \<le> nat mid" by auto
      then have "list ! i \<le> list ! nat mid" using "1.prems"(2) midn by (simp add: sorted_nth_mono)
      then show ?thesis using lt by auto
    qed
  qed
qed

lemma bin_search_Some:
  "bin_search k list = Some i \<Longrightarrow> i < length list \<and> list ! i = k"
  unfolding bin_search_def by (rule bin_search_loop_Some) auto

lemma bin_search_None:
  assumes "bin_search k list = None" "sorted list"
  shows "k \<notin> set list"
proof
  assume "k \<in> set list"
  then obtain i where i: "i < length list" "list ! i = k" by (auto simp: in_set_conv_nth)
  from bin_search_loop_None[OF assms(1)[unfolded bin_search_def] assms(2), of i] i
  show False by auto
qed

lemma bin_search_iff:
  assumes "sorted list" "distinct list"
  shows "bin_search k list = Some i \<longleftrightarrow> i < length list \<and> list ! i = k"
proof
  assume "bin_search k list = Some i"
  then show "i < length list \<and> list ! i = k" by (rule bin_search_Some)
next
  assume a: "i < length list \<and> list ! i = k"
  then have "k \<in> set list" by auto
  then obtain j where j: "bin_search k list = Some j"
    using bin_search_None[OF _ assms(1), of k] by (cases "bin_search k list") auto
  then have "j < length list \<and> list ! j = k" by (rule bin_search_Some)
  then have "j = i" using a assms(2) nth_eq_iff_index_eq[of list j i] by auto
  then show "bin_search k list = Some i" using j by simp
qed

subsection \<open>Steps and what they leave alone\<close>


lemma and_then_simps [simp]:
  "and_then (Go st) f = f st"
  "and_then (Bye st) f = Bye st"
  "and_then (Die e st) f = Die e st"
  by (simp_all add: and_then_def)

lemma and_then_assoc: "and_then (and_then r f) g = and_then r (\<lambda>st. and_then (f st) g)"
  by (cases r) simp_all

lemma read_lines_append:
  "read_lines cfg env tab (xs @ ys) st = and_then (read_lines cfg env tab xs st) (read_lines cfg env tab ys)"
proof (induction xs arbitrary: st)
  case Nil
  show ?case by simp
next
  case (Cons x xs)
  have "read_lines cfg env tab (xs @ ys)
          = (\<lambda>st. and_then (read_lines cfg env tab xs st) (read_lines cfg env tab ys))"
    by (rule ext) (rule Cons.IH)
  then show ?case by (simp add: and_then_assoc)
qed

lemma and_then_Bye_iff:
  "and_then r f = Bye st' \<longleftrightarrow> r = Bye st' \<or> (\<exists>st. r = Go st \<and> f st = Bye st')"
  by (cases r) auto

lemma and_then_Die_iff:
  "and_then r f = Die e st' \<longleftrightarrow> r = Die e st' \<or> (\<exists>st. r = Go st \<and> f st = Die e st')"
  by (cases r) auto

text \<open>What the steps leave alone.\<close>

lemma emit_slot_Go:
  assumes "emit_slot cfg env st = Go st'"
  shows "\<exists>st1 s. (if gbl_frag cfg \<noteq> FRAG_NONE then open_group cfg env (nat (lastemitted st)) st else Go st) = Go st1
      \<and> emitstrings st ! nat (lastemitted st) = Alloc s
      \<and> st' = st1\<lparr>written := written st1 @ [(fout st1, s)],
                   emitstrings := (emitstrings st)[nat (lastemitted st) := Freed]\<rparr>"
proof -
  from assms obtain st1 where
    a: "(if gbl_frag cfg \<noteq> FRAG_NONE then open_group cfg env (nat (lastemitted st)) st else Go st) = Go st1"
    and b: "(case emitstrings st1 ! nat (lastemitted st) of
                 Alloc s \<Rightarrow> Go (st1\<lparr>written := written st1 @ [(fout st1, s)],
                                     emitstrings := (emitstrings st1)[nat (lastemitted st) := Freed]\<rparr>)
               | Null \<Rightarrow> Die UndefinedBehaviour st1
               | Freed \<Rightarrow> Die UndefinedBehaviour st1) = Go st'"
    unfolding emit_slot_def Let_def and_then_Go_iff by blast
  have e: "emitstrings st1 = emitstrings st"
    using a open_group_frame[of cfg env "nat (lastemitted st)" st st1] by (auto split: if_splits)
  from b e show ?thesis using a by (auto split: slot.splits)
qed

lemma emit_slot_Go_frame:
  assumes "emit_slot cfg env st = Go st'"
  shows "lastemitted st' = lastemitted st \<and> emitlist st' = emitlist st
       \<and> emitgroups st' = emitgroups st \<and> accumstring st' = accumstring st
       \<and> emitting st' = emitting st \<and> emit st' = emit st \<and> records st' = records st
       \<and> emitted st' = emitted st \<and> stderr st' = stderr st
       \<and> emitstrings st' = (emitstrings st)[nat (lastemitted st) := Freed]
       \<and> (\<exists>s. emitstrings st ! nat (lastemitted st) = Alloc s
              \<and> written st' = written st @ [(fout st', s)])"
proof -
  from emit_slot_Go[OF assms] obtain st1 s where
    a: "(if gbl_frag cfg \<noteq> FRAG_NONE then open_group cfg env (nat (lastemitted st)) st else Go st) = Go st1"
    and b: "emitstrings st ! nat (lastemitted st) = Alloc s"
    and c: "st' = st1\<lparr>written := written st1 @ [(fout st1, s)],
                   emitstrings := (emitstrings st)[nat (lastemitted st) := Freed]\<rparr>"
    by blast
  have "lastemitted st1 = lastemitted st \<and> emitlist st1 = emitlist st
       \<and> emitgroups st1 = emitgroups st \<and> accumstring st1 = accumstring st
       \<and> emitting st1 = emitting st \<and> emit st1 = emit st \<and> records st1 = records st
       \<and> emitted st1 = emitted st \<and> stderr st1 = stderr st \<and> written st1 = written st"
    using a open_group_frame[of cfg env "nat (lastemitted st)" st st1] by (auto split: if_splits)
  then show ?thesis using b c by simp
qed

text \<open>The eager loop, one round unfolded.\<close>

lemma drain_stop:
  "\<not> (0 \<le> lastemitted st + 1 \<and> nat (lastemitted st + 1) < length (emitstrings st)
         \<and> emitstrings st ! nat (lastemitted st + 1) \<noteq> Null)
   \<Longrightarrow> drain cfg env n st = Go st"
  by (subst drain.simps) auto

lemma drain_round:
  "0 \<le> lastemitted st + 1 \<Longrightarrow> nat (lastemitted st + 1) < length (emitstrings st)
   \<Longrightarrow> emitstrings st ! nat (lastemitted st + 1) \<noteq> Null
   \<Longrightarrow> drain cfg env n st =
        (case emit_slot cfg env (st\<lparr>lastemitted := lastemitted st + 1\<rparr>) of
              Go st' \<Rightarrow>
                if lastemitted st' = int n - 1 then Bye st'
                else drain cfg env n st'
            | Bye st' \<Rightarrow> Bye st'
            | Die e st' \<Rightarrow> Die e st')"
  by (subst drain.simps) simp

text \<open>The last position written stays below the last row while the reading goes on.\<close>

lemma drain_cursor:
  "drain cfg env n st = r \<Longrightarrow> lastemitted st < int n - 1 \<Longrightarrow>
     (case r of Go st' \<Rightarrow> lastemitted st' < int n - 1
              | Bye st' \<Rightarrow> lastemitted st' = int n - 1
              | Die e st' \<Rightarrow> True)"
proof (induction cfg env n st arbitrary: r rule: drain.induct)
  case (1 cfg env n st)
  show ?case
  proof (cases "0 \<le> lastemitted st + 1 \<and> nat (lastemitted st + 1) < length (emitstrings st)
         \<and> emitstrings st ! nat (lastemitted st + 1) \<noteq> Null")
    case False
    then have "r = Go st" using "1.prems"(1) drain_stop[of st cfg env n] by simp
    then show ?thesis using "1.prems" by simp
  next
    case True
    note rd = drain_round[of st cfg env n]
    show ?thesis
    proof (cases "emit_slot cfg env (st\<lparr>lastemitted := lastemitted st + 1\<rparr>)")
      case (Go st')
      have le: "lastemitted st' = lastemitted st + 1"
        using emit_slot_Go_frame[OF Go] by simp
      show ?thesis
      proof (cases "lastemitted st' = int n - 1")
        case True
        then have "r = Bye st'" using "1.prems"(1) rd \<open>0 \<le> lastemitted st + 1 \<and> _\<close> Go by simp
        then show ?thesis using True by simp
      next
        case False
        then have "drain cfg env n st' = r" using "1.prems"(1) rd True Go by simp
        from "1.IH"[OF True Go False this] le False "1.prems"(2)
        show ?thesis by simp
      qed
    next
      case (Bye st')
      then show ?thesis using emit_slot_def[of cfg env] 
        by (auto simp: Let_def and_then_Bye_iff open_group_def split: if_splits option.splits frag.splits slot.splits)
    next
      case (Die e st')
      then have "r = Die e st'" using "1.prems"(1) rd True by simp
      then show ?thesis by simp
    qed
  qed
qed

lemma match_header_frame:
  "match_header cfg tab l st = r \<Longrightarrow>
     lastemitted (res_state r) = lastemitted st \<and> emitstrings (res_state r) = emitstrings st
   \<and> written (res_state r) = written st \<and> existing (res_state r) = existing st
   \<and> fout (res_state r) = fout st \<and> last_group (res_state r) = last_group st
   \<and> records (res_state r) = records st \<and> stderr (res_state r) = stderr st
   \<and> (\<forall>st'. r \<noteq> Bye st')"
  by (auto simp: match_header_def Let_def split: if_splits option.splits)

lemma accumulate_frame:
  "lastemitted (accumulate cfg l st) = lastemitted st \<and> emitstrings (accumulate cfg l st) = emitstrings st
   \<and> existing (accumulate cfg l st) = existing st
   \<and> fout (accumulate cfg l st) = fout st \<and> last_group (accumulate cfg l st) = last_group st
   \<and> records (accumulate cfg l st) = records st \<and> stderr (accumulate cfg l st) = stderr st
   \<and> emitlist (accumulate cfg l st) = emitlist st \<and> emitgroups (accumulate cfg l st) = emitgroups st
   \<and> emitted (accumulate cfg l st) = emitted st \<and> emit (accumulate cfg l st) = emit st
   \<and> emitting (accumulate cfg l st) = emitting st"
  by (simp add: accumulate_def)

lemma drain_frame:
  "drain cfg env n st = r \<Longrightarrow>
     emitlist (res_state r) = emitlist st \<and> emitgroups (res_state r) = emitgroups st
   \<and> accumstring (res_state r) = accumstring st \<and> emitting (res_state r) = emitting st
   \<and> emit (res_state r) = emit st \<and> records (res_state r) = records st
   \<and> emitted (res_state r) = emitted st \<and> stderr (res_state r) = stderr st
   \<and> length (emitstrings (res_state r)) = length (emitstrings st)"
proof (induction cfg env n st arbitrary: r rule: drain.induct)
  case (1 cfg env n st)
  show ?case
  proof (cases "0 \<le> lastemitted st + 1 \<and> nat (lastemitted st + 1) < length (emitstrings st)
         \<and> emitstrings st ! nat (lastemitted st + 1) \<noteq> Null")
    case False
    then have "r = Go st" using "1.prems"(1) drain_stop[of st cfg env n] by simp
    then show ?thesis by simp
  next
    case True
    note rd = drain_round[of st cfg env n]
    show ?thesis
    proof (cases "emit_slot cfg env (st\<lparr>lastemitted := lastemitted st + 1\<rparr>)")
      case (Go st')
      note fr = emit_slot_Go_frame[OF Go]
      show ?thesis
      proof (cases "lastemitted st' = int n - 1")
        case True
        then have "r = Bye st'" using "1.prems"(1) rd \<open>0 \<le> lastemitted st + 1 \<and> _\<close> Go by simp
        then show ?thesis using fr by simp
      next
        case False
        then have "drain cfg env n st' = r" using "1.prems"(1) rd True Go by simp
        from "1.IH"[OF True Go False this] fr
        show ?thesis by simp
      qed
    next
      case (Bye st')
      then show ?thesis using emit_slot_def[of cfg env] 
        by (auto simp: Let_def and_then_Bye_iff open_group_def split: if_splits option.splits frag.splits slot.splits)
    next
      case (Die e st')
      then have r: "r = Die e st'" using "1.prems"(1) rd True by simp
      have "emitlist st' = emitlist st \<and> emitgroups st' = emitgroups st
   \<and> accumstring st' = accumstring st \<and> emitting st' = emitting st
   \<and> emit st' = emit st \<and> records st' = records st
   \<and> emitted st' = emitted st \<and> stderr st' = stderr st
   \<and> length (emitstrings st') = length (emitstrings st)"
        using Die 
        by (auto simp: emit_slot_def Let_def and_then_Die_iff open_group_def split: if_splits option.splits frag.splits slot.splits)
      then show ?thesis using r by simp
    qed
  qed
qed

lemma store_accum_unfold:
  "store_accum cfg env tab st =
     (case accumstring st of
        None \<Rightarrow> Go st
      | Some a \<Rightarrow>
          if emitstrings st ! emit_order (tab ! emitting st) \<noteq> Null then Die NonNullStorage st
          else drain cfg env (length tab) (stored tab a st))"
  by (simp add: store_accum_def stored_def Let_def split: option.splits)

lemma store_accum_cursor:
  assumes "store_accum cfg env tab st = r" "lastemitted st < int (length tab) - 1"
  shows "(case r of Go st' \<Rightarrow> lastemitted st' < int (length tab) - 1
              | Bye st' \<Rightarrow> lastemitted st' = int (length tab) - 1
              | Die e st' \<Rightarrow> True)"
proof (cases "accumstring st")
  case None
  then show ?thesis using assms by (auto simp add: store_accum_unfold)
next
  case (Some a)
  show ?thesis
  proof (cases "emitstrings st ! emit_order (tab ! emitting st) \<noteq> Null")
    case True
    then show ?thesis using assms Some by (auto simp add: store_accum_unfold)
  next
    case False
    then have "drain cfg env (length tab) (stored tab a st) = r"
      using assms Some by (simp add: store_accum_unfold)
    from drain_cursor[OF this] assms(2) show ?thesis by (simp add: stored_def)
  qed
qed

lemma store_accum_frame:
  assumes "store_accum cfg env tab st = r"
  shows "emitlist (res_state r) = emitlist st \<and> emitgroups (res_state r) = emitgroups st
   \<and> records (res_state r) = records st
   \<and> emitted (res_state r) = emitted st \<and> stderr (res_state r) = stderr st
   \<and> length (emitstrings (res_state r)) = length (emitstrings st)"
proof (cases "accumstring st")
  case None
  then show ?thesis using assms by (auto simp add: store_accum_unfold)
next
  case (Some a)
  show ?thesis
  proof (cases "emitstrings st ! emit_order (tab ! emitting st) \<noteq> Null")
    case True
    then show ?thesis using assms Some by (auto simp add: store_accum_unfold)
  next
    case False
    then have "drain cfg env (length tab) (stored tab a st) = r"
      using assms Some by (simp add: store_accum_unfold)
    from drain_frame[OF this] show ?thesis by (simp add: stored_def)
  qed
qed

lemma new_entry_cursor:
  "new_entry cfg env tab st = r \<Longrightarrow> lastemitted st < int (length tab) - 1 \<Longrightarrow>
     (case r of Go st' \<Rightarrow> lastemitted st' < int (length tab) - 1
              | Bye st' \<Rightarrow> lastemitted st' = int (length tab) - 1
              | Die e st' \<Rightarrow> True)"
  unfolding new_entry_def Let_def
  using store_accum_cursor[of cfg env tab "st\<lparr>records := records st + 1\<rparr>" r]
  by (auto split: if_splits)

lemma new_entry_frame:
  "new_entry cfg env tab st = r \<Longrightarrow>
     emitlist (res_state r) = emitlist st \<and> emitgroups (res_state r) = emitgroups st
   \<and> records (res_state r) = records st + 1
   \<and> emitted (res_state r) = emitted st \<and> stderr (res_state r) = stderr st
   \<and> length (emitstrings (res_state r)) = length (emitstrings st)"
  unfolding new_entry_def Let_def
  using store_accum_frame[of cfg env tab "st\<lparr>records := records st + 1\<rparr>" r]
  by (auto split: if_splits)

lemma line_step_Bye:
  assumes "line_step cfg env tab l st = Bye st'"
  shows "is_header (chomp_cr l) \<and> new_entry cfg env tab st = Bye st'"
  using assms match_header_frame[of cfg tab "chomp_cr l"]
  unfolding line_step_def Let_def
  by (auto simp: and_then_Bye_iff split: if_splits)

lemma line_step_cursor:
  assumes "line_step cfg env tab l st = r" "lastemitted st < int (length tab) - 1"
  shows "(case r of Go st' \<Rightarrow> lastemitted st' < int (length tab) - 1
              | Bye st' \<Rightarrow> lastemitted st' = int (length tab) - 1
              | Die e st' \<Rightarrow> True)"
proof (cases "is_header (chomp_cr l)")
  case False
  then show ?thesis using assms by (auto simp: line_step_def accumulate_frame)
next
  case True
  show ?thesis
  proof (cases "new_entry cfg env tab st")
    case (Go st1)
    then have c: "lastemitted st1 < int (length tab) - 1"
      using new_entry_cursor[OF Go assms(2)] by simp
    show ?thesis
    proof (cases "match_header cfg tab (chomp_cr l) st1")
      case g2: (Go st2)
      then have "r = Go (accumulate cfg (chomp_cr l) st2)"
        using assms(1) True Go by (simp add: line_step_def)
      then show ?thesis using c match_header_frame[OF g2] by (simp add: accumulate_frame)
    next
      case (Bye st2)
      then show ?thesis using match_header_frame[OF Bye] by simp
    next
      case (Die e st2)
      then have "r = Die e st2" using assms(1) True Go by (simp add: line_step_def)
      then show ?thesis by simp
    qed
  next
    case (Bye st1)
    then have "r = Bye st1" using assms(1) True by (simp add: line_step_def)
    then show ?thesis using new_entry_cursor[OF Bye assms(2)] by simp
  next
    case (Die e st1)
    then have "r = Die e st1" using assms(1) True by (simp add: line_step_def)
    then show ?thesis by simp
  qed
qed

lemma read_lines_cursor:
  "read_lines cfg env tab ls st = r \<Longrightarrow> lastemitted st < int (length tab) - 1 \<Longrightarrow>
     (case r of Go st' \<Rightarrow> lastemitted st' < int (length tab) - 1
              | Bye st' \<Rightarrow> lastemitted st' = int (length tab) - 1
              | Die e st' \<Rightarrow> True)"
proof (induction ls arbitrary: st r)
  case Nil
  then show ?case by auto
next
  case (Cons l ls)
  show ?case
  proof (cases "line_step cfg env tab l st")
    case (Go st1)
    then have "lastemitted st1 < int (length tab) - 1"
      using line_step_cursor[OF Go Cons.prems(2)] by simp
    moreover have "read_lines cfg env tab ls st1 = r" using Cons.prems(1) Go by simp
    ultimately show ?thesis using Cons.IH by blast
  next
    case (Bye st1)
    then have "r = Bye st1" using Cons.prems(1) by simp
    then show ?thesis using line_step_cursor[OF Bye Cons.prems(2)] by simp
  next
    case (Die e st1)
    then have "r = Die e st1" using Cons.prems(1) by simp
    then show ?thesis by simp
  qed
qed

lemma keep_rows_length: "length (keep_rows dst es) \<le> length es"
  by (induction es arbitrary: dst) (auto simp: le_SucI)

lemma select_table_Inr:
  assumes "select_table cfg sel = Inr (tab, warns)" "get_entries cfg sel \<noteq> []"
  shows "\<exists>e0 es. sort_entries (number_entries (get_entries cfg sel)) = e0 # es
             \<and> tab = e0 # keep_rows (header_name e0) es
             \<and> warns = map DuplicateEntryWarning (dropped_names (header_name e0) es)"
proof -
  define srt where "srt = sort_entries (number_entries (get_entries cfg sel))"
  have "length srt = length (get_entries cfg sel)"
    using sort_entries_props[of "number_entries (get_entries cfg sel)"] by (simp add: srt_def)
  then have "srt \<noteq> []" using assms(2) by auto
  then obtain e0 es where s: "srt = e0 # es" by (cases srt) auto
  have "tab = e0 # keep_rows (header_name e0) es
             \<and> warns = map DuplicateEntryWarning (dropped_names (header_name e0) es)"
  proof (cases "gbl_cod cfg")
    case True
    then show ?thesis
      using assms(1) s unfolding select_table_def remove_dups_def srt_def[symmetric]
      by (simp add: dups_loop_cod)
  next
    case False
    then show ?thesis
      using assms(1) s unfolding select_table_def remove_dups_def srt_def[symmetric]
      by (auto simp add: dups_loop_nocod keep_rows_all split: if_splits)
  qed
  then show ?thesis using s unfolding srt_def by blast
qed

text \<open>What every table that \<^verbatim>\<open>main\<close> works with satisfies.\<close>

lemma select_table_good:
  assumes "select_table cfg sel = Inr (tab, warns)" "get_entries cfg sel \<noteq> []"
  shows "tab \<noteq> [] \<and> length tab \<le> length (get_entries cfg sel)
       \<and> sorted (map header_name tab) \<and> distinct (map header_name tab)
       \<and> (\<forall>e\<in>set tab. emit_order e < length (get_entries cfg sel)
              \<and> get_entries cfg sel ! emit_order e = (header_name e, group_name e))"
proof -
  define raw where "raw = get_entries cfg sel"
  from select_table_Inr[OF assms] obtain e0 es where
    s: "sort_entries (number_entries raw) = e0 # es"
    and t: "tab = e0 # keep_rows (header_name e0) es"
    unfolding raw_def by blast
  have P: "length (e0 # es) = length raw" "mset (e0 # es) = mset (number_entries raw)"
    "sorted (map header_name (e0 # es))"
    using sort_entries_props[of "number_entries raw"] s by simp_all
  have so: "sorted (header_name e0 # map header_name es)" using P(3) by simp
  have strict: "sorted_wrt (<) (map header_name tab)"
    using keep_rows_strict[OF so] by (simp add: t)
  have d: "distinct (map header_name tab)" "sorted (map header_name tab)"
    using strict strict_sorted_iff by blast+
  have len: "length tab \<le> length raw"
    using keep_rows_length[of "header_name e0" es] P(1) by (simp add: t)
  have "set (e0 # es) = set (number_entries raw)" using P(2) by (metis set_mset_mset)
  then have "set tab \<subseteq> set (number_entries raw)"
    using keep_rows_subset[of "header_name e0" es] by (auto simp: t)
  then have rows: "\<forall>e\<in>set tab. emit_order e < length raw
              \<and> raw ! emit_order e = (header_name e, group_name e)"
    using number_entries_row by blast
  show ?thesis using t d len rows unfolding raw_def by simp
qed

lemma open_out_frame:
  "open_out cfg env st = r \<Longrightarrow>
     lastemitted (res_state r) = lastemitted st \<and> emitstrings (res_state r) = emitstrings st
   \<and> emitlist (res_state r) = emitlist st \<and> emitgroups (res_state r) = emitgroups st
   \<and> accumstring (res_state r) = accumstring st \<and> emit (res_state r) = emit st
   \<and> emitting (res_state r) = emitting st \<and> records (res_state r) = records st
   \<and> emitted (res_state r) = emitted st \<and> written (res_state r) = written st
   \<and> stderr (res_state r) = stderr st \<and> (\<forall>st'. r \<noteq> Bye st')"
  by (auto simp: open_out_def split: if_splits option.splits)

lemma scan_lines_cursor:
  assumes "scan_lines cfg env n tab warns ls = r" "tab \<noteq> []"
  shows "(case r of Go st' \<Rightarrow> lastemitted st' < int (length tab) - 1
              | Bye st' \<Rightarrow> lastemitted st' = int (length tab) - 1
              | Die e st' \<Rightarrow> True)"
proof (cases "open_out cfg env ((init_state env n)\<lparr>stderr := warns\<rparr>)")
  case (Go st0)
  have "lastemitted st0 = -1" using open_out_frame[OF Go] by (simp add: init_state_def)
  then have "lastemitted st0 < int (length tab) - 1" using assms(2) by (cases tab) auto
  moreover have "read_lines cfg env tab ls st0 = r" using assms(1) Go by (simp add: scan_lines_def)
  ultimately show ?thesis by (rule read_lines_cursor[rotated])
next
  case (Bye st0)
  then show ?thesis using open_out_frame[OF Bye] by simp
next
  case (Die e st0)
  then have "r = Die e st0" using assms(1) by (simp add: scan_lines_def)
  then show ?thesis by simp
qed

lemma scan_lines_append:
  "scan_lines cfg env n tab warns (xs @ ys) = and_then (scan_lines cfg env n tab warns xs) (read_lines cfg env tab ys)"
proof -
  have "read_lines cfg env tab (xs @ ys)
          = (\<lambda>st. and_then (read_lines cfg env tab xs st) (read_lines cfg env tab ys))"
    by (rule ext) (rule read_lines_append)
  then show ?thesis by (simp add: scan_lines_def and_then_assoc)
qed

lemma scan_lines_snoc:
  "scan_lines cfg env n tab warns (xs @ [l]) = and_then (scan_lines cfg env n tab warns xs) (line_step cfg env tab l)"
proof -
  have "read_lines cfg env tab [l] = line_step cfg env tab l"
  proof
    fix st show "read_lines cfg env tab [l] st = line_step cfg env tab l st"
      by (cases "line_step cfg env tab l st") simp_all
  qed
  then show ?thesis by (simp add: scan_lines_append)
qed

text \<open>
  The reading loop and the loop on lines with their line terminator: they differ at the
  last line of the file only, and only when that line has no line terminator and
  \<^verbatim>\<open>stdin\<close> is not at its end.
\<close>

lemma cut_last_Cons: "ls \<noteq> [] \<Longrightarrow> cut_last cfg env (l # ls) = cut_last cfg env ls"
  by (simp add: cut_last_def)

lemma read_loop_lines:
  "read_loop cfg env tab ls st =
     (if cut_last cfg env ls
      then (case read_lines cfg env tab (butlast ls) st of
              Go st' \<Rightarrow> Die RecordTooLong st'
            | Bye st' \<Rightarrow> Bye st'
            | Die e st' \<Rightarrow> Die e st')
      else read_lines cfg env tab ls st)"
proof (induction ls arbitrary: st)
  case Nil
  show ?case by (simp add: cut_last_def)
next
  case (Cons l ls)
  show ?case
  proof (cases "ls = []")
    case True
    then show ?thesis
      by (cases "line_step cfg env tab l st") (auto simp: cut_last_def)
  next
    case False
    have c: "cut_last cfg env (l # ls) = cut_last cfg env ls" using False by (rule cut_last_Cons)
    show ?thesis
      using False Cons.IH
      by (cases "line_step cfg env tab l st") (simp_all add: c)
  qed
qed

lemma scan_lines_of:
  "scan cfg env n tab warns ls =
     (if cut_last cfg env ls
      then (case scan_lines cfg env n tab warns (butlast ls) of
              Go st' \<Rightarrow> Die RecordTooLong st'
            | Bye st' \<Rightarrow> Bye st'
            | Die e st' \<Rightarrow> Die e st')
      else scan_lines cfg env n tab warns ls)"
  unfolding scan_def scan_lines_def
  by (cases "open_out cfg env ((init_state env n)\<lparr>stderr := warns\<rparr>)")
     (simp_all add: read_loop_lines)

lemma scan_lines_butlast:
  assumes "ls \<noteq> []"
  shows "scan_lines cfg env n tab warns ls
         = and_then (scan_lines cfg env n tab warns (butlast ls)) (line_step cfg env tab (last ls))"
  using scan_lines_snoc[of cfg env n tab warns "butlast ls" "last ls"] assms by simp

lemma scan_plain:
  "\<not> cut_last cfg env ls \<Longrightarrow> scan cfg env n tab warns ls = scan_lines cfg env n tab warns ls"
  by (simp add: scan_lines_of)

lemma scan_Go:
  assumes "scan cfg env n tab warns ls = Go st"
  shows "scan_lines cfg env n tab warns ls = Go st" "\<not> cut_last cfg env ls"
  using assms unfolding scan_lines_of by (auto split: if_splits res.splits)

lemma scan_Bye:
  assumes "scan cfg env n tab warns ls = Bye st"
  shows "scan_lines cfg env n tab warns ls = Bye st"
proof (cases "cut_last cfg env ls")
  case True
  then have "scan_lines cfg env n tab warns (butlast ls) = Bye st"
    using assms unfolding scan_lines_of by (auto split: res.splits)
  moreover have "ls \<noteq> []" using True by (auto simp: cut_last_def)
  ultimately show ?thesis using scan_lines_butlast[of ls cfg env n tab warns] by simp
next
  case False
  then show ?thesis using assms by (simp add: scan_lines_of)
qed

lemma scan_Die:
  assumes "scan cfg env n tab warns ls = Die e st"
  shows "e = RecordTooLong \<or> scan_lines cfg env n tab warns ls = Die e st"
proof (cases "cut_last cfg env ls")
  case True
  then have "e = RecordTooLong \<or> scan_lines cfg env n tab warns (butlast ls) = Die e st"
    using assms unfolding scan_lines_of by (auto split: res.splits)
  moreover have "ls \<noteq> []" using True by (auto simp: cut_last_def)
  ultimately show ?thesis using scan_lines_butlast[of ls cfg env n tab warns] by auto
next
  case False
  then show ?thesis using assms by (simp add: scan_lines_of)
qed

lemma scan_Bye_append:
  assumes "scan cfg env n tab warns pre = Bye st"
  shows "scan cfg env n tab warns (pre @ rest) = Bye st"
proof (cases "rest = []")
  case True
  then show ?thesis using assms by simp
next
  case False
  have b: "scan_lines cfg env n tab warns pre = Bye st" using scan_Bye[OF assms] .
  have 1: "scan_lines cfg env n tab warns (pre @ rest) = Bye st"
    using b by (simp add: scan_lines_append)
  have 2: "scan_lines cfg env n tab warns (pre @ butlast rest) = Bye st"
    using b by (simp add: scan_lines_append)
  have "butlast (pre @ rest) = pre @ butlast rest" using False by (simp add: butlast_append)
  then show ?thesis unfolding scan_lines_of[of cfg env n tab warns "pre @ rest"] using 1 2 by simp
qed

lemma scan_cursor:
  assumes "scan cfg env n tab warns ls = r" "tab \<noteq> []"
  shows "(case r of Go st' \<Rightarrow> lastemitted st' < int (length tab) - 1
              | Bye st' \<Rightarrow> lastemitted st' = int (length tab) - 1
              | Die e st' \<Rightarrow> True)"
proof (cases r)
  case (Go st)
  then have "scan_lines cfg env n tab warns ls = Go st" using assms(1) scan_Go(1) by simp
  from scan_lines_cursor[OF this assms(2)] Go show ?thesis by simp
next
  case (Bye st)
  then have "scan_lines cfg env n tab warns ls = Bye st" using assms(1) scan_Bye by simp
  from scan_lines_cursor[OF this assms(2)] Bye show ?thesis by simp
next
  case (Die e st)
  then show ?thesis by simp
qed

text \<open>
  How a file ends is looked at for its last line only. So the run on a file goes through
  the result of the reading loop on each front part of the file, taken as a file that ends
  with a line terminator: the states between the lines of any file are among the results
  of \<^verbatim>\<open>scan\<close>.
\<close>

lemma open_group_flag:
  "open_group cfg (env\<lparr>no_final_newline := b\<rparr>) p st = open_group cfg env p st"
  by (simp add: open_group_def Let_def split: option.splits frag.splits)

lemma emit_slot_flag:
  "emit_slot cfg (env\<lparr>no_final_newline := b\<rparr>) st = emit_slot cfg env st"
  by (simp add: emit_slot_def open_group_flag Let_def cong: if_cong)

lemma drain_flag:
  "drain cfg (env\<lparr>no_final_newline := b\<rparr>) n st = drain cfg env n st"
proof (induction cfg env n st rule: drain.induct)
  case (1 cfg env n st)
  show ?case
  proof (cases "0 \<le> lastemitted st + 1 \<and> nat (lastemitted st + 1) < length (emitstrings st)
         \<and> emitstrings st ! nat (lastemitted st + 1) \<noteq> Null")
    case False
    then show ?thesis by (simp add: drain_stop)
  next
    case True
    then have r: "drain cfg e n st =
        (case emit_slot cfg e (st\<lparr>lastemitted := lastemitted st + 1\<rparr>) of
              Go st' \<Rightarrow> if lastemitted st' = int n - 1 then Bye st' else drain cfg e n st'
            | Bye st' \<Rightarrow> Bye st'
            | Die e st' \<Rightarrow> Die e st')" for e
      using drain_round[of st cfg e n] by simp
    show ?thesis
    proof (cases "emit_slot cfg env (st\<lparr>lastemitted := lastemitted st + 1\<rparr>)")
      case (Go st')
      then show ?thesis using "1.IH"[OF True Go] by (simp add: r emit_slot_flag)
    next
      case (Bye st')
      then show ?thesis by (simp add: r emit_slot_flag)
    next
      case (Die e st')
      then show ?thesis by (simp add: r emit_slot_flag)
    qed
  qed
qed

lemma line_step_flag:
  "line_step cfg (env\<lparr>no_final_newline := b\<rparr>) tab l st = line_step cfg env tab l st"
  by (simp add: line_step_def new_entry_def store_accum_def drain_flag Let_def
        cong: if_cong option.case_cong)

lemma read_lines_flag:
  "read_lines cfg (env\<lparr>no_final_newline := b\<rparr>) tab ls st = read_lines cfg env tab ls st"
proof (induction ls arbitrary: st)
  case Nil
  show ?case by simp
next
  case (Cons l ls)
  show ?case
    by (cases "line_step cfg env tab l st") (simp_all add: line_step_flag Cons.IH)
qed

lemma scan_lines_flag:
  "scan_lines cfg (env\<lparr>no_final_newline := b\<rparr>) n tab warns ls = scan_lines cfg env n tab warns ls"
proof -
  have "read_lines cfg (env\<lparr>no_final_newline := b\<rparr>) tab ls = read_lines cfg env tab ls"
    by (rule ext) (rule read_lines_flag)
  then show ?thesis
    by (simp add: scan_lines_def open_out_def init_state_def cong: if_cong option.case_cong)
qed

lemma read_loop_prefix:
  "rest \<noteq> [] \<Longrightarrow>
   read_loop cfg env tab (pre @ rest) st
     = and_then (read_lines cfg env tab pre st) (read_loop cfg env tab rest)"
proof (induction pre arbitrary: st)
  case Nil
  then show ?case by simp
next
  case (Cons l pre)
  then show ?case by (cases "line_step cfg env tab l st") simp_all
qed

lemma scan_prefix:
  assumes "rest \<noteq> []"
  shows "scan cfg env n tab warns (pre @ rest)
         = and_then (scan cfg (env\<lparr>no_final_newline := False\<rparr>) n tab warns pre)
             (read_loop cfg env tab rest)"
proof -
  have "scan cfg (env\<lparr>no_final_newline := False\<rparr>) n tab warns pre = scan_lines cfg env n tab warns pre"
    by (simp add: scan_plain cut_last_def scan_lines_flag)
  moreover have "scan cfg env n tab warns (pre @ rest)
         = and_then (scan_lines cfg env n tab warns pre) (read_loop cfg env tab rest)"
    unfolding scan_def scan_lines_def
    by (cases "open_out cfg env ((init_state env n)\<lparr>stderr := warns\<rparr>)")
       (simp_all add: read_loop_prefix[OF assms])
  ultimately show ?thesis by simp
qed

text \<open>
  The selector A against the entry A with one line, which is the last line of the file and
  has no line terminator. With the selection list in a file the run ends at this line with
  the fatal error; with the selection list from \<^verbatim>\<open>stdin\<close>, and when the line has its
  terminator, the record is written.
\<close>

lemma last_line_without_terminator:
  "failure (main file_config cut_env [''A''] (Some [''>A'', ''a''])) = Some RecordTooLong
   \<and> outputs (main file_config cut_env [''A''] (Some [''>A'', ''a''])) = []
   \<and> outputs (main default_config cut_env [''A''] (Some [''>A'', ''a'']))
       = [[CHR ''>'', CHR ''A'', CHR 0x0A, CHR ''a'', CHR 0x0A]]
   \<and> outputs (main file_config plain_env [''A''] (Some [''>A'', ''a'']))
       = [[CHR ''>'', CHR ''A'', CHR 0x0A, CHR ''a'', CHR 0x0A]]"
  by code_simp

lemma main_unfold:
  assumes "select_table cfg sel = Inr (tab, warns)" "get_entries cfg sel \<noteq> []"
  shows "main cfg env sel (Some ls) =
           (case scan cfg env (length (get_entries cfg sel)) tab warns ls of
              Go st' \<Rightarrow> finish cfg env tab st'
            | Bye st' \<Rightarrow> EXIT_SUCCESS st'
            | Die e st' \<Rightarrow> EXIT_FAILURE e st')"
  using assms by (simp add: main_def Let_def)

text \<open>
  C2, as the code has it. A record is stored, and the eager loop runs, only when the header
  of the next entry has been read. So the reading loop goes on exactly as long as the last
  position written is below the last position of the table; the program jumps to
  \<^verbatim>\<open>bye\<close> in the eager loop that writes the last position, and from then on no line is
  read: whatever follows in the file, the result is the same. The line at which this
  happens is the header of the entry after the last one selected: that header has been
  read and counted as an entry, but its name is not looked up, and no line of its body is
  read. A last line without line terminator at which the reading loop ends the run is a
  fatal error, not a jump: the reading loop does not return \<^verbatim>\<open>bye\<close> then.
\<close>

theorem early_termination:
  assumes "select_table cfg sel = Inr (tab, warns)" and "get_entries cfg sel \<noteq> []"
  shows "(scan cfg env (length (get_entries cfg sel)) tab warns pre = Go st
            \<longrightarrow> lastemitted st + 1 < int (length tab))
       \<and> (scan cfg env (length (get_entries cfg sel)) tab warns pre = Bye st
            \<longrightarrow> lastemitted st + 1 = int (length tab)
              \<and> scan cfg env (length (get_entries cfg sel)) tab warns (pre @ rest) = Bye st
              \<and> main cfg env sel (Some (pre @ rest)) = EXIT_SUCCESS st)
       \<and> (scan cfg env (length (get_entries cfg sel)) tab warns pre = Go st
              \<and> line_step cfg env tab l st = Bye st'
            \<longrightarrow> is_header (chomp_cr l) \<and> records st' = records st + 1
              \<and> emitted st' = emitted st \<and> emitlist st' = emitlist st)"
proof -
  have ne: "tab \<noteq> []" using select_table_good[OF assms] by simp
  note c = scan_cursor[OF _ ne, of cfg env "length (get_entries cfg sel)" warns pre]
  have 1: "scan cfg env (length (get_entries cfg sel)) tab warns pre = Go st
            \<longrightarrow> lastemitted st + 1 < int (length tab)"
    using c[of "Go st"] by auto
  have 2: "scan cfg env (length (get_entries cfg sel)) tab warns pre = Bye st
            \<longrightarrow> lastemitted st + 1 = int (length tab)
              \<and> scan cfg env (length (get_entries cfg sel)) tab warns (pre @ rest) = Bye st
              \<and> main cfg env sel (Some (pre @ rest)) = EXIT_SUCCESS st"
    using c[of "Bye st"] by (auto simp: scan_Bye_append main_unfold[OF assms])
  have 3: "scan cfg env (length (get_entries cfg sel)) tab warns pre = Go st
              \<and> line_step cfg env tab l st = Bye st'
            \<longrightarrow> is_header (chomp_cr l) \<and> records st' = records st + 1
              \<and> emitted st' = emitted st \<and> emitlist st' = emitlist st"
  proof
    assume a: "scan cfg env (length (get_entries cfg sel)) tab warns pre = Go st
              \<and> line_step cfg env tab l st = Bye st'"
    then have "is_header (chomp_cr l)" "new_entry cfg env tab st = Bye st'"
      using line_step_Bye by blast+
    then show "is_header (chomp_cr l) \<and> records st' = records st + 1
              \<and> emitted st' = emitted st \<and> emitlist st' = emitlist st"
      using new_entry_frame[of cfg env tab st "Bye st'"] by simp
  qed
  show ?thesis using 1 2 3 by blast
qed


theorem early_termination_witness:
  "main default_config plain_env [''B'', ''A'', ''C''] (Some scenario_A_stream)
     = EXIT_SUCCESS (res_state (scan default_config plain_env 3
             [Entry ''A'' None 1, Entry ''B'' None 0, Entry ''C'' None 2] []
             [''>A'', ''a'', ''>B'', ''b'', ''>C'', ''c'', ''>D'']))
   \<and> lastemitted (res_state (scan default_config plain_env 3
             [Entry ''A'' None 1, Entry ''B'' None 0, Entry ''C'' None 2] []
             [''>A'', ''a'', ''>B'', ''b'', ''>C'', ''c'', ''>D''])) + 1 = 3
   \<and> outputs (main default_config plain_env [''B'', ''A'', ''C''] (Some scenario_A_stream))
       = [[CHR ''>'', CHR ''B'', CHR 0x0A, CHR ''b'', CHR 0x0A],
          [CHR ''>'', CHR ''A'', CHR 0x0A, CHR ''a'', CHR 0x0A],
          [CHR ''>'', CHR ''C'', CHR 0x0A, CHR ''c'', CHR 0x0A]]"
proof -
  have t: "select_table default_config [''B'', ''A'', ''C'']
            = Inr ([Entry ''A'' None 1, Entry ''B'' None 0, Entry ''C'' None 2], [])"
    by code_simp
  have g: "get_entries default_config [''B'', ''A'', ''C''] \<noteq> []"
    by code_simp
  have n: "length (get_entries default_config [''B'', ''A'', ''C'']) = 3"
    by code_simp
  have b: "scan default_config plain_env 3
             [Entry ''A'' None 1, Entry ''B'' None 0, Entry ''C'' None 2] []
             [''>A'', ''a'', ''>B'', ''b'', ''>C'', ''c'', ''>D'']
       = Bye (res_state (scan default_config plain_env 3
             [Entry ''A'' None 1, Entry ''B'' None 0, Entry ''C'' None 2] []
             [''>A'', ''a'', ''>B'', ''b'', ''>C'', ''c'', ''>D'']))"
    by code_simp
  have o: "outputs (main default_config plain_env [''B'', ''A'', ''C''] (Some scenario_A_stream))
       = [[CHR ''>'', CHR ''B'', CHR 0x0A, CHR ''b'', CHR 0x0A],
          [CHR ''>'', CHR ''A'', CHR 0x0A, CHR ''a'', CHR 0x0A],
          [CHR ''>'', CHR ''C'', CHR 0x0A, CHR ''c'', CHR 0x0A]]"
    by code_simp
  from early_termination [OF t g, of plain_env
      "[''>A'', ''a'', ''>B'', ''b'', ''>C'', ''c'', ''>D'']" _ "[''d'']"] b n o
  show ?thesis by (simp add: scenario_A_stream_def)
qed

text \<open>
  Scenario A as the claim has it: D is never scanned. In the run the header of D has been
  read when the program stops, and the count of entries read, which the program reports
  at its end, is four.
\<close>

theorem scenario_A_counts_D:
  "records (final_state (main default_config plain_env [''B'', ''A'', ''C'']
              (Some scenario_A_stream))) = 4
   \<and> emitted (final_state (main default_config plain_env [''B'', ''A'', ''C'']
              (Some scenario_A_stream))) = 3
   \<and> length (filter is_header scenario_A_stream) = 4"
  by code_simp

subsection \<open>The records held\<close>

lemma sorted_le_last:
  assumes "sorted (xs :: nat list)" "p \<in> set xs"
  shows "p \<le> last xs"
proof -
  from assms(2) obtain i where i: "i < length xs" "xs ! i = p" by (auto simp: in_set_conv_nth)
  then have "xs \<noteq> []" by auto
  then have "last xs = xs ! (length xs - 1)" by (rule last_conv_nth)
  moreover have "xs ! i \<le> xs ! (length xs - 1)"
    using assms(1) i by (intro sorted_nth_mono) auto
  ultimately show ?thesis using i by simp
qed

lemma buffer_ok_bound:
  assumes "buffer_ok st"
  shows "(\<forall>p. int p \<le> lastemitted st \<longrightarrow> emitstrings st ! p = Freed)
       \<and> (resident st \<noteq> [] \<longrightarrow>
            int (length (resident st)) \<le> int (last (resident st)) - (lastemitted st + 1) + 1)"
proof -
  have a: "\<forall>p. int p \<le> lastemitted st \<longrightarrow> emitstrings st ! p = Freed"
    using assms unfolding buffer_ok_def by (metis nat_int nat_less_iff order_le_less_trans of_nat_0_le_iff)
  have b: "resident st \<noteq> [] \<longrightarrow>
            int (length (resident st)) \<le> int (last (resident st)) - (lastemitted st + 1) + 1"
  proof
    assume ne: "resident st \<noteq> []"
    let ?xs = "resident st"
    have srt: "sorted ?xs" unfolding resident_def by (simp add: sorted_wrt_filter)
    have dst: "distinct ?xs" unfolding resident_def by simp
    have low: "\<forall>p\<in>set ?xs. lastemitted st < int p"
    proof
      fix p assume "p \<in> set ?xs"
      then have "p < length (emitstrings st)" "is_Alloc (emitstrings st ! p)"
        by (auto simp: resident_def)
      then have "emitstrings st ! p \<noteq> Freed" by auto
      then show "lastemitted st < int p"
        using assms \<open>p < length (emitstrings st)\<close> unfolding buffer_ok_def by force
    qed
    have "set ?xs \<subseteq> {nat (lastemitted st + 1) .. last ?xs}"
    proof
      fix p assume p: "p \<in> set ?xs"
      then have "p \<le> last ?xs" using sorted_le_last[OF srt] by simp
      moreover have "nat (lastemitted st + 1) \<le> p" using low p by auto
      ultimately show "p \<in> {nat (lastemitted st + 1) .. last ?xs}" by simp
    qed
    then have "card (set ?xs) \<le> card {nat (lastemitted st + 1) .. last ?xs}"
      by (intro card_mono) auto
    then have "length ?xs \<le> last ?xs + 1 - nat (lastemitted st + 1)"
      using dst by (simp add: distinct_card)
    moreover have "nat (lastemitted st + 1) \<le> last ?xs"
    proof -
      have "lastemitted st < int (last ?xs)" using low last_in_set[OF ne] by blast
      then show ?thesis by linarith
    qed
    moreover have "- 1 \<le> lastemitted st" using assms by (simp add: buffer_ok_def)
    ultimately show "int (length ?xs) \<le> int (last ?xs) - (lastemitted st + 1) + 1"
      by linarith
  qed
  show ?thesis using a b by blast
qed

lemma buffer_ok_init: "buffer_ok ((init_state env n)\<lparr>stderr := w\<rparr>)"
  by (simp add: buffer_ok_def init_state_def)

lemma buffer_ok_cong:
  "emitstrings st' = emitstrings st \<Longrightarrow> lastemitted st' = lastemitted st \<Longrightarrow>
   buffer_ok st' = buffer_ok st"
  by (simp add: buffer_ok_def)

lemma buffer_ok_stored:
  assumes "buffer_ok st" "emitstrings st ! emit_order (tab ! emitting st) = Null"
  shows "buffer_ok (stored tab a st)"
proof -
  let ?q = "emit_order (tab ! emitting st)"
  have "\<forall>p < length (emitstrings st).
          ((emitstrings st)[?q := Alloc a] ! p = Freed) = (emitstrings st ! p = Freed)"
  proof (cases "?q < length (emitstrings st)")
    case True
    then show ?thesis using assms(2) by (auto simp: nth_list_update)
  next
    case False
    then show ?thesis by simp
  qed
  then show ?thesis using assms(1) unfolding buffer_ok_def stored_def by simp
qed

lemma buffer_ok_round:
  assumes ok: "buffer_ok st"
    and nn: "nat (lastemitted st + 1) < length (emitstrings st)"
            "emitstrings st ! nat (lastemitted st + 1) \<noteq> Null"
    and go: "emit_slot cfg env (st\<lparr>lastemitted := lastemitted st + 1\<rparr>) = Go st'"
  shows "buffer_ok st'"
proof -
  from emit_slot_Go_frame[OF go]
  have le: "lastemitted st' = lastemitted st + 1"
    and es: "emitstrings st' = (emitstrings st)[nat (lastemitted st + 1) := Freed]"
    by simp_all
  have m1: "- 1 \<le> lastemitted st" using ok by (simp add: buffer_ok_def)
  show ?thesis
    unfolding buffer_ok_def le es
    using ok nn m1 unfolding buffer_ok_def
    by (auto simp: nth_list_update)
qed

lemma drain_buffer_ok:
  "drain cfg env n st = r \<Longrightarrow> buffer_ok st \<Longrightarrow>
     (case r of Go st' \<Rightarrow> buffer_ok st' | Bye st' \<Rightarrow> buffer_ok st' | Die e st' \<Rightarrow> True)"
proof (induction cfg env n st arbitrary: r rule: drain.induct)
  case (1 cfg env n st)
  show ?case
  proof (cases "0 \<le> lastemitted st + 1 \<and> nat (lastemitted st + 1) < length (emitstrings st)
         \<and> emitstrings st ! nat (lastemitted st + 1) \<noteq> Null")
    case False
    then have "r = Go st" using "1.prems"(1) drain_stop[of st cfg env n] by simp
    then show ?thesis using "1.prems" by simp
  next
    case True
    note rd = drain_round[of st cfg env n]
    show ?thesis
    proof (cases "emit_slot cfg env (st\<lparr>lastemitted := lastemitted st + 1\<rparr>)")
      case (Go st')
      have ok': "buffer_ok st'" using buffer_ok_round[OF "1.prems"(2) _ _ Go] True by simp
      show ?thesis
      proof (cases "lastemitted st' = int n - 1")
        case True
        then have "r = Bye st'" using "1.prems"(1) rd \<open>0 \<le> lastemitted st + 1 \<and> _\<close> Go by simp
        then show ?thesis using ok' by simp
      next
        case False
        then have "drain cfg env n st' = r" using "1.prems"(1) rd True Go by simp
        from "1.IH"[OF True Go False this ok']
        show ?thesis by simp
      qed
    next
      case (Bye st')
      then show ?thesis using emit_slot_def[of cfg env] 
        by (auto simp: Let_def and_then_Bye_iff open_group_def split: if_splits option.splits frag.splits slot.splits)
    next
      case (Die e st')
      then have "r = Die e st'" using "1.prems"(1) rd True by simp
      then show ?thesis by simp
    qed
  qed
qed

lemma store_accum_buffer_ok:
  assumes "store_accum cfg env tab st = r" "buffer_ok st"
  shows "(case r of Go st' \<Rightarrow> buffer_ok st' | Bye st' \<Rightarrow> buffer_ok st' | Die e st' \<Rightarrow> True)"
proof (cases "accumstring st")
  case None
  then show ?thesis using assms by (auto simp add: store_accum_unfold)
next
  case (Some a)
  show ?thesis
  proof (cases "emitstrings st ! emit_order (tab ! emitting st) \<noteq> Null")
    case True
    then show ?thesis using assms Some by (auto simp add: store_accum_unfold)
  next
    case False
    then have "drain cfg env (length tab) (stored tab a st) = r"
      using assms Some by (simp add: store_accum_unfold)
    from drain_buffer_ok[OF this] buffer_ok_stored[OF assms(2), of tab a] False
    show ?thesis by simp
  qed
qed

lemma new_entry_buffer_ok:
  assumes "new_entry cfg env tab st = r" "buffer_ok st"
  shows "(case r of Go st' \<Rightarrow> buffer_ok st' | Bye st' \<Rightarrow> buffer_ok st' | Die e st' \<Rightarrow> True)"
proof -
  have "buffer_ok (st\<lparr>records := records st + 1\<rparr>)"
    using assms(2) by (simp add: buffer_ok_def)
  then show ?thesis
    using assms(1) store_accum_buffer_ok[of cfg env tab "st\<lparr>records := records st + 1\<rparr>" r]
    unfolding new_entry_def Let_def by (auto split: if_splits)
qed

lemma line_step_buffer_ok:
  assumes "line_step cfg env tab l st = r" "buffer_ok st"
  shows "(case r of Go st' \<Rightarrow> buffer_ok st' | Bye st' \<Rightarrow> buffer_ok st' | Die e st' \<Rightarrow> True)"
proof (cases "is_header (chomp_cr l)")
  case False
  then have "r = Go (accumulate cfg (chomp_cr l) st)" using assms by (auto simp: line_step_def)
  then show ?thesis using assms(2) buffer_ok_cong[of "accumulate cfg (chomp_cr l) st" st]
    by (simp add: accumulate_frame)
next
  case True
  show ?thesis
  proof (cases "new_entry cfg env tab st")
    case (Go st1)
    then have c: "buffer_ok st1"
      using new_entry_buffer_ok[OF Go assms(2)] by simp
    show ?thesis
    proof (cases "match_header cfg tab (chomp_cr l) st1")
      case g2: (Go st2)
      then have "r = Go (accumulate cfg (chomp_cr l) st2)"
        using assms(1) True Go by (simp add: line_step_def)
      moreover have "buffer_ok st2" using c match_header_frame[OF g2] buffer_ok_cong[of st2 st1] by simp
      ultimately show ?thesis using buffer_ok_cong[of "accumulate cfg (chomp_cr l) st2" st2]
        by (simp add: accumulate_frame)
    next
      case (Bye st2)
      then show ?thesis using match_header_frame[OF Bye] by simp
    next
      case (Die e st2)
      then have "r = Die e st2" using assms(1) True Go by (simp add: line_step_def)
      then show ?thesis by simp
    qed
  next
    case (Bye st1)
    then have "r = Bye st1" using assms(1) True by (simp add: line_step_def)
    then show ?thesis using new_entry_buffer_ok[OF Bye assms(2)] by simp
  next
    case (Die e st1)
    then have "r = Die e st1" using assms(1) True by (simp add: line_step_def)
    then show ?thesis by simp
  qed
qed

lemma read_lines_buffer_ok:
  "read_lines cfg env tab ls st = r \<Longrightarrow> buffer_ok st \<Longrightarrow>
     (case r of Go st' \<Rightarrow> buffer_ok st' | Bye st' \<Rightarrow> buffer_ok st' | Die e st' \<Rightarrow> True)"
proof (induction ls arbitrary: st r)
  case Nil
  then show ?case by auto
next
  case (Cons l ls)
  show ?case
  proof (cases "line_step cfg env tab l st")
    case (Go st1)
    then have "buffer_ok st1"
      using line_step_buffer_ok[OF Go Cons.prems(2)] by simp
    moreover have "read_lines cfg env tab ls st1 = r" using Cons.prems(1) Go by simp
    ultimately show ?thesis using Cons.IH by blast
  next
    case (Bye st1)
    then have "r = Bye st1" using Cons.prems(1) by simp
    then show ?thesis using line_step_buffer_ok[OF Bye Cons.prems(2)] by simp
  next
    case (Die e st1)
    then have "r = Die e st1" using Cons.prems(1) by simp
    then show ?thesis by simp
  qed
qed

lemma scan_lines_buffer_ok:
  assumes "scan_lines cfg env n tab warns ls = r"
  shows "(case r of Go st' \<Rightarrow> buffer_ok st' | Bye st' \<Rightarrow> buffer_ok st' | Die e st' \<Rightarrow> True)"
proof (cases "open_out cfg env ((init_state env n)\<lparr>stderr := warns\<rparr>)")
  case (Go st0)
  have "buffer_ok st0"
    using open_out_frame[OF Go] buffer_ok_init[where env=env and n=n and w=warns]
      buffer_ok_cong[of st0 "(init_state env n)\<lparr>stderr := warns\<rparr>"] by simp
  moreover have "read_lines cfg env tab ls st0 = r" using assms(1) Go by (simp add: scan_lines_def)
  ultimately show ?thesis by (rule read_lines_buffer_ok[rotated])
next
  case (Bye st0)
  then show ?thesis using open_out_frame[OF Bye] by simp
next
  case (Die e st0)
  then have "r = Die e st0" using assms(1) by (simp add: scan_lines_def)
  then show ?thesis by simp
qed

lemma scan_buffer_ok:
  assumes "scan cfg env n tab warns ls = r"
  shows "(case r of Go st' \<Rightarrow> buffer_ok st' | Bye st' \<Rightarrow> buffer_ok st' | Die e st' \<Rightarrow> True)"
proof (cases r)
  case (Go st)
  then have "scan_lines cfg env n tab warns ls = Go st" using assms(1) scan_Go(1) by simp
  from scan_lines_buffer_ok[OF this] Go show ?thesis by simp
next
  case (Bye st)
  then have "scan_lines cfg env n tab warns ls = Bye st" using assms(1) scan_Bye by simp
  from scan_lines_buffer_ok[OF this] Bye show ?thesis by simp
next
  case (Die e st)
  then show ?thesis by simp
qed

text \<open>
  C6. The slots that hold a record all lie above the last position written: up to that
  position every slot has been freed. This holds after every line of the FASTA file and
  where the program jumps to \<^verbatim>\<open>bye\<close>, right after a record has been stored, which is
  where the buffer is fullest, and after every round of the eager loop. Hence the number
  of records held is at most the highest position held minus the next position to write,
  plus one.
\<close>

theorem buffer_bound:
  "((scan cfg env n tab warns pre = Go st \<or> scan cfg env n tab warns pre = Bye st)
      \<longrightarrow> (\<forall>p. int p \<le> lastemitted st \<longrightarrow> emitstrings st ! p = Freed)
        \<and> (resident st \<noteq> [] \<longrightarrow>
             int (length (resident st)) \<le> int (last (resident st)) - (lastemitted st + 1) + 1)
        \<and> buffer_ok st)
   \<and> (scan cfg env n tab warns pre = Go st \<and> accumstring st = Some a
        \<and> emitstrings st ! emit_order (tab ! emitting st) = Null
      \<longrightarrow> buffer_ok (stored tab a st))
   \<and> (buffer_ok st \<and> nat (lastemitted st + 1) < length (emitstrings st)
        \<and> emitstrings st ! nat (lastemitted st + 1) \<noteq> Null
        \<and> emit_slot cfg env (st\<lparr>lastemitted := lastemitted st + 1\<rparr>) = Go st'
      \<longrightarrow> buffer_ok st')
   \<and> (buffer_ok st
      \<longrightarrow> (\<forall>p. int p \<le> lastemitted st \<longrightarrow> emitstrings st ! p = Freed)
        \<and> (resident st \<noteq> [] \<longrightarrow>
             int (length (resident st)) \<le> int (last (resident st)) - (lastemitted st + 1) + 1))"
proof -
  have ok: "(scan cfg env n tab warns pre = Go st \<or> scan cfg env n tab warns pre = Bye st)
      \<longrightarrow> buffer_ok st"
    using scan_buffer_ok[of cfg env n tab warns pre "Go st"]
      scan_buffer_ok[of cfg env n tab warns pre "Bye st"] by auto
  have 1: "(scan cfg env n tab warns pre = Go st \<or> scan cfg env n tab warns pre = Bye st)
      \<longrightarrow> (\<forall>p. int p \<le> lastemitted st \<longrightarrow> emitstrings st ! p = Freed)
        \<and> (resident st \<noteq> [] \<longrightarrow>
             int (length (resident st)) \<le> int (last (resident st)) - (lastemitted st + 1) + 1)
        \<and> buffer_ok st"
    using ok buffer_ok_bound[of st] by blast
  have 2: "scan cfg env n tab warns pre = Go st \<and> accumstring st = Some a
        \<and> emitstrings st ! emit_order (tab ! emitting st) = Null
      \<longrightarrow> buffer_ok (stored tab a st)"
    using ok buffer_ok_stored[of st tab a] by blast
  have 3: "buffer_ok st \<and> nat (lastemitted st + 1) < length (emitstrings st)
        \<and> emitstrings st ! nat (lastemitted st + 1) \<noteq> Null
        \<and> emit_slot cfg env (st\<lparr>lastemitted := lastemitted st + 1\<rparr>) = Go st'
      \<longrightarrow> buffer_ok st'"
    using buffer_ok_round[of st cfg env st'] by blast
  have 4: "buffer_ok st
      \<longrightarrow> (\<forall>p. int p \<le> lastemitted st \<longrightarrow> emitstrings st ! p = Freed)
        \<and> (resident st \<noteq> [] \<longrightarrow>
             int (length (resident st)) \<le> int (last (resident st)) - (lastemitted st + 1) + 1)"
    using buffer_ok_bound[of st] by blast
  show ?thesis using 1 2 3 4 by blast
qed

text \<open>
  The selectors C, B, A against the entries A, B, C: when the header of C has been read,
  the records of A and B are held at the positions 2 and 1 and nothing has been written.
\<close>

theorem buffer_bound_witness:
  "resident (res_state (scan default_config plain_env 3
        [Entry ''A'' None 2, Entry ''B'' None 1, Entry ''C'' None 0] []
        [''>A'', ''a'', ''>B'', ''b'', ''>C''])) = [1, 2]
   \<and> lastemitted (res_state (scan default_config plain_env 3
        [Entry ''A'' None 2, Entry ''B'' None 1, Entry ''C'' None 0] []
        [''>A'', ''a'', ''>B'', ''b'', ''>C''])) = - 1
   \<and> int (length (resident (res_state (scan default_config plain_env 3
        [Entry ''A'' None 2, Entry ''B'' None 1, Entry ''C'' None 0] []
        [''>A'', ''a'', ''>B'', ''b'', ''>C''])))) \<le>
       int (last (resident (res_state (scan default_config plain_env 3
        [Entry ''A'' None 2, Entry ''B'' None 1, Entry ''C'' None 0] []
        [''>A'', ''a'', ''>B'', ''b'', ''>C''])))) -
       (lastemitted (res_state (scan default_config plain_env 3
        [Entry ''A'' None 2, Entry ''B'' None 1, Entry ''C'' None 0] []
        [''>A'', ''a'', ''>B'', ''b'', ''>C''])) + 1) + 1"
proof -
  let ?r = "scan default_config plain_env 3
        [Entry ''A'' None 2, Entry ''B'' None 1, Entry ''C'' None 0] []
        [''>A'', ''a'', ''>B'', ''b'', ''>C'']"
  have g: "?r = Go (res_state ?r)" by code_simp
  have r: "resident (res_state ?r) = [1, 2]" by code_simp
  have l: "lastemitted (res_state ?r) = - 1" by code_simp
  from buffer_bound [of default_config plain_env 3
      "[Entry ''A'' None 2, Entry ''B'' None 1, Entry ''C'' None 0]" "[]"
      "[''>A'', ''a'', ''>B'', ''b'', ''>C'']" "res_state ?r"] g r l
  show ?thesis by simp
qed

subsection \<open>Groups and files\<close>

lemma remdups_adj_snoc_last: "xs \<noteq> [] \<Longrightarrow> remdups_adj (xs @ [last xs]) = remdups_adj xs"
proof -
  assume "xs \<noteq> []"
  then obtain ys l where xs: "xs = ys @ [l]" by (metis append_butlast_last_id)
  show ?thesis unfolding xs using remdups_adj_append_two[of ys l l] by simp
qed

lemma remdups_adj_snoc_new: "x \<notin> set xs \<Longrightarrow> remdups_adj (xs @ [x]) = remdups_adj xs @ [x]"
proof (cases "xs = []")
  case True
  then show ?thesis by simp
next
  case False
  assume x: "x \<notin> set xs"
  from False obtain ys l where xs: "xs = ys @ [l]" by (metis append_butlast_last_id)
  then have "l \<noteq> x" using x by auto
  then show ?thesis unfolding xs using remdups_adj_append_two[of ys l x] by simp
qed

lemma sink_known_mono:
  "existing st \<subseteq> existing st' \<Longrightarrow> sink_known st k \<Longrightarrow> sink_known st' k"
  by (cases k) auto

lemma log_ok_write_same:
  assumes "log_ok st"
  shows "log_ok (st\<lparr>written := written st @ [(fout st, s)], emitstrings := es\<rparr>)"
proof -
  have "blocks (st\<lparr>written := written st @ [(fout st, s)], emitstrings := es\<rparr>)"
  proof (cases "written st = []")
    case True
    then show ?thesis by (simp add: blocks_def)
  next
    case False
    then have "fst (last (written st)) = fout st" using assms by (simp add: log_ok_def)
    then have "map fst (written st) @ [fout st] = map fst (written st) @ [last (map fst (written st))]"
      using False by (simp add: last_map)
    then show ?thesis
      using assms False remdups_adj_snoc_last[of "map fst (written st)"]
      by (simp add: blocks_def log_ok_def)
  qed
  moreover have "list_all (sink_known (st\<lparr>written := written st @ [(fout st, s)], emitstrings := es\<rparr>))
                   (map fst (written st))"
    using assms unfolding log_ok_def list_all_iff
    by (auto intro: sink_known_mono[of st])
  moreover have "sink_known (st\<lparr>written := written st @ [(fout st, s)], emitstrings := es\<rparr>) (fout st)"
    using assms unfolding log_ok_def by (auto intro: sink_known_mono[of st])
  ultimately show ?thesis by (simp add: log_ok_def)
qed

lemma log_ok_write_new:
  assumes "log_ok st" "name \<notin> existing st"
  shows "log_ok (st\<lparr>last_group := g, fout := File name, existing := insert name (existing st),
                   written := written st @ [(File name, s)], emitstrings := es\<rparr>)"
proof -
  let ?st' = "st\<lparr>last_group := g, fout := File name, existing := insert name (existing st),
                   written := written st @ [(File name, s)], emitstrings := es\<rparr>"
  have nin: "File name \<notin> set (map fst (written st))"
  proof
    assume "File name \<in> set (map fst (written st))"
    then have "sink_known st (File name)" using assms(1) unfolding log_ok_def list_all_iff by blast
    then show False using assms(2) by simp
  qed
  have "blocks ?st'"
    using assms(1) nin remdups_adj_snoc_new[OF nin]
    by (simp add: blocks_def log_ok_def)
  moreover have "list_all (sink_known ?st') (map fst (written st))"
    using assms(1) unfolding log_ok_def list_all_iff
    by (auto intro: sink_known_mono[of st])
  ultimately show ?thesis by (simp add: log_ok_def)
qed

lemma log_ok_cong:
  "written st' = written st \<Longrightarrow> existing st' = existing st \<Longrightarrow> fout st' = fout st
   \<Longrightarrow> log_ok st' = log_ok st"
proof -
  assume a: "written st' = written st" "existing st' = existing st" "fout st' = fout st"
  have "sink_known st' = sink_known st"
  proof
    fix k show "sink_known st' k = sink_known st k" using a by (cases k) auto
  qed
  then show ?thesis using a by (simp add: log_ok_def blocks_def)
qed

lemma blocks_cong: "written st' = written st \<Longrightarrow> blocks st' = blocks st"
  by (simp add: blocks_def)

lemma open_group_new:
  assumes "gbl_frag cfg = FRAG_NEW" "emitgroups st ! p = Some g" "g \<noteq> last_group st"
  shows "open_group cfg env p st =
           (if sprintf_s (template cfg) g \<in> existing st
            then Die GroupContiguity (st\<lparr>last_group := g\<rparr>)
            else if openable env (sprintf_s (template cfg) g)
            then Go (st\<lparr>last_group := g, fout := File (sprintf_s (template cfg) g),
                        existing := insert (sprintf_s (template cfg) g) (existing st)\<rparr>)
            else Die SinkError (st\<lparr>last_group := g\<rparr>))"
  using assms by (auto simp: open_group_def Let_def)

lemma open_group_same:
  assumes "emitgroups st ! p = Some g" "g = last_group st"
  shows "open_group cfg env p st = Go st"
  using assms by (auto simp: open_group_def Let_def)

lemma emit_slot_log_ok:
  assumes "emit_slot cfg env st = r" "log_ok st" "gbl_frag cfg \<noteq> FRAG_APPEND"
  shows "(case r of Go st' \<Rightarrow> log_ok st' | Bye st' \<Rightarrow> log_ok st' | Die e st' \<Rightarrow> blocks st')"
proof -
  let ?p = "nat (lastemitted st)"
  have plain: "\<And>st1. st1 = st \<Longrightarrow>
        (case (case emitstrings st1 ! ?p of
                 Alloc s \<Rightarrow> Go (st1\<lparr>written := written st1 @ [(fout st1, s)],
                                     emitstrings := (emitstrings st1)[?p := Freed]\<rparr>)
               | Null \<Rightarrow> Die UndefinedBehaviour st1
               | Freed \<Rightarrow> Die UndefinedBehaviour st1) of
           Go st' \<Rightarrow> log_ok st' | Bye st' \<Rightarrow> log_ok st' | Die e st' \<Rightarrow> blocks st')"
    using assms(2) log_ok_write_same[OF assms(2)]
    by (auto split: slot.splits simp: log_ok_def)
  show ?thesis
  proof (cases "gbl_frag cfg")
    case FRAG_NONE
    then have "r = (case emitstrings st ! ?p of
                 Alloc s \<Rightarrow> Go (st\<lparr>written := written st @ [(fout st, s)],
                                     emitstrings := (emitstrings st)[?p := Freed]\<rparr>)
               | Null \<Rightarrow> Die UndefinedBehaviour st
               | Freed \<Rightarrow> Die UndefinedBehaviour st)"
      using assms(1) by (simp add: emit_slot_def Let_def)
    then show ?thesis using plain[OF refl] by simp
  next
    case FRAG_APPEND
    then show ?thesis using assms(3) by simp
  next
    case FRAG_NEW
    show ?thesis
    proof (cases "emitgroups st ! ?p")
      case None
      then have "r = Die UndefinedBehaviour st"
        using assms(1) FRAG_NEW by (simp add: emit_slot_def Let_def open_group_def)
      then show ?thesis using assms(2) by (simp add: log_ok_def)
    next
      case (Some g)
      show ?thesis
      proof (cases "g = last_group st")
        case True
        then have "r = (case emitstrings st ! ?p of
                 Alloc s \<Rightarrow> Go (st\<lparr>written := written st @ [(fout st, s)],
                                     emitstrings := (emitstrings st)[?p := Freed]\<rparr>)
               | Null \<Rightarrow> Die UndefinedBehaviour st
               | Freed \<Rightarrow> Die UndefinedBehaviour st)"
          using assms(1) FRAG_NEW open_group_same[OF Some True, of cfg env]
          by (simp add: emit_slot_def Let_def)
        then show ?thesis using plain[OF refl] by simp
      next
        case False
        let ?name = "sprintf_s (template cfg) g"
        note og = open_group_new[OF FRAG_NEW Some False, of env]
        show ?thesis
        proof (cases "?name \<in> existing st")
          case True
          then have "r = Die GroupContiguity (st\<lparr>last_group := g\<rparr>)"
            using assms(1) FRAG_NEW og by (simp add: emit_slot_def Let_def)
          then show ?thesis using assms(2) by (simp add: log_ok_def blocks_def)
        next
          case nex: False
          show ?thesis
          proof (cases "openable env ?name")
            case False
            then have "r = Die SinkError (st\<lparr>last_group := g\<rparr>)"
              using assms(1) FRAG_NEW og nex by (simp add: emit_slot_def Let_def)
            then show ?thesis using assms(2) by (simp add: log_ok_def blocks_def)
          next
            case True
            let ?st1 = "st\<lparr>last_group := g, fout := File ?name,
                        existing := insert ?name (existing st)\<rparr>"
            have r: "r = (case emitstrings st ! ?p of
                 Alloc s \<Rightarrow> Go (?st1\<lparr>written := written st @ [(File ?name, s)],
                                     emitstrings := (emitstrings st)[?p := Freed]\<rparr>)
               | Null \<Rightarrow> Die UndefinedBehaviour ?st1
               | Freed \<Rightarrow> Die UndefinedBehaviour ?st1)"
              using assms(1) FRAG_NEW og nex True
              by (auto simp add: emit_slot_def Let_def split: slot.splits)
            show ?thesis
              unfolding r using log_ok_write_new[OF assms(2) nex, where g=g] assms(2)
              by (auto split: slot.splits simp: log_ok_def blocks_def)
          qed
        qed
      qed
    qed
  qed
qed

lemma post_simps [simp]:
  "post P Q (Go st) = P st" "post P Q (Bye st) = P st" "post P Q (Die e st) = Q st"
  by (simp_all add: post_def)

lemma post_and_then:
  assumes "post P Q r" "\<And>st. r = Go st \<Longrightarrow> P st \<Longrightarrow> post P Q (f st)"
  shows "post P Q (and_then r f)"
  using assms by (cases r) auto

lemma post_drain:
  "P st \<Longrightarrow>
   (\<And>s. P s \<Longrightarrow> post P Q (emit_slot cfg env (s\<lparr>lastemitted := lastemitted s + 1\<rparr>)))
   \<Longrightarrow> post P Q (drain cfg env n st)"
proof (induction cfg env n st rule: drain.induct)
  case (1 cfg env n st)
  show ?case
  proof (cases "0 \<le> lastemitted st + 1 \<and> nat (lastemitted st + 1) < length (emitstrings st)
         \<and> emitstrings st ! nat (lastemitted st + 1) \<noteq> Null")
    case False
    then have "drain cfg env n st = Go st" using drain_stop[of st cfg env n] by simp
    then show ?thesis using "1.prems"(1) by simp
  next
    case True
    note rd = drain_round[of st cfg env n]
    note st = "1.prems"(2)[OF "1.prems"(1)]
    show ?thesis
    proof (cases "emit_slot cfg env (st\<lparr>lastemitted := lastemitted st + 1\<rparr>)")
      case (Go st')
      have p: "P st'" using st Go by simp
      show ?thesis
      proof (cases "lastemitted st' = int n - 1")
        case True
        then have "drain cfg env n st = Bye st'" using rd \<open>0 \<le> lastemitted st + 1 \<and> _\<close> Go by simp
        then show ?thesis using p by simp
      next
        case False
        then have "drain cfg env n st = drain cfg env n st'" using rd True Go by simp
        then show ?thesis using "1.IH"[OF True Go False p "1.prems"(2)] by simp
      qed
    next
      case (Bye st')
      then have "drain cfg env n st = Bye st'" using rd True by simp
      then show ?thesis using st Bye by simp
    next
      case (Die e st')
      then have "drain cfg env n st = Die e st'" using rd True by simp
      then show ?thesis using st Die by simp
    qed
  qed
qed

lemma final_drain_stop:
  "\<not> lastemitted st < int n \<Longrightarrow> final_drain cfg env n st = Go st"
  by (subst final_drain.simps) auto

lemma final_drain_skip:
  "lastemitted st < int n \<Longrightarrow>
   \<not> (0 \<le> lastemitted st \<and> nat (lastemitted st) < length (emitstrings st)
               \<and> emitstrings st ! nat (lastemitted st) \<noteq> Null)
   \<Longrightarrow> final_drain cfg env n st = final_drain cfg env n (st\<lparr>lastemitted := lastemitted st + 1\<rparr>)"
  by (subst final_drain.simps) auto

lemma final_drain_round:
  "lastemitted st < int n \<Longrightarrow>
   0 \<le> lastemitted st \<Longrightarrow> nat (lastemitted st) < length (emitstrings st)
   \<Longrightarrow> emitstrings st ! nat (lastemitted st) \<noteq> Null
   \<Longrightarrow> final_drain cfg env n st =
        (case emit_slot cfg env st of
                    Go st' \<Rightarrow> final_drain cfg env n (st'\<lparr>lastemitted := lastemitted st' + 1\<rparr>)
                  | Bye st' \<Rightarrow> Bye st'
                  | Die e st' \<Rightarrow> Die e st')"
  by (subst final_drain.simps) auto

lemma post_final_drain:
  "P st \<Longrightarrow>
   (\<And>s. P s \<Longrightarrow> P (s\<lparr>lastemitted := lastemitted s + 1\<rparr>)) \<Longrightarrow>
   (\<And>s. P s \<Longrightarrow> post P Q (emit_slot cfg env s))
   \<Longrightarrow> post P Q (final_drain cfg env n st)"
proof (induction cfg env n st rule: final_drain.induct)
  case (1 cfg env n st)
  show ?case
  proof (cases "lastemitted st < int n")
    case False
    then show ?thesis using final_drain_stop[OF False, of cfg env] "1.prems"(1) by simp
  next
    case lt: True
    show ?thesis
    proof (cases "0 \<le> lastemitted st \<and> nat (lastemitted st) < length (emitstrings st)
               \<and> emitstrings st ! nat (lastemitted st) \<noteq> Null")
      case False
      have "P (st\<lparr>lastemitted := lastemitted st + 1\<rparr>)" using "1.prems"(2)[OF "1.prems"(1)] .
      from "1.IH"(2)[OF lt False this "1.prems"(2,3)]
      show ?thesis using final_drain_skip[OF lt False, of cfg env] by simp
    next
      case True
      then have rd: "final_drain cfg env n st =
        (case emit_slot cfg env st of
                    Go st' \<Rightarrow> final_drain cfg env n (st'\<lparr>lastemitted := lastemitted st' + 1\<rparr>)
                  | Bye st' \<Rightarrow> Bye st'
                  | Die e st' \<Rightarrow> Die e st')"
        using final_drain_round[OF lt, of cfg env] by simp
      note st = "1.prems"(3)[OF "1.prems"(1)]
      show ?thesis
      proof (cases "emit_slot cfg env st")
        case (Go st')
        have "P st'" using st Go by simp
        then have "P (st'\<lparr>lastemitted := lastemitted st' + 1\<rparr>)" by (rule "1.prems"(2))
        from "1.IH"(1)[OF lt True Go this "1.prems"(2,3)]
        show ?thesis using rd Go by simp
      next
        case (Bye st')
        then show ?thesis using rd st by simp
      next
        case (Die e st')
        then show ?thesis using rd st by simp
      qed
    qed
  qed
qed

lemma post_read_lines:
  assumes "P st"
    and "\<And>l s. P s \<Longrightarrow> post P Q (line_step cfg env tab l s)"
  shows "post P Q (read_lines cfg env tab ls st)"
  using assms(1)
proof (induction ls arbitrary: st)
  case Nil
  then show ?case by simp
next
  case (Cons l ls)
  show ?case
    unfolding read_lines.simps
  proof (rule post_and_then)
    show "post P Q (line_step cfg env tab l st)" using assms(2)[OF Cons.prems] .
  next
    fix st' assume "P st'"
    then show "post P Q (read_lines cfg env tab ls st')" by (rule Cons.IH)
  qed
qed

lemma post_store_accum:
  assumes "P st"
    and "\<And>a. accumstring st = Some a \<Longrightarrow> emitstrings st ! emit_order (tab ! emitting st) = Null
            \<Longrightarrow> post P Q (drain cfg env (length tab) (stored tab a st))"
    and "Q st"
  shows "post P Q (store_accum cfg env tab st)"
  using assms by (auto simp: store_accum_unfold split: option.splits)

lemma post_weaken:
  "post P Q r \<Longrightarrow> (\<And>s. P s \<Longrightarrow> P' s) \<Longrightarrow> (\<And>s. Q s \<Longrightarrow> Q' s) \<Longrightarrow> post P' Q' r"
  by (cases r) auto

text \<open>The property of the output holds through the whole program.\<close>

lemma log_ok_blocks: "log_ok st \<Longrightarrow> blocks st"
  by (simp add: log_ok_def)

lemma drain_log_ok:
  assumes "log_ok st" "gbl_frag cfg \<noteq> FRAG_APPEND"
  shows "post log_ok blocks (drain cfg env n st)"
proof (rule post_drain[where P=log_ok and Q=blocks, OF assms(1)])
  fix s assume "log_ok s"
  then have "log_ok (s\<lparr>lastemitted := lastemitted s + 1\<rparr>)"
    using log_ok_cong[of "s\<lparr>lastemitted := lastemitted s + 1\<rparr>" s] by simp
  from emit_slot_log_ok[OF refl this assms(2)]
  show "post log_ok blocks (emit_slot cfg env (s\<lparr>lastemitted := lastemitted s + 1\<rparr>))"
    by (simp add: post_def)
qed

lemma new_entry_log_ok:
  assumes "log_ok st" "gbl_frag cfg \<noteq> FRAG_APPEND"
  shows "post log_ok blocks (new_entry cfg env tab st)"
proof -
  let ?st1 = "st\<lparr>records := records st + 1\<rparr>"
  have ok1: "log_ok ?st1" using assms(1) log_ok_cong[of ?st1 st] by simp
  have "post log_ok blocks (store_accum cfg env tab ?st1)"
  proof (rule post_store_accum[where P=log_ok and Q=blocks, OF ok1])
    fix a
    have "log_ok (stored tab a ?st1)"
      using ok1 log_ok_cong[of "stored tab a ?st1" ?st1] by (simp add: stored_def)
    then show "post log_ok blocks (drain cfg env (length tab) (stored tab a ?st1))"
      using assms(2) by (rule drain_log_ok)
  next
    show "blocks ?st1" using ok1 by (rule log_ok_blocks)
  qed
  then show ?thesis using ok1 by (auto simp: new_entry_def Let_def)
qed

lemma match_header_log_ok:
  assumes "log_ok st"
  shows "post log_ok blocks (match_header cfg tab l st)"
proof -
  note fr = match_header_frame[OF refl, of cfg tab l st]
  have "log_ok (res_state (match_header cfg tab l st))"
    using assms fr log_ok_cong[of "res_state (match_header cfg tab l st)" st] by simp
  then show ?thesis by (cases "match_header cfg tab l st") (auto simp: log_ok_blocks)
qed

lemma accumulate_log_ok:
  assumes "log_ok st"
  shows "log_ok (accumulate cfg l st)"
proof (cases "emit st \<and> gbl_reject cfg")
  case True
  then have "accumulate cfg l st = st\<lparr>written := written st @ [(fout st, l @ [CHR 0x0A])]\<rparr>"
    by (simp add: accumulate_def)
  moreover have "log_ok (st\<lparr>written := written st @ [(fout st, l @ [CHR 0x0A])], emitstrings := emitstrings st\<rparr>)"
    using assms by (rule log_ok_write_same)
  ultimately show ?thesis by simp
next
  case False
  then show ?thesis using assms log_ok_cong[of "accumulate cfg l st" st]
    by (auto simp: accumulate_def)
qed

lemma line_step_log_ok:
  assumes "log_ok st" "gbl_frag cfg \<noteq> FRAG_APPEND"
  shows "post log_ok blocks (line_step cfg env tab l st)"
proof (cases "is_header (chomp_cr l)")
  case False
  then show ?thesis using accumulate_log_ok[OF assms(1)] by (simp add: line_step_def)
next
  case True
  have "post log_ok blocks
          (and_then (and_then (new_entry cfg env tab st) (match_header cfg tab (chomp_cr l)))
             (\<lambda>st3. Go (accumulate cfg (chomp_cr l) st3)))"
  proof (rule post_and_then)
    show "post log_ok blocks (and_then (new_entry cfg env tab st) (match_header cfg tab (chomp_cr l)))"
    proof (rule post_and_then)
      show "post log_ok blocks (new_entry cfg env tab st)" using assms by (rule new_entry_log_ok)
    next
      fix s assume "log_ok s"
      then show "post log_ok blocks (match_header cfg tab (chomp_cr l) s)" by (rule match_header_log_ok)
    qed
  next
    fix s assume "log_ok s"
    then show "post log_ok blocks (Go (accumulate cfg (chomp_cr l) s))"
      by (simp add: accumulate_log_ok)
  qed
  then show ?thesis using True by (simp add: line_step_def Let_def)
qed

lemma open_out_log_ok:
  "post log_ok blocks (open_out cfg env ((init_state env n)\<lparr>stderr := w\<rparr>))"
  by (auto simp: open_out_def log_ok_def blocks_def init_state_def split: option.splits)

lemma scan_lines_log_ok:
  assumes "gbl_frag cfg \<noteq> FRAG_APPEND"
  shows "post log_ok blocks (scan_lines cfg env n tab warns ls)"
  unfolding scan_lines_def
proof (rule post_and_then)
  show "post log_ok blocks (open_out cfg env ((init_state env n)\<lparr>stderr := warns\<rparr>))"
    by (rule open_out_log_ok)
next
  fix st assume "log_ok st"
  then show "post log_ok blocks (read_lines cfg env tab ls st)"
    using line_step_log_ok[OF _ assms] by (rule post_read_lines[where P=log_ok and Q=blocks])
qed

lemma scan_log_ok:
  assumes "gbl_frag cfg \<noteq> FRAG_APPEND"
  shows "post log_ok blocks (scan cfg env n tab warns ls)"
proof (cases "cut_last cfg env ls")
  case True
  show ?thesis
    using scan_lines_log_ok[OF assms, of env n tab warns "butlast ls"] True
    unfolding scan_lines_of
    by (cases "scan_lines cfg env n tab warns (butlast ls)") (simp_all add: log_ok_blocks)
next
  case False
  then show ?thesis using scan_lines_log_ok[OF assms, of env n tab warns ls] by (simp add: scan_lines_of)
qed

lemma finish_log_ok:
  assumes "log_ok st" "gbl_frag cfg \<noteq> FRAG_APPEND"
  shows "blocks (final_state (finish cfg env tab st))"
proof -
  have "post log_ok blocks (and_then (check_found cfg tab st)
             (\<lambda>st1. let st2 = store_last tab st1 in
                    final_drain cfg env (length tab) (st2\<lparr>lastemitted := lastemitted st2 + 1\<rparr>)))"
  proof (rule post_and_then)
    show "post log_ok blocks (check_found cfg tab st)"
      using assms(1) log_ok_cong[of "st\<lparr>stderr := stderr st @ report_misses cfg tab st\<rparr>" st]
      by (auto simp: check_found_def Let_def log_ok_def blocks_def)
  next
    fix s assume s: "log_ok s"
    let ?s2 = "store_last tab s"
    have "log_ok ?s2" using s log_ok_cong[of ?s2 s] by (auto simp: store_last_def split: option.splits)
    then have "log_ok (?s2\<lparr>lastemitted := lastemitted ?s2 + 1\<rparr>)"
      using log_ok_cong[of "?s2\<lparr>lastemitted := lastemitted ?s2 + 1\<rparr>" ?s2] by simp
    then have "post log_ok blocks (final_drain cfg env (length tab) (?s2\<lparr>lastemitted := lastemitted ?s2 + 1\<rparr>))"
    proof (rule post_final_drain[where P=log_ok and Q=blocks])
      fix s' assume "log_ok s'"
      then show "log_ok (s'\<lparr>lastemitted := lastemitted s' + 1\<rparr>)"
        using log_ok_cong[of "s'\<lparr>lastemitted := lastemitted s' + 1\<rparr>" s'] by simp
    next
      fix s' assume "log_ok s'"
      from emit_slot_log_ok[OF refl this assms(2)]
      show "post log_ok blocks (emit_slot cfg env s')" by (simp add: post_def)
    qed
    then show "post log_ok blocks (let st2 = store_last tab s in
                    final_drain cfg env (length tab) (st2\<lparr>lastemitted := lastemitted st2 + 1\<rparr>))"
      by (simp add: Let_def)
  qed
  then show ?thesis
    unfolding finish_def
    by (cases "and_then (check_found cfg tab st)
             (\<lambda>st1. let st2 = store_last tab st1 in
                    final_drain cfg env (length tab) (st2\<lparr>lastemitted := lastemitted st2 + 1\<rparr>))")
       (auto simp: log_ok_blocks)
qed

lemma main_blocks:
  assumes "gbl_frag cfg \<noteq> FRAG_APPEND"
  shows "blocks (final_state (main cfg env sel input))"
proof -
  have i: "blocks (init_state env n)" "blocks ((init_state env n)\<lparr>stderr := w\<rparr>)" for n w
    by (simp_all add: blocks_def init_state_def)
  show ?thesis
  proof (cases "length (get_entries cfg sel) = 0")
    case True
    then show ?thesis using i by (simp add: main_def)
  next
    case ne: False
    show ?thesis
    proof (cases "select_table cfg sel")
      case (Inl e)
      then show ?thesis using ne i by (simp add: main_def Let_def)
    next
      case (Inr tw)
      obtain tab warns where tw: "tw = (tab, warns)" by (cases tw)
      show ?thesis
      proof (cases input)
        case None
        then show ?thesis using ne i Inr tw by (simp add: main_def Let_def)
      next
        case (Some ls)
        note sc = scan_log_ok[OF assms, of env "length (get_entries cfg sel)" tab warns ls]
        show ?thesis
        proof (cases "scan cfg env (length (get_entries cfg sel)) tab warns ls")
          case (Go st)
          then have "log_ok st" using sc by simp
          then show ?thesis using finish_log_ok[OF _ assms, of st env tab] ne Inr tw Some Go
            by (simp add: main_def Let_def)
        next
          case (Bye st)
          then have "log_ok st" using sc by simp
          then show ?thesis using ne Inr tw Some Bye by (simp add: main_def Let_def log_ok_blocks)
        next
          case (Die e st)
          then have "blocks st" using sc by simp
          then show ?thesis using ne Inr tw Some Die by (simp add: main_def Let_def)
        qed
      qed
    qed
  qed
qed

text \<open>
  C9. With \<^verbatim>\<open>-fragc\<close>, in front of every write: when the group of the position differs
  from the group written last, the open file is left and the file of the new group is
  opened, which is fatal when that file exists and when it cannot be opened; when the
  group is the same, nothing changes. Every file that the run has written to exists, at
  every state between two lines, and storing a record, moving to the next position and
  writing a position keep it so. Hence coming back to a group that was written and left
  is fatal, and in the output of every run, however it ends, the writes to one file are
  one block.
\<close>

theorem exclusive_groups:
  assumes "gbl_frag cfg = FRAG_NEW"
  shows "(emitgroups st ! p = Some g \<and> g \<noteq> last_group st
            \<longrightarrow> open_group cfg env p st =
                  (if sprintf_s (template cfg) g \<in> existing st
                   then Die GroupContiguity (st\<lparr>last_group := g\<rparr>)
                   else if openable env (sprintf_s (template cfg) g)
                   then Go (st\<lparr>last_group := g, fout := File (sprintf_s (template cfg) g),
                               existing := insert (sprintf_s (template cfg) g) (existing st)\<rparr>)
                   else Die SinkError (st\<lparr>last_group := g\<rparr>)))
       \<and> (emitgroups st ! p = Some g \<and> g = last_group st \<longrightarrow> open_group cfg env p st = Go st)
       \<and> (log_ok st \<and> emitgroups st ! p = Some g \<and> g \<noteq> last_group st
            \<and> File (sprintf_s (template cfg) g) \<in> fst ` set (written st)
            \<longrightarrow> open_group cfg env p st = Die GroupContiguity (st\<lparr>last_group := g\<rparr>))
       \<and> ((scan cfg env n tab warns pre = Go st \<or> scan cfg env n tab warns pre = Bye st)
            \<longrightarrow> log_ok st)
       \<and> (log_ok st
            \<longrightarrow> log_ok (stored tab a st) \<and> log_ok (store_last tab st)
              \<and> log_ok (st\<lparr>lastemitted := k\<rparr>)
              \<and> (emit_slot cfg env st = Go st' \<longrightarrow> log_ok st'))
       \<and> blocks (final_state (main cfg env sel input))"
proof -
  have na: "gbl_frag cfg \<noteq> FRAG_APPEND" using assms by simp
  have 1: "emitgroups st ! p = Some g \<and> g \<noteq> last_group st
            \<longrightarrow> open_group cfg env p st =
                  (if sprintf_s (template cfg) g \<in> existing st
                   then Die GroupContiguity (st\<lparr>last_group := g\<rparr>)
                   else if openable env (sprintf_s (template cfg) g)
                   then Go (st\<lparr>last_group := g, fout := File (sprintf_s (template cfg) g),
                               existing := insert (sprintf_s (template cfg) g) (existing st)\<rparr>)
                   else Die SinkError (st\<lparr>last_group := g\<rparr>))"
    using open_group_new[OF assms, of st p g env] by blast
  have 2: "emitgroups st ! p = Some g \<and> g = last_group st \<longrightarrow> open_group cfg env p st = Go st"
    using open_group_same[of st p g cfg env] by blast
  have 3: "log_ok st \<and> emitgroups st ! p = Some g \<and> g \<noteq> last_group st
            \<and> File (sprintf_s (template cfg) g) \<in> fst ` set (written st)
            \<longrightarrow> open_group cfg env p st = Die GroupContiguity (st\<lparr>last_group := g\<rparr>)"
  proof
    assume a: "log_ok st \<and> emitgroups st ! p = Some g \<and> g \<noteq> last_group st
            \<and> File (sprintf_s (template cfg) g) \<in> fst ` set (written st)"
    then obtain x where x: "x \<in> set (written st)" "fst x = File (sprintf_s (template cfg) g)"
      by auto
    have "\<forall>k\<in>set (map fst (written st)). sink_known st k"
      using a unfolding log_ok_def list_all_iff by blast
    then have "sink_known st (fst x)" using x(1) by simp
    then have "sink_known st (File (sprintf_s (template cfg) g))" using x(2) by simp
    then have "sprintf_s (template cfg) g \<in> existing st" by simp
    then show "open_group cfg env p st = Die GroupContiguity (st\<lparr>last_group := g\<rparr>)"
      using a 1 by simp
  qed
  have 4: "(scan cfg env n tab warns pre = Go st \<or> scan cfg env n tab warns pre = Bye st)
            \<longrightarrow> log_ok st"
    using scan_log_ok[OF na, of env n tab warns pre] by auto
  have 5: "log_ok st
            \<longrightarrow> log_ok (stored tab a st) \<and> log_ok (store_last tab st)
              \<and> log_ok (st\<lparr>lastemitted := k\<rparr>)
              \<and> (emit_slot cfg env st = Go st' \<longrightarrow> log_ok st')"
  proof
    assume ok: "log_ok st"
    have "log_ok (stored tab a st)"
      using ok log_ok_cong[of "stored tab a st" st] by (simp add: stored_def)
    moreover have "log_ok (store_last tab st)"
      using ok log_ok_cong[of "store_last tab st" st]
      by (auto simp: store_last_def split: option.splits)
    moreover have "log_ok (st\<lparr>lastemitted := k\<rparr>)"
      using ok log_ok_cong[of "st\<lparr>lastemitted := k\<rparr>" st] by simp
    moreover have "emit_slot cfg env st = Go st' \<longrightarrow> log_ok st'"
      using emit_slot_log_ok[OF _ ok na, of env "Go st'"] by auto
    ultimately show "log_ok (stored tab a st) \<and> log_ok (store_last tab st)
              \<and> log_ok (st\<lparr>lastemitted := k\<rparr>)
              \<and> (emit_slot cfg env st = Go st' \<longrightarrow> log_ok st')" by blast
  qed
  have 6: "blocks (final_state (main cfg env sel input))"
    using na by (rule main_blocks)
  show ?thesis using 1 2 3 4 5 6 by blast
qed

text \<open>
  Scenario B: the selectors A, B, C with the groups g1, g2, g1 against the entries A, B, C.
  A is written to the file of g1 and B to the file of g2; the write of C, in the loop
  after the last line, comes back to g1 and ends the run.
\<close>

theorem exclusive_groups_witness:
  "open_group scenario_B_config plain_env 2 scenario_B_state
     = Die GroupContiguity (scenario_B_state\<lparr>last_group := ''g1''\<rparr>)
   \<and> map fst (written scenario_B_state) = [File ''out_g1.fa'', File ''out_g2.fa'']
   \<and> main scenario_B_config plain_env [''A g1'', ''B g2'', ''C g1'']
        (Some [''>A'', ''a'', ''>B'', ''b'', ''>C'', ''c''])
     = EXIT_FAILURE GroupContiguity (scenario_B_state\<lparr>last_group := ''g1''\<rparr>)"
proof -
  have f: "gbl_frag scenario_B_config = FRAG_NEW"
    by (simp add: scenario_B_config_def default_config_def)
  have a: "log_ok scenario_B_state" by code_simp
  have b: "emitgroups scenario_B_state ! 2 = Some ''g1''" by code_simp
  have c: "''g1'' \<noteq> last_group scenario_B_state" by code_simp
  have d: "File (sprintf_s (template scenario_B_config) ''g1'') \<in> fst ` set (written scenario_B_state)"
    by code_simp
  have w: "map fst (written scenario_B_state) = [File ''out_g1.fa'', File ''out_g2.fa'']"
    by code_simp
  have m: "main scenario_B_config plain_env [''A g1'', ''B g2'', ''C g1'']
        (Some [''>A'', ''a'', ''>B'', ''b'', ''>C'', ''c''])
     = EXIT_FAILURE GroupContiguity (scenario_B_state\<lparr>last_group := ''g1''\<rparr>)"
    by code_simp
  note reopen = exclusive_groups [OF f, where st = scenario_B_state and p = 2
      and g = "''g1''" and env = plain_env, THEN conjunct2, THEN conjunct2, THEN conjunct1]
  have "open_group scenario_B_config plain_env 2 scenario_B_state
     = Die GroupContiguity (scenario_B_state\<lparr>last_group := ''g1''\<rparr>)"
    using reopen a b c d by blast
  then show ?thesis using w m by simp
qed

subsection \<open>A name that comes twice\<close>

lemma outcome_simps [simp]:
  "outcome G B D (Go st) = G st" "outcome G B D (Bye st) = B st" "outcome G B D (Die e st) = D e st"
  by (simp_all add: outcome_def)

lemma outcome_and_then:
  assumes "outcome G' B D r" "\<And>st. r = Go st \<Longrightarrow> G' st \<Longrightarrow> outcome G B D (f st)"
  shows "outcome G B D (and_then r f)"
  using assms by (cases r) auto

lemma outcome_weaken:
  "outcome G B D r \<Longrightarrow> (\<And>s. G s \<Longrightarrow> G' s) \<Longrightarrow> (\<And>s. B s \<Longrightarrow> B' s)
   \<Longrightarrow> (\<And>e s. D e s \<Longrightarrow> D' e s) \<Longrightarrow> outcome G' B' D' r"
  by (cases r) auto

lemma records_of_snoc: "records_of cfg (ls @ [l]) = add_line cfg (records_of cfg ls) l"
  by (simp add: records_of_def)

lemma add_line_keys_body:
  "\<not> is_header (chomp_cr l) \<Longrightarrow> map fst (add_line cfg rs l) = map fst rs"
  by (cases rs rule: rev_cases) (auto simp: add_line_def Let_def)

lemma add_line_keys_header:
  "is_header (chomp_cr l) \<Longrightarrow> map fst (add_line cfg rs l) = map fst rs @ [header_key cfg (chomp_cr l)]"
  by (auto simp: add_line_def Let_def)

lemma match_header_seen:
  assumes "seen_ok tab rs st" "\<not> gbl_reject cfg"
    "sorted (map header_name tab)" "distinct (map header_name tab)"
    "is_header (chomp_cr l)"
  shows "outcome (seen_ok tab (add_line cfg rs l)) (\<lambda>s. False) (\<lambda>e s. True)
           (match_header cfg tab (chomp_cr l) st)"
proof -
  let ?k = "header_key cfg (chomp_cr l)"
  have keys: "fst ` set (add_line cfg rs l) = insert ?k (fst ` set rs)"
    using add_line_keys_header[OF assms(5), of cfg rs] by (metis list.set_map set_append list.set(1,2) Un_insert_right sup_bot.right_neutral)
  show ?thesis
  proof (cases "bin_search ?k (map header_name tab)")
    case None
    then have "?k \<notin> set (map header_name tab)" using bin_search_None assms(3) by blast
    then have "\<forall>i<length tab. header_name (tab ! i) \<noteq> ?k"
      by (metis length_map nth_map nth_mem)
    then have "seen_ok tab (add_line cfg rs l) (st\<lparr>emit := False\<rparr>)"
      using assms(1) keys by (auto simp: seen_ok_def)
    then show ?thesis using None assms(2) by (simp add: match_header_def Let_def)
  next
    case (Some m)
    then have m: "m < length tab" "header_name (tab ! m) = ?k"
      using bin_search_Some[OF Some] by auto
    show ?thesis
    proof (cases "emitlist st ! m")
      case True
      then show ?thesis using Some assms(2) by (simp add: match_header_def Let_def)
    next
      case False
      have uniq: "\<forall>i<length tab. header_name (tab ! i) = ?k \<longleftrightarrow> i = m"
        using m assms(4) by (metis distinct_conv_nth length_map nth_map)
      have "seen_ok tab (add_line cfg rs l) (s\<lparr>emitlist := (emitlist st)[m := True]\<rparr>)"
        if "emitlist s = emitlist st" for s
        using assms(1) keys m uniq that
        by (auto simp: seen_ok_def nth_list_update)
      then have *: "seen_ok tab (add_line cfg rs l) s"
        if "emitlist s = (emitlist st)[m := True]" for s
        using that assms(1) keys m uniq by (auto simp: seen_ok_def nth_list_update)
      show ?thesis
        using Some assms(2) False *
        by (auto simp: match_header_def Let_def split: option.splits)
    qed
  qed
qed

lemma seen_ok_cong: "emitlist st' = emitlist st \<Longrightarrow> seen_ok tab rs st' = seen_ok tab rs st"
  by (simp add: seen_ok_def)

lemma line_step_seen:
  assumes "seen_ok tab rs st" "\<not> gbl_reject cfg"
    "sorted (map header_name tab)" "distinct (map header_name tab)"
  shows "outcome (seen_ok tab (add_line cfg rs l)) (\<lambda>s. True) (\<lambda>e s. True)
           (line_step cfg env tab l st)"
proof (cases "is_header (chomp_cr l)")
  case False
  have "fst ` set (add_line cfg rs l) = fst ` set rs"
    using add_line_keys_body[OF False, of cfg rs] by (metis list.set_map)
  then have "seen_ok tab (add_line cfg rs l) (accumulate cfg (chomp_cr l) st)"
    using assms(1) by (simp add: seen_ok_def accumulate_frame)
  then show ?thesis using False by (simp add: line_step_def)
next
  case True
  have "outcome (seen_ok tab (add_line cfg rs l)) (\<lambda>s. True) (\<lambda>e s. True)
          (and_then (and_then (new_entry cfg env tab st) (match_header cfg tab (chomp_cr l)))
             (\<lambda>st3. Go (accumulate cfg (chomp_cr l) st3)))"
  proof (rule outcome_and_then[where G'="seen_ok tab (add_line cfg rs l)"])
    show "outcome (seen_ok tab (add_line cfg rs l)) (\<lambda>s. True) (\<lambda>e s. True)
            (and_then (new_entry cfg env tab st) (match_header cfg tab (chomp_cr l)))"
    proof (rule outcome_and_then[where G'="seen_ok tab rs"])
      have "seen_ok tab rs (res_state (new_entry cfg env tab st))"
        using assms(1) new_entry_frame[OF refl, of cfg env tab st]
          seen_ok_cong[of "res_state (new_entry cfg env tab st)" st] by simp
      then show "outcome (seen_ok tab rs) (\<lambda>s. True) (\<lambda>e s. True) (new_entry cfg env tab st)"
        by (cases "new_entry cfg env tab st") auto
    next
      fix s assume "seen_ok tab rs s"
      from match_header_seen[OF this assms(2,3,4) True]
      show "outcome (seen_ok tab (add_line cfg rs l)) (\<lambda>s. True) (\<lambda>e s. True)
              (match_header cfg tab (chomp_cr l) s)"
        by (rule outcome_weaken) auto
    qed
  next
    fix s assume "seen_ok tab (add_line cfg rs l) s"
    then show "outcome (seen_ok tab (add_line cfg rs l)) (\<lambda>s. True) (\<lambda>e s. True)
                 (Go (accumulate cfg (chomp_cr l) s))"
      using seen_ok_cong[of "accumulate cfg (chomp_cr l) s" s] by (simp add: accumulate_frame)
  qed
  then show ?thesis using True by (simp add: line_step_def Let_def)
qed

lemma scan_lines_seen:
  assumes "\<not> gbl_reject cfg" "sorted (map header_name tab)" "distinct (map header_name tab)"
    "length tab \<le> n"
  shows "outcome (seen_ok tab (records_of cfg ls)) (\<lambda>s. True) (\<lambda>e s. True)
           (scan_lines cfg env n tab warns ls)"
proof (induction ls rule: rev_induct)
  case Nil
  have "seen_ok tab [] (res_state (open_out cfg env ((init_state env n)\<lparr>stderr := warns\<rparr>)))"
    using open_out_frame[OF refl, of cfg env "(init_state env n)\<lparr>stderr := warns\<rparr>"] assms(4)
    by (simp add: seen_ok_def init_state_def)
  then show ?case
    by (cases "open_out cfg env ((init_state env n)\<lparr>stderr := warns\<rparr>)")
       (auto simp: scan_lines_def records_of_def)
next
  case (snoc l ls)
  show ?case
    unfolding scan_lines_snoc records_of_snoc
  proof (rule outcome_and_then[where G'="seen_ok tab (records_of cfg ls)"])
    show "outcome (seen_ok tab (records_of cfg ls)) (\<lambda>s. True) (\<lambda>e s. True)
            (scan_lines cfg env n tab warns ls)" by (rule snoc.IH)
  next
    fix s assume "seen_ok tab (records_of cfg ls) s"
    then show "outcome (seen_ok tab (add_line cfg (records_of cfg ls) l)) (\<lambda>s. True) (\<lambda>e s. True)
                 (line_step cfg env tab l s)"
      using assms(1,2,3) by (rule line_step_seen)
  qed
qed

lemma scan_lines_duplicate:
  assumes "\<not> gbl_reject cfg"
    and "select_table cfg sel = Inr (tab, warns)" and "get_entries cfg sel \<noteq> []"
    and "is_header (chomp_cr h)"
    and "header_key cfg (chomp_cr h) \<in> header_name ` set tab"
    and "header_key cfg (chomp_cr h) \<in> fst ` set (records_of cfg pre)"
  shows "(scan_lines cfg env (length (get_entries cfg sel)) tab warns pre = Go st
            \<and> new_entry cfg env tab st = Go st2
          \<longrightarrow> scan_lines cfg env (length (get_entries cfg sel)) tab warns (pre @ h # rest)
                = Die DuplicateMatch
                    (st2\<lparr>emit := False,
                         emitting := the (bin_search (header_key cfg (chomp_cr h))
                                             (map header_name tab))\<rparr>))
       \<and> scan_lines cfg env (length (get_entries cfg sel)) tab warns (pre @ h # rest) \<noteq> Go st'"
proof -
  let ?n = "length (get_entries cfg sel)"
  let ?k = "header_key cfg (chomp_cr h)"
  note good = select_table_good[OF assms(2,3)]
  have srt: "sorted (map header_name tab)" and dst: "distinct (map header_name tab)"
    and len: "length tab \<le> ?n" using good by simp_all
  obtain m where bs: "bin_search ?k (map header_name tab) = Some m"
    using bin_search_None[OF _ srt, of ?k] assms(5)
    by (cases "bin_search ?k (map header_name tab)") auto
  then have m: "m < length tab" "header_name (tab ! m) = ?k"
    using bin_search_Some[OF bs] by auto
  have split: "scan_lines cfg env ?n tab warns (pre @ h # rest)
      = and_then (and_then (scan_lines cfg env ?n tab warns pre) (line_step cfg env tab h))
                 (read_lines cfg env tab rest)"
    using scan_lines_append[of cfg env ?n tab warns "pre @ [h]" rest]
      scan_lines_snoc[of cfg env ?n tab warns pre h]
    by simp
  have step: "line_step cfg env tab h s =
        (case new_entry cfg env tab s of
           Go s2 \<Rightarrow> Die DuplicateMatch (s2\<lparr>emit := False, emitting := m\<rparr>)
         | Bye s2 \<Rightarrow> Bye s2 | Die e s2 \<Rightarrow> Die e s2)"
    if s: "seen_ok tab (records_of cfg pre) s" for s
  proof (cases "new_entry cfg env tab s")
    case (Go s2)
    have "emitlist s2 = emitlist s" using new_entry_frame[OF Go] by simp
    then have "emitlist s2 ! m" using s m assms(6) by (simp add: seen_ok_def)
    then have "match_header cfg tab (chomp_cr h) s2 = Die DuplicateMatch (s2\<lparr>emit := False, emitting := m\<rparr>)"
      using bs assms(1) by (simp add: match_header_def Let_def)
    then show ?thesis using Go assms(4) by (simp add: line_step_def Let_def)
  next
    case (Bye s2)
    then show ?thesis using assms(4) by (simp add: line_step_def Let_def)
  next
    case (Die e s2)
    then show ?thesis using assms(4) by (simp add: line_step_def Let_def)
  qed
  note seen = scan_lines_seen[OF assms(1) srt dst len, where ls=pre and env=env and warns=warns]
  have 1: "scan_lines cfg env ?n tab warns pre = Go st \<and> new_entry cfg env tab st = Go st2
          \<longrightarrow> scan_lines cfg env ?n tab warns (pre @ h # rest)
                = Die DuplicateMatch (st2\<lparr>emit := False, emitting := the (bin_search ?k (map header_name tab))\<rparr>)"
  proof
    assume a: "scan_lines cfg env ?n tab warns pre = Go st \<and> new_entry cfg env tab st = Go st2"
    then have "seen_ok tab (records_of cfg pre) st" using seen by simp
    from step[OF this] a
    have "scan_lines cfg env ?n tab warns (pre @ h # rest)
                = Die DuplicateMatch (st2\<lparr>emit := False, emitting := m\<rparr>)"
      by (simp add: split)
    then show "scan_lines cfg env ?n tab warns (pre @ h # rest)
                = Die DuplicateMatch (st2\<lparr>emit := False, emitting := the (bin_search ?k (map header_name tab))\<rparr>)"
      using bs by simp
  qed
  have 2: "scan_lines cfg env ?n tab warns (pre @ h # rest) \<noteq> Go st'"
  proof (cases "scan_lines cfg env ?n tab warns pre")
    case (Go s)
    then have "seen_ok tab (records_of cfg pre) s" using seen by simp
    from step[OF this] Go show ?thesis
      by (cases "new_entry cfg env tab s") (simp_all add: split)
  next
    case (Bye s)
    then show ?thesis by (simp add: split)
  next
    case (Die e s)
    then show ?thesis by (simp add: split)
  qed
  show ?thesis using 1 2 by blast
qed

text \<open>
  With \<^verbatim>\<open>-reject\<close> the rows are never marked, so a lookup cannot find a marked row there.
\<close>

lemma match_header_reject:
  assumes "gbl_reject cfg" "match_header cfg tab l st = r"
  shows "emitlist (res_state r) = emitlist st"
  using assms by (auto simp: match_header_def Let_def split: if_splits)

lemma line_step_reject:
  assumes "gbl_reject cfg" "line_step cfg env tab l st = r"
  shows "emitlist (res_state r) = emitlist st"
proof (cases "is_header (chomp_cr l)")
  case False
  then show ?thesis using assms(2) by (auto simp: line_step_def Let_def accumulate_frame)
next
  case True
  show ?thesis
  proof (cases "new_entry cfg env tab st")
    case (Go s1)
    have e1: "emitlist s1 = emitlist st" using new_entry_frame[OF Go] by simp
    show ?thesis
    proof (cases "match_header cfg tab (chomp_cr l) s1")
      case g2: (Go s2)
      have "emitlist s2 = emitlist s1" using match_header_reject[OF assms(1) g2] by simp
      then show ?thesis using assms(2) True Go g2 e1
        by (auto simp: line_step_def Let_def accumulate_frame)
    next
      case b2: (Bye s2)
      have "emitlist s2 = emitlist s1" using match_header_reject[OF assms(1) b2] by simp
      then show ?thesis using assms(2) True Go b2 e1 by (auto simp: line_step_def Let_def)
    next
      case d2: (Die e s2)
      have "emitlist s2 = emitlist s1" using match_header_reject[OF assms(1) d2] by simp
      then show ?thesis using assms(2) True Go d2 e1 by (auto simp: line_step_def Let_def)
    qed
  next
    case (Bye s1)
    then show ?thesis using assms(2) True new_entry_frame[OF Bye] by (auto simp: line_step_def Let_def)
  next
    case (Die e s1)
    then show ?thesis using assms(2) True new_entry_frame[OF Die] by (auto simp: line_step_def Let_def)
  qed
qed

lemma read_lines_reject:
  assumes "gbl_reject cfg"
  shows "read_lines cfg env tab ls st = r \<Longrightarrow> emitlist (res_state r) = emitlist st"
proof (induction ls arbitrary: st)
  case Nil
  then show ?case by auto
next
  case (Cons l ls)
  show ?case
  proof (cases "line_step cfg env tab l st")
    case (Go s1)
    then have "read_lines cfg env tab ls s1 = r" using Cons.prems by simp
    then show ?thesis using Cons.IH line_step_reject[OF assms Go] by simp
  next
    case (Bye s1)
    then show ?thesis using Cons.prems line_step_reject[OF assms Bye] by auto
  next
    case (Die e s1)
    then show ?thesis using Cons.prems line_step_reject[OF assms Die] by auto
  qed
qed

lemma reject_marks_nothing:
  assumes "gbl_reject cfg"
  shows "emitlist (res_state (scan_lines cfg env n tab warns ls)) = replicate n False"
proof (cases "open_out cfg env ((init_state env n)\<lparr>stderr := warns\<rparr>)")
  case (Go s0)
  have "emitlist s0 = replicate n False" using open_out_frame[OF Go] by (simp add: init_state_def)
  then show ?thesis
    using read_lines_reject[OF assms, of env tab ls s0] Go by (simp add: scan_lines_def)
next
  case (Bye s0)
  then show ?thesis using open_out_frame[OF Bye] by simp
next
  case (Die e s0)
  then show ?thesis using open_out_frame[OF Die] by (simp add: scan_lines_def init_state_def)
qed

text \<open>
  C7. The rows are marked in select mode only. There, with any setting of the other
  options: let a header carry the name
  of a selector that an earlier entry of the file carried already, and let \<open>st\<close> be the
  state in which the reading loop is when the lines in front of this header have been
  read. When the first part of the loop body at this header, the storing of the record
  before it and the eager loop, goes on, the lookup finds the row marked and the run ends
  at once with the fatal error "duplicate entry name in FASTA file". The header is looked
  up unless it is a last line without line terminator at which the reading loop ends the
  run before. In no case does the reading get beyond this header.
\<close>

theorem duplicate_match_fatal:
  assumes "\<not> gbl_reject cfg"
    and "select_table cfg sel = Inr (tab, warns)" and "get_entries cfg sel \<noteq> []"
    and "is_header (chomp_cr h)"
    and "header_key cfg (chomp_cr h) \<in> header_name ` set tab"
    and "header_key cfg (chomp_cr h) \<in> fst ` set (records_of cfg pre)"
  shows "(scan_lines cfg env (length (get_entries cfg sel)) tab warns pre = Go st
            \<and> new_entry cfg env tab st = Go st2
            \<and> \<not> (rest = [] \<and> cut_last cfg env (pre @ [h]))
          \<longrightarrow> scan cfg env (length (get_entries cfg sel)) tab warns (pre @ h # rest)
                = Die DuplicateMatch
                    (st2\<lparr>emit := False,
                         emitting := the (bin_search (header_key cfg (chomp_cr h))
                                             (map header_name tab))\<rparr>)
            \<and> main cfg env sel (Some (pre @ h # rest))
                = EXIT_FAILURE DuplicateMatch
                    (st2\<lparr>emit := False,
                         emitting := the (bin_search (header_key cfg (chomp_cr h))
                                             (map header_name tab))\<rparr>))
       \<and> scan cfg env (length (get_entries cfg sel)) tab warns (pre @ h # rest) \<noteq> Go st'"
proof -
  let ?n = "length (get_entries cfg sel)"
  let ?d = "st2\<lparr>emit := False,
                 emitting := the (bin_search (header_key cfg (chomp_cr h)) (map header_name tab))\<rparr>"
  note dup = scan_lines_duplicate[OF assms, of env]
  have 1: "scan_lines cfg env ?n tab warns pre = Go st \<and> new_entry cfg env tab st = Go st2
            \<and> \<not> (rest = [] \<and> cut_last cfg env (pre @ [h]))
          \<longrightarrow> scan cfg env ?n tab warns (pre @ h # rest) = Die DuplicateMatch ?d
            \<and> main cfg env sel (Some (pre @ h # rest)) = EXIT_FAILURE DuplicateMatch ?d"
  proof
    assume a: "scan_lines cfg env ?n tab warns pre = Go st \<and> new_entry cfg env tab st = Go st2
            \<and> \<not> (rest = [] \<and> cut_last cfg env (pre @ [h]))"
    have all: "scan_lines cfg env ?n tab warns (pre @ h # r) = Die DuplicateMatch ?d" for r
      using dup[of st st2 r] a by blast
    have "scan cfg env ?n tab warns (pre @ h # rest) = Die DuplicateMatch ?d"
    proof (cases "cut_last cfg env (pre @ h # rest)")
      case True
      then have ne: "rest \<noteq> []" using a by auto
      then have "butlast (pre @ h # rest) = pre @ h # butlast rest" by (simp add: butlast_append)
      then show ?thesis
        unfolding scan_lines_of[of cfg env ?n tab warns "pre @ h # rest"]
        using True all[of "butlast rest"] by simp
    next
      case False
      then show ?thesis using all[of rest] by (simp add: scan_plain)
    qed
    then show "scan cfg env ?n tab warns (pre @ h # rest) = Die DuplicateMatch ?d
            \<and> main cfg env sel (Some (pre @ h # rest)) = EXIT_FAILURE DuplicateMatch ?d"
      by (simp add: main_unfold[OF assms(2,3)])
  qed
  have 2: "scan cfg env ?n tab warns (pre @ h # rest) \<noteq> Go st'"
    using scan_Go(1)[of cfg env ?n tab warns "pre @ h # rest" st'] dup[of st st2 rest st'] by blast
  show ?thesis using 1 2 by blast
qed

theorem duplicate_match_fatal_witness:
  "\<exists>st. main file_config cut_env [''A'', ''B''] (Some [''>A'', ''a'', ''>A'', ''b''])
          = EXIT_FAILURE DuplicateMatch st"
proof -
  let ?tab = "[Entry ''A'' None 0, Entry ''B'' None 1]"
  let ?st = "res_state (scan_lines file_config cut_env 2 ?tab [] [''>A'', ''a''])"
  let ?st2 = "res_state (new_entry file_config cut_env ?tab ?st)"
  have r: "\<not> gbl_reject file_config" by code_simp
  have t: "select_table file_config [''A'', ''B''] = Inr (?tab, [])" by code_simp
  have g: "get_entries file_config [''A'', ''B''] \<noteq> []" by code_simp
  have n: "length (get_entries file_config [''A'', ''B'']) = 2" by code_simp
  have h: "is_header (chomp_cr ''>A'')" by code_simp
  have k: "header_key file_config (chomp_cr ''>A'') \<in> header_name ` set ?tab" by code_simp
  have s: "header_key file_config (chomp_cr ''>A'')
             \<in> fst ` set (records_of file_config [''>A'', ''a''])" by code_simp
  have a: "scan_lines file_config cut_env 2 ?tab [] [''>A'', ''a''] = Go ?st" by code_simp
  have b: "new_entry file_config cut_env ?tab ?st = Go ?st2" by code_simp
  from duplicate_match_fatal [OF r t g h k s, of cut_env ?st ?st2 "[''b'']"] a b n
  show ?thesis by auto
qed

text \<open>
  A header that is never looked up: the selector A alone against two entries A. At the
  second header the record of the first one is written, which is the last position, and
  the program jumps to \<^verbatim>\<open>bye\<close> and ends with success, as the help text says.
\<close>

theorem duplicate_after_last_selector:
  "succeeded (main default_config plain_env [''A''] (Some [''>A'', ''a'', ''>A'', ''b'']))
   \<and> map fst (records_of default_config [''>A'', ''a'', ''>A'', ''b'']) = [''A'', ''A'']
   \<and> get_entries default_config [''A''] = [(''A'', None)]"
  by code_simp

subsection \<open>The run of a selection list without duplicates\<close>



lemma table_of_select:
  assumes d: "distinct (map fst (get_entries cfg sel))" and ne: "get_entries cfg sel \<noteq> []"
  shows "select_table cfg sel = Inr (sort_entries (number_entries (get_entries cfg sel)), [])
       \<and> table_of (get_entries cfg sel) (sort_entries (number_entries (get_entries cfg sel)))"
proof -
  define raw where "raw = get_entries cfg sel"
  define srt where "srt = sort_entries (number_entries raw)"
  have P: "length srt = length raw" "mset srt = mset (number_entries raw)"
    "sorted (map header_name srt)"
    using sort_entries_props[of "number_entries raw"] by (simp_all add: srt_def)
  have names: "mset (map header_name srt) = mset (map fst raw)"
    using P(2) number_entries_names[of raw] by (metis mset_map)
  have dn: "distinct (map header_name srt)"
    using names d unfolding raw_def[symmetric] by (metis mset_eq_imp_distinct_iff)
  have "srt \<noteq> []" using P(1) ne by (auto simp: raw_def)
  then obtain e0 es where s: "srt = e0 # es" by (cases srt) auto
  have nodrop: "dropped_names (header_name e0) es = []"
    using dn s by (intro dropped_names_distinct) auto
  have sel: "select_table cfg sel = Inr (srt, [])"
    unfolding select_table_def remove_dups_def raw_def[symmetric] srt_def[symmetric] s
    using nodrop by (cases "gbl_cod cfg") (simp_all add: dups_loop_cod dups_loop_nocod keep_rows_all)
  have setn: "set (map header_name srt) = fst ` set raw"
    using names by (metis set_mset_mset list.set_map)
  have "set srt = set (number_entries raw)" using P(2) by (metis set_mset_mset)
  then have rows: "\<forall>i < length raw. emit_order (srt ! i) < length raw
            \<and> raw ! emit_order (srt ! i) = (header_name (srt ! i), group_name (srt ! i))"
    using number_entries_row[of _ raw] P(1) by (metis nth_mem)
  have "table_of raw srt"
    unfolding table_of_def using ne P dn setn rows d by (simp add: raw_def)
  then show ?thesis using sel unfolding raw_def srt_def by simp
qed

lemma map_of_snoc:
  "map_of (xs @ [(k, v)]) k' =
     (case map_of xs k' of Some y \<Rightarrow> Some y | None \<Rightarrow> if k' = k then Some v else None)"
  by (simp add: map_add_def split: option.splits)

lemma raw_key_inj:
  assumes "distinct (map fst raw)" "p < length raw" "q < length raw" "fst (raw ! p) = fst (raw ! q)"
  shows "p = q"
  using assms by (metis distinct_conv_nth length_map nth_map)

lemma table_row:
  assumes "table_of raw tab" "i < length raw"
  shows "emit_order (tab ! i) < length raw" "fst (raw ! emit_order (tab ! i)) = header_name (tab ! i)"
    "snd (raw ! emit_order (tab ! i)) = group_name (tab ! i)"
  using assms by (auto simp: table_of_def)

lemma once_snoc:
  "once raw (rs @ [r]) \<longleftrightarrow>
     once raw rs \<and> (fst r \<in> fst ` set raw \<longrightarrow> fst r \<notin> fst ` set rs)"
  by (auto simp: once_def)

lemma once_butlast_fresh:
  assumes "once raw rs" "rs \<noteq> []" "fst (last rs) \<in> fst ` set raw"
  shows "fst (last rs) \<notin> fst ` set (butlast rs)"
proof -
  obtain b l where rs: "rs = b @ [l]" using assms(2) by (metis append_butlast_last_id)
  then show ?thesis using assms(1,3) by (simp add: once_snoc)
qed

text \<open>Closing the record that is accumulated.\<close>

lemma want_close_matched:
  assumes "once raw rs" "rs \<noteq> []" "fst (last rs) \<in> fst ` set raw"
    "distinct (map fst raw)" "p < length raw"
  shows "want rs raw p =
          (if fst (raw ! p) = fst (last rs) then Some (snd (last rs)) else want (butlast rs) raw p)"
proof -
  have rs: "rs = butlast rs @ [(fst (last rs), snd (last rs))]" using assms(2) by simp
  have fresh: "map_of (butlast rs) (fst (last rs)) = None"
    using once_butlast_fresh[OF assms(1,2,3)] by (simp add: map_of_eq_None_iff)
  show ?thesis
    unfolding want_def
    by (subst rs, subst map_of_snoc) (auto simp: fresh split: option.splits)
qed

lemma want_close_unmatched:
  assumes "rs = [] \<or> fst (last rs) \<notin> fst ` set raw" "p < length raw"
  shows "want rs raw p = want (butlast rs) raw p"
proof (cases "rs = []")
  case True
  then show ?thesis by simp
next
  case False
  then have rs: "rs = butlast rs @ [(fst (last rs), snd (last rs))]" by simp
  have "fst (raw ! p) \<noteq> fst (last rs)" using assms False by (metis image_eqI nth_mem)
  then show ?thesis
    unfolding want_def
    by (subst rs, subst map_of_snoc) (auto split: option.splits)
qed

lemma core_close_unmatched:
  assumes "core raw (butlast rs) st" "rs = [] \<or> fst (last rs) \<notin> fst ` set raw"
  shows "core raw rs st"
proof -
  have w: "\<forall>p < length raw. want rs raw p = want (butlast rs) raw p"
    using want_close_unmatched[OF assms(2)] by simp
  have le: "lastemitted st < int (length raw)" "- 1 \<le> lastemitted st"
    using assms(1) by (simp_all add: core_def)
  have w2: "\<forall>p. int p \<le> lastemitted st \<longrightarrow> want rs raw p = want (butlast rs) raw p"
    using w le by auto
  have "map (\<lambda>p. the (want rs raw p)) [0 ..< nat (lastemitted st + 1)]
        = map (\<lambda>p. the (want (butlast rs) raw p)) [0 ..< nat (lastemitted st + 1)]"
    using w2 by (intro map_cong) auto
  then show ?thesis using assms(1) w w2 unfolding core_def by auto
qed

lemma core_store:
  assumes c: "core raw (butlast rs) st" and o: "open_rec raw tab rs st"
    and t: "table_of raw tab" and d: "once raw rs" and a: "accumstring st = Some a"
  shows "emitstrings st ! emit_order (tab ! emitting st) = Null \<and> core raw rs (stored tab a st)"
proof -
  have m: "rs \<noteq> []" "fst (last rs) \<in> fst ` set raw" "a = snd (last rs)"
    "emitting st < length raw" "header_name (tab ! emitting st) = fst (last rs)"
    using o a unfolding open_rec_def by (auto split: if_splits)
  let ?q = "emit_order (tab ! emitting st)"
  have q: "?q < length raw" "fst (raw ! ?q) = fst (last rs)"
    using table_row[OF t m(4)] m(5) by simp_all
  have dr: "distinct (map fst raw)" using t by (simp add: table_of_def)
  have w: "\<forall>p < length raw. want rs raw p = (if p = ?q then Some a else want (butlast rs) raw p)"
  proof (intro allI impI)
    fix p assume p: "p < length raw"
    have "fst (raw ! p) = fst (last rs) \<longleftrightarrow> p = ?q"
      using raw_key_inj[OF dr p q(1)] q(2) by auto
    then show "want rs raw p = (if p = ?q then Some a else want (butlast rs) raw p)"
      using want_close_matched[OF d m(1,2) dr p] m(3) by simp
  qed
  have wq: "want (butlast rs) raw ?q = None"
    using once_butlast_fresh[OF d m(1,2)] q(2) by (simp add: want_def map_of_eq_None_iff)
  have above: "lastemitted st < int ?q"
    using c wq unfolding core_def by (meson not_le_imp_less)
  have null: "emitstrings st ! ?q = Null"
    using c q(1) above wq unfolding core_def by simp
  have le: "lastemitted st < int (length raw)" "- 1 \<le> lastemitted st"
    using c by (simp_all add: core_def)
  have w2: "\<forall>p. int p \<le> lastemitted st \<longrightarrow> want rs raw p = want (butlast rs) raw p"
    using w le above by auto
  have wr: "map (\<lambda>p. the (want rs raw p)) [0 ..< nat (lastemitted st + 1)]
        = map (\<lambda>p. the (want (butlast rs) raw p)) [0 ..< nat (lastemitted st + 1)]"
    using w2 by (intro map_cong) auto
  have len: "length (emitstrings st) = length raw" using c by (simp add: core_def)
  have slots: "\<forall>p < length raw. (emitstrings st)[?q := Alloc a] ! p =
            (if int p \<le> lastemitted st then Freed else slot_for (want rs raw p))"
  proof (intro allI impI)
    fix p assume p: "p < length raw"
    show "(emitstrings st)[?q := Alloc a] ! p =
            (if int p \<le> lastemitted st then Freed else slot_for (want rs raw p))"
    proof (cases "p = ?q")
      case True
      then show ?thesis using above w p len by simp
    next
      case False
      then show ?thesis using c w p unfolding core_def by simp
    qed
  qed
  have "core raw rs (stored tab a st)"
    unfolding core_def stored_def using c slots wr w2 by (simp add: core_def)
  then show ?thesis using null by simp
qed

lemma emit_slot_outcome:
  assumes a: "emitstrings st ! nat (lastemitted st) = Alloc pl"
    and g: "gbl_frag cfg \<noteq> FRAG_NONE \<longrightarrow> emitgroups st ! nat (lastemitted st) \<noteq> None"
  shows "outcome
           (\<lambda>st'. lastemitted st' = lastemitted st \<and> emitlist st' = emitlist st
                 \<and> emitgroups st' = emitgroups st \<and> accumstring st' = accumstring st
                 \<and> emitting st' = emitting st \<and> emit st' = emit st \<and> records st' = records st
                 \<and> emitted st' = emitted st \<and> stderr st' = stderr st
                 \<and> emitstrings st' = (emitstrings st)[nat (lastemitted st) := Freed]
                 \<and> map snd (written st') = map snd (written st) @ [pl])
           (\<lambda>s. False)
           (\<lambda>e s. frag_error cfg e \<and> stderr s = stderr st)
           (emit_slot cfg env st)"
proof (cases "emit_slot cfg env st")
  case (Go st')
  from emit_slot_Go_frame[OF Go] a show ?thesis unfolding Go by auto
next
  case (Bye st')
  then show ?thesis
    by (auto simp: emit_slot_def Let_def and_then_Bye_iff open_group_def
             split: if_splits option.splits frag.splits slot.splits)
next
  case (Die e st')
  then show ?thesis using a g
    by (auto simp: emit_slot_def Let_def and_then_Die_iff open_group_def frag_error_def
             split: if_splits option.splits frag.splits slot.splits)
qed

lemma outcome_drain:
  "P st \<Longrightarrow>
   (\<And>s. P s \<Longrightarrow> 0 \<le> lastemitted s + 1 \<Longrightarrow> nat (lastemitted s + 1) < length (emitstrings s)
        \<Longrightarrow> emitstrings s ! nat (lastemitted s + 1) \<noteq> Null
        \<Longrightarrow> outcome P P D (emit_slot cfg env (s\<lparr>lastemitted := lastemitted s + 1\<rparr>)))
   \<Longrightarrow> outcome P P D (drain cfg env n st)"
proof (induction cfg env n st rule: drain.induct)
  case (1 cfg env n st)
  show ?case
  proof (cases "0 \<le> lastemitted st + 1 \<and> nat (lastemitted st + 1) < length (emitstrings st)
         \<and> emitstrings st ! nat (lastemitted st + 1) \<noteq> Null")
    case False
    then have "drain cfg env n st = Go st" using drain_stop[of st cfg env n] by simp
    then show ?thesis using "1.prems"(1) by simp
  next
    case True
    note rd = drain_round[of st cfg env n]
    have st: "outcome P P D (emit_slot cfg env (st\<lparr>lastemitted := lastemitted st + 1\<rparr>))"
      using "1.prems"(2)[OF "1.prems"(1)] True by blast
    show ?thesis
    proof (cases "emit_slot cfg env (st\<lparr>lastemitted := lastemitted st + 1\<rparr>)")
      case (Go st')
      have p: "P st'" using st Go by simp
      show ?thesis
      proof (cases "lastemitted st' = int n - 1")
        case True
        then have "drain cfg env n st = Bye st'" using rd \<open>0 \<le> lastemitted st + 1 \<and> _\<close> Go by simp
        then show ?thesis using p by simp
      next
        case False
        then have "drain cfg env n st = drain cfg env n st'" using rd True Go by simp
        then show ?thesis using "1.IH"[OF True Go False p "1.prems"(2)] by simp
      qed
    next
      case (Bye st')
      then have "drain cfg env n st = Bye st'" using rd True by simp
      then show ?thesis using st Bye by simp
    next
      case (Die e st')
      then have "drain cfg env n st = Die e st'" using rd True by simp
      then show ?thesis using st Die by simp
    qed
  qed
qed

lemma core_round:
  assumes m: "mid cfg raw closed st0 s"
    and c: "0 \<le> lastemitted s + 1" "nat (lastemitted s + 1) < length (emitstrings s)"
           "emitstrings s ! nat (lastemitted s + 1) \<noteq> Null"
  shows "outcome (mid cfg raw closed st0) (mid cfg raw closed st0)
           (\<lambda>e s'. frag_error cfg e \<and> stderr s' = stderr st0)
           (emit_slot cfg env (s\<lparr>lastemitted := lastemitted s + 1\<rparr>))"
proof -
  let ?p = "nat (lastemitted s + 1)"
  let ?s1 = "s\<lparr>lastemitted := lastemitted s + 1\<rparr>"
  have co: "core raw closed s" and gs: "groups_set cfg raw closed s" using m by (simp_all add: mid_def)
  have len: "length (emitstrings s) = length raw" using co by (simp add: core_def)
  have p: "?p < length raw" using c(2) len by simp
  have ple: "\<not> int ?p \<le> lastemitted s" using c(1) by linarith
  have slot: "emitstrings s ! ?p = slot_for (want closed raw ?p)"
    using co p ple unfolding core_def by simp
  then obtain pl where pl: "want closed raw ?p = Some pl" "emitstrings s ! ?p = Alloc pl"
    using c(3) by (cases "want closed raw ?p") auto
  have a: "emitstrings ?s1 ! nat (lastemitted ?s1) = Alloc pl" using pl by simp
  have g: "gbl_frag cfg \<noteq> FRAG_NONE \<longrightarrow> emitgroups ?s1 ! nat (lastemitted ?s1) \<noteq> None"
    using gs p pl unfolding groups_set_def by simp
  have step: "mid cfg raw closed st0 st'"
    if f: "lastemitted st' = lastemitted ?s1 \<and> emitlist st' = emitlist ?s1
                 \<and> emitgroups st' = emitgroups ?s1 \<and> accumstring st' = accumstring ?s1
                 \<and> emitting st' = emitting ?s1 \<and> emit st' = emit ?s1 \<and> records st' = records ?s1
                 \<and> emitted st' = emitted ?s1 \<and> stderr st' = stderr ?s1
                 \<and> emitstrings st' = (emitstrings ?s1)[nat (lastemitted ?s1) := Freed]
                 \<and> map snd (written st') = map snd (written ?s1) @ [pl]" for st'
  proof -
    have le': "lastemitted st' = lastemitted s + 1" using f by simp
    have es: "emitstrings st' = (emitstrings s)[?p := Freed]" using f by simp
    have n1: "nat (lastemitted s + 1 + 1) = Suc ?p" using c(1) by linarith
    have slots: "\<forall>q < length raw. emitstrings st' ! q =
            (if int q \<le> lastemitted st' then Freed else slot_for (want closed raw q))"
    proof (intro allI impI)
      fix q assume q: "q < length raw"
      show "emitstrings st' ! q =
            (if int q \<le> lastemitted st' then Freed else slot_for (want closed raw q))"
      proof (cases "q = ?p")
        case True
        then show ?thesis using es le' len p c(1) by simp
      next
        case False
        then have "int q \<le> lastemitted s + 1 \<longleftrightarrow> int q \<le> lastemitted s" using c(1) by linarith
        then show ?thesis using False es le' co q unfolding core_def by simp
      qed
    qed
    have wr: "map snd (written st') = map (\<lambda>p. the (want closed raw p)) [0 ..< nat (lastemitted st' + 1)]"
      using f co pl n1 unfolding core_def by simp
    have fl: "\<forall>q. int q \<le> lastemitted st' \<longrightarrow> want closed raw q \<noteq> None"
    proof (intro allI impI)
      fix q assume "int q \<le> lastemitted st'"
      then have "q = ?p \<or> int q \<le> lastemitted s" using le' c(1) by linarith
      then show "want closed raw q \<noteq> None" using pl co unfolding core_def by auto
    qed
    have "core raw closed st'"
      unfolding core_def using co slots wr fl le' es f p by (simp add: core_def)
    moreover have "groups_set cfg raw closed st'"
      using gs f by (simp add: groups_set_def)
    ultimately show ?thesis using m f by (simp add: mid_def)
  qed
  have st0: "stderr s = stderr st0" using m by (simp add: mid_def)
  show ?thesis
    using emit_slot_outcome[OF a g, of env] step st0
    by (cases "emit_slot cfg env ?s1") auto
qed

lemma drain_core:
  assumes "mid cfg raw closed st0 st"
  shows "outcome (mid cfg raw closed st0) (mid cfg raw closed st0)
           (\<lambda>e s'. frag_error cfg e \<and> stderr s' = stderr st0)
           (drain cfg env n st)"
  using assms
  by (rule outcome_drain[where P="mid cfg raw closed st0"]) (rule core_round)

lemma core_cong:
  "emitstrings st' = emitstrings st \<Longrightarrow> emitlist st' = emitlist st \<Longrightarrow> emitgroups st' = emitgroups st
   \<Longrightarrow> lastemitted st' = lastemitted st \<Longrightarrow> written st' = written st
   \<Longrightarrow> core raw closed st' = core raw closed st"
  by (simp add: core_def)

lemma flags_cong:
  "emitlist st' = emitlist st \<Longrightarrow> emitgroups st' = emitgroups st \<Longrightarrow> emitted st' = emitted st
   \<Longrightarrow> flags cfg raw tab rs st' = flags cfg raw tab rs st"
  by (simp add: flags_def)

lemma flags_groups_set:
  assumes "flags cfg raw tab rs st" "set closed \<subseteq> set rs"
  shows "groups_set cfg raw closed st"
proof -
  have "fst (raw ! p) \<in> fst ` set rs" if "want closed raw p \<noteq> None" for p
  proof -
    from that obtain v where "map_of closed (fst (raw ! p)) = Some v" by (auto simp: want_def)
    then have "(fst (raw ! p), v) \<in> set closed" by (rule map_of_SomeD)
    then show ?thesis using assms(2) by force
  qed
  then show ?thesis using assms(1) unfolding flags_def groups_set_def by blast
qed

lemma new_entry_core:
  assumes i: "inv_sel cfg raw tab rs st" and t: "table_of raw tab" and r: "\<not> gbl_reject cfg"
  shows "outcome
           (\<lambda>s. after_store cfg raw tab rs s \<and> lastemitted s < int (length raw) - 1
                \<and> stderr s = stderr st \<and> records s = records st + 1)
           (\<lambda>s. core raw rs s \<and> lastemitted s = int (length raw) - 1 \<and> stderr s = stderr st)
           (\<lambda>e s. frag_error cfg e \<and> stderr s = stderr st)
           (new_entry cfg env tab st)"
proof -
  let ?st1 = "st\<lparr>records := records st + 1\<rparr>"
  have on: "once raw rs" and co: "core raw (butlast rs) ?st1" and fl: "flags cfg raw tab rs ?st1"
    and op: "open_rec raw tab rs ?st1" and cu: "lastemitted ?st1 < int (length tab) - 1"
    using i t by (simp_all add: inv_sel_def core_def flags_def open_rec_def table_of_def)
  have len: "length tab = length raw" using t by (simp add: table_of_def)
  show ?thesis
  proof (cases "accumstring st")
    case None
    then have ne: "new_entry cfg env tab st = Go ?st1" by (simp add: new_entry_def)
    have "rs = [] \<or> fst (last rs) \<notin> fst ` set raw"
      using op None unfolding open_rec_def by (auto split: if_splits)
    then have "core raw rs ?st1" using core_close_unmatched[OF co] by simp
    then show ?thesis using ne on fl None cu len by (simp add: after_store_def)
  next
    case (Some a)
    then have a: "accumstring ?st1 = Some a" by simp
    from core_store[OF co op t on a]
    have null: "emitstrings ?st1 ! emit_order (tab ! emitting ?st1) = Null"
      and cs: "core raw rs (stored tab a ?st1)" by simp_all
    have ne: "new_entry cfg env tab st = drain cfg env (length tab) (stored tab a ?st1)"
      using Some r null by (simp add: new_entry_def store_accum_unfold)
    have fs: "flags cfg raw tab rs (stored tab a ?st1)"
      using fl flags_cong[of "stored tab a ?st1" ?st1] by (simp add: stored_def)
    have m: "mid cfg raw rs (stored tab a ?st1) (stored tab a ?st1)"
      using cs flags_groups_set[OF fs, of rs] by (simp add: mid_def)
    note d = drain_core[OF m, of env "length tab"]
    have cur: "lastemitted (stored tab a ?st1) < int (length tab) - 1"
      using cu by (simp add: stored_def)
    note dc = drain_cursor[OF refl cur, of cfg env]
    have conv: "after_store cfg raw tab rs s \<and> stderr s = stderr st \<and> records s = records st + 1
                \<and> core raw rs s"
      if "mid cfg raw rs (stored tab a ?st1) s" for s
    proof -
      have "flags cfg raw tab rs s"
        using that fs flags_cong[of s "stored tab a ?st1"] by (simp add: mid_def)
      then show ?thesis using that on by (simp add: mid_def after_store_def stored_def)
    qed
    have se: "stderr (stored tab a ?st1) = stderr st" by (simp add: stored_def)
    show ?thesis
    proof (cases "drain cfg env (length tab) (stored tab a ?st1)")
      case (Go s)
      then have "mid cfg raw rs (stored tab a ?st1) s" using d by simp
      from conv[OF this]
      have "after_store cfg raw tab rs s \<and> stderr s = stderr st \<and> records s = records st + 1" by simp
      moreover have "lastemitted s < int (length raw) - 1" using dc Go len by simp
      ultimately show ?thesis unfolding ne Go by simp
    next
      case (Bye s)
      then have "mid cfg raw rs (stored tab a ?st1) s" using d by simp
      from conv[OF this]
      have "core raw rs s \<and> stderr s = stderr st" by simp
      moreover have "lastemitted s = int (length raw) - 1" using dc Bye len by simp
      ultimately show ?thesis unfolding ne Bye by simp
    next
      case (Die e s)
      then have "frag_error cfg e \<and> stderr s = stderr (stored tab a ?st1)" using d by simp
      then show ?thesis unfolding ne Die using se by simp
    qed
  qed
qed

lemma match_header_fresh:
  assumes "bin_search (header_key cfg line) (map header_name tab) = Some m"
    "\<not> gbl_reject cfg" "\<not> emitlist s ! m"
  shows "match_header cfg tab line s =
          (if gbl_frag cfg \<noteq> FRAG_NONE
              \<and> (group_name (tab ! m) = None \<or> group_name (tab ! m) = Some [])
           then Die MissingGroup (s\<lparr>emit := False, emitting := m,
                                    emitlist := (emitlist s)[m := True]\<rparr>)
           else Go (s\<lparr>emit := True, emitting := m, emitlist := (emitlist s)[m := True],
                      emitgroups := (if gbl_frag cfg \<noteq> FRAG_NONE
                                     then (emitgroups s)[emit_order (tab ! m) := group_name (tab ! m)]
                                     else emitgroups s),
                      accumstring := None, emitted := emitted s + 1\<rparr>))"
  using assms by (auto simp: match_header_def Let_def split: option.splits)

lemma match_header_seen_twice:
  assumes "bin_search (header_key cfg line) (map header_name tab) = Some m"
    "\<not> gbl_reject cfg" "emitlist s ! m"
  shows "match_header cfg tab line s = Die DuplicateMatch (s\<lparr>emit := False, emitting := m\<rparr>)"
  using assms by (simp add: match_header_def Let_def)

lemma match_header_miss:
  assumes "bin_search (header_key cfg line) (map header_name tab) = None" "\<not> gbl_reject cfg"
  shows "match_header cfg tab line s = Go (s\<lparr>emit := False\<rparr>)"
  using assms by (simp add: match_header_def Let_def)

lemma header_core:
  assumes a: "after_store cfg raw tab rs s" and t: "table_of raw tab" and r: "\<not> gbl_reject cfg"
    and h: "is_header (chomp_cr l)" and cu: "lastemitted s < int (length raw) - 1"
  shows "outcome (\<lambda>s'. inv_sel cfg raw tab (add_line cfg rs l) s' \<and> stderr s' = stderr s
                      \<and> records s' = records s)
           (\<lambda>s'. False)
           (\<lambda>e s'. (frag_error cfg e \<or> (e = DuplicateMatch \<and> \<not> once raw (add_line cfg rs l)))
                    \<and> stderr s' = stderr s)
           (and_then (match_header cfg tab (chomp_cr l) s)
                     (\<lambda>s3. Go (accumulate cfg (chomp_cr l) s3)))"
proof -
  let ?line = "chomp_cr l"
  let ?k = "header_key cfg ?line"
  let ?pl = "?line @ [CHR 0x0A]"
  let ?rs' = "rs @ [(?k, ?pl)]"
  let ?n = "length raw"
  have rs': "add_line cfg rs l = ?rs'" using h by (simp add: add_line_def Let_def)
  have on: "once raw rs" and co: "core raw rs s" and fl: "flags cfg raw tab rs s"
    and acc: "accumstring s = None"
    using a by (simp_all add: after_store_def)
  have srt: "sorted (map header_name tab)" and dn: "distinct (map header_name tab)"
    and names: "set (map header_name tab) = fst ` set raw" and len: "length tab = ?n"
    and dr: "distinct (map fst raw)"
    using t by (simp_all add: table_of_def)
  have keys': "fst ` set ?rs' = insert ?k (fst ` set rs)" by auto
  show ?thesis
  proof (cases "bin_search ?k (map header_name tab)")
    case None
    then have nk: "?k \<notin> fst ` set raw" using bin_search_None[OF None srt] names by simp
    have mh: "match_header cfg tab ?line s = Go (s\<lparr>emit := False\<rparr>)"
      using match_header_miss[OF None r] .
    let ?sF = "accumulate cfg ?line (s\<lparr>emit := False\<rparr>)"
    have sF: "?sF = s\<lparr>emit := False\<rparr>" by (simp add: accumulate_def)
    have o': "once raw ?rs'" using on nk by (simp add: once_snoc)
    have c': "core raw (butlast ?rs') ?sF"
      using co core_cong[of ?sF s] by (simp add: sF)
    have "\<forall>i < ?n. header_name (tab ! i) \<noteq> ?k"
      using nk names len by (metis length_map nth_map nth_mem)
    then have m': "\<forall>i < ?n. emitlist s ! i \<longleftrightarrow> header_name (tab ! i) \<in> fst ` set ?rs'"
      using fl unfolding flags_def keys' by auto
    have e': "emitted s = length (filter (\<lambda>k. k \<in> fst ` set raw) (map fst ?rs'))"
      using fl nk unfolding flags_def by simp
    have g': "gbl_frag cfg \<noteq> FRAG_NONE \<longrightarrow>
           (\<forall>p < ?n. fst (raw ! p) \<in> fst ` set ?rs' \<longrightarrow> emitgroups s ! p \<noteq> None)"
    proof (intro impI allI)
      fix p assume f: "gbl_frag cfg \<noteq> FRAG_NONE" and p: "p < ?n" and i: "fst (raw ! p) \<in> fst ` set ?rs'"
      have "fst (raw ! p) \<noteq> ?k" using nk p by (metis image_eqI nth_mem)
      then have "fst (raw ! p) \<in> fst ` set rs" using i unfolding keys' by simp
      then show "emitgroups s ! p \<noteq> None" using fl f p unfolding flags_def by blast
    qed
    have f': "flags cfg raw tab ?rs' ?sF"
      unfolding flags_def sF using m' e' g' by simp
    have op': "open_rec raw tab ?rs' ?sF"
      unfolding open_rec_def sF using nk acc by simp
    have "inv_sel cfg raw tab ?rs' ?sF"
      unfolding inv_sel_def using o' c' f' op' cu by (simp add: sF)
    then show ?thesis unfolding rs' mh by (simp add: sF)
  next
    case (Some m)
    have m: "m < ?n" "header_name (tab ! m) = ?k"
      using bin_search_Some[OF Some] len by auto
    have kin: "?k \<in> fst ` set raw" using m names len by (metis length_map nth_map nth_mem)
    have uniq: "\<forall>i < ?n. header_name (tab ! i) = ?k \<longleftrightarrow> i = m"
      using m dn len by (metis distinct_conv_nth length_map nth_map)
    show ?thesis
    proof (cases "emitlist s ! m")
      case True
      then have "?k \<in> fst ` set rs" using fl m unfolding flags_def by auto
      then have "\<not> once raw ?rs'" using kin by (simp add: once_snoc)
      then show ?thesis
        unfolding rs' match_header_seen_twice[OF Some r True] by simp
    next
      case False
      then have fresh: "?k \<notin> fst ` set rs" using fl m unfolding flags_def by auto
      have o': "once raw ?rs'" using on fresh by (simp add: once_snoc)
      note mh = match_header_fresh[OF Some r False]
      show ?thesis
      proof (cases "gbl_frag cfg \<noteq> FRAG_NONE
              \<and> (group_name (tab ! m) = None \<or> group_name (tab ! m) = Some [])")
        case True
        then show ?thesis unfolding rs' mh by (simp add: frag_error_def)
      next
        case ok: False
        let ?q = "emit_order (tab ! m)"
        let ?eg = "if gbl_frag cfg \<noteq> FRAG_NONE
                   then (emitgroups s)[?q := group_name (tab ! m)] else emitgroups s"
        let ?s3 = "s\<lparr>emit := True, emitting := m, emitlist := (emitlist s)[m := True],
                      emitgroups := ?eg, accumstring := None, emitted := emitted s + 1\<rparr>"
        let ?sF = "?s3\<lparr>accumstring := Some ?pl\<rparr>"
        have acc3: "accumulate cfg ?line ?s3 = ?sF" using r by (simp add: accumulate_def)
        have q: "?q < ?n" "fst (raw ! ?q) = ?k"
          using table_row[OF t m(1)] m(2) by simp_all
        have lens: "length (emitlist s) = ?n" "length (emitgroups s) = ?n"
          using co by (simp_all add: core_def)
        have c': "core raw (butlast ?rs') ?sF"
          using co unfolding core_def by simp
        have m': "\<forall>i < ?n. (emitlist s)[m := True] ! i \<longleftrightarrow> header_name (tab ! i) \<in> fst ` set ?rs'"
        proof (intro allI impI)
          fix i assume i: "i < ?n"
          show "(emitlist s)[m := True] ! i \<longleftrightarrow> header_name (tab ! i) \<in> fst ` set ?rs'"
          proof (cases "i = m")
            case True
            then show ?thesis using m lens unfolding keys' by simp
          next
            case False
            then have "header_name (tab ! i) \<noteq> ?k" using uniq i by simp
            then show ?thesis using False fl i unfolding flags_def keys' by simp
          qed
        qed
        have e': "emitted s + 1 = length (filter (\<lambda>k. k \<in> fst ` set raw) (map fst ?rs'))"
          using fl kin unfolding flags_def by simp
        have g': "gbl_frag cfg \<noteq> FRAG_NONE \<longrightarrow>
           (\<forall>p < ?n. fst (raw ! p) \<in> fst ` set ?rs' \<longrightarrow> ?eg ! p \<noteq> None)"
        proof (intro impI allI)
          fix p assume f: "gbl_frag cfg \<noteq> FRAG_NONE" and p: "p < ?n"
            and i: "fst (raw ! p) \<in> fst ` set ?rs'"
          have gn: "group_name (tab ! m) \<noteq> None" using ok f by simp
          show "?eg ! p \<noteq> None"
          proof (cases "p = ?q")
            case True
            then show ?thesis using f gn q lens by simp
          next
            case False
            then have "fst (raw ! p) \<noteq> ?k" using raw_key_inj[OF dr p q(1)] q(2) by auto
            then have "fst (raw ! p) \<in> fst ` set rs" using i unfolding keys' by simp
            then have "emitgroups s ! p \<noteq> None" using fl f p unfolding flags_def by blast
            then show ?thesis using False f by simp
          qed
        qed
        have f': "flags cfg raw tab ?rs' ?sF"
          unfolding flags_def using m' e' g' by simp
        have op': "open_rec raw tab ?rs' ?sF"
          unfolding open_rec_def using kin m by simp
        have "inv_sel cfg raw tab ?rs' ?sF"
          unfolding inv_sel_def using o' c' f' op' cu by simp
        moreover have "match_header cfg tab ?line s = Go ?s3" using mh ok by simp
        ultimately show ?thesis unfolding rs' using acc3 by simp
      qed
    qed
  qed
qed

lemma once_keys: "map fst rs' = map fst rs \<Longrightarrow> once raw rs' = once raw rs"
  by (simp add: once_def)

lemma once_add_line: "once raw (add_line cfg rs l) \<Longrightarrow> once raw rs"
proof (cases "is_header (chomp_cr l)")
  case True
  assume "once raw (add_line cfg rs l)"
  then show ?thesis using True by (simp add: add_line_def Let_def once_snoc)
next
  case False
  assume "once raw (add_line cfg rs l)"
  then show ?thesis using once_keys[OF add_line_keys_body[OF False, of cfg rs]] by simp
qed

lemma add_line_body:
  assumes "\<not> is_header (chomp_cr l)" "rs \<noteq> []"
  shows "add_line cfg rs l = butlast rs @ [(fst (last rs), snd (last rs) @ chomp_cr l @ [CHR 0x0A])]"
  using assms by (simp add: add_line_def Let_def)

lemma accumulate_written: "\<not> gbl_reject cfg \<Longrightarrow> written (accumulate cfg l st) = written st"
  by (simp add: accumulate_def)

lemma body_core:
  assumes i: "inv_sel cfg raw tab rs st" and r: "\<not> gbl_reject cfg"
    and h: "\<not> is_header (chomp_cr l)"
  shows "inv_sel cfg raw tab (add_line cfg rs l) (accumulate cfg (chomp_cr l) st)"
proof (cases "rs = []")
  case True
  then have "add_line cfg rs l = []" using h by (simp add: add_line_def Let_def)
  moreover have "accumulate cfg (chomp_cr l) st = st"
    using i True by (simp add: inv_sel_def open_rec_def accumulate_def)
  ultimately show ?thesis using i True by simp
next
  case False
  let ?line = "chomp_cr l"
  let ?rs' = "butlast rs @ [(fst (last rs), snd (last rs) @ ?line @ [CHR 0x0A])]"
  let ?sF = "accumulate cfg ?line st"
  have rs': "add_line cfg rs l = ?rs'" using add_line_body[OF h False] .
  have keys: "map fst ?rs' = map fst rs"
    using add_line_keys_body[OF h, of cfg rs] rs' by simp
  have kset: "fst ` set ?rs' = fst ` set rs" using keys by (metis list.set_map)
  have o': "once raw ?rs'" using i once_keys[OF keys] by (simp add: inv_sel_def)
  have c': "core raw (butlast ?rs') ?sF"
    using i core_cong[of ?sF st] r by (simp add: inv_sel_def accumulate_frame accumulate_written)
  have "flags cfg raw tab rs ?sF"
    using i flags_cong[of ?sF st] by (simp add: inv_sel_def accumulate_frame)
  then have f': "flags cfg raw tab ?rs' ?sF"
    unfolding flags_def kset keys by simp
  have op: "open_rec raw tab rs st" using i by (simp add: inv_sel_def)
  have op': "open_rec raw tab ?rs' ?sF"
  proof (cases "fst (last rs) \<in> fst ` set raw")
    case True
    then have "emit st" "accumstring st = Some (snd (last rs))" "emitting st < length raw"
      "header_name (tab ! emitting st) = fst (last rs)"
      using op False unfolding open_rec_def by simp_all
    then show ?thesis using True r unfolding open_rec_def by (simp add: accumulate_def)
  next
    case nm: False
    then have "\<not> emit st" "accumstring st = None"
      using op unfolding open_rec_def by simp_all
    then show ?thesis using nm unfolding open_rec_def by (simp add: accumulate_def)
  qed
  have "lastemitted ?sF < int (length raw) - 1"
    using i by (simp add: inv_sel_def accumulate_frame)
  then show ?thesis unfolding rs' inv_sel_def using o' c' f' op' by simp
qed

lemma all_written_add_line:
  assumes "all_written raw rs st"
  shows "all_written raw (add_line cfg rs l) st"
proof (cases "is_header (chomp_cr l)")
  case False
  have ne: "rs \<noteq> []" using assms by (simp add: all_written_def)
  show ?thesis using assms unfolding add_line_body[OF False ne] all_written_def by simp
next
  case True
  have ne: "rs \<noteq> []" using assms by (simp add: all_written_def)
  let ?x = "(header_key cfg (chomp_cr l), chomp_cr l @ [CHR 0x0A])"
  have rs': "add_line cfg rs l = rs @ [?x]" using True by (simp add: add_line_def Let_def)
  obtain b x where rs: "rs = b @ [x]" using ne by (metis append_butlast_last_id)
  have w: "want rs raw p = want (butlast rs) raw p" if "p < length raw" for p
  proof -
    from that obtain v where v: "want b raw p = Some v"
      using assms unfolding all_written_def rs by auto
    have "map_of (b @ [(fst x, snd x)]) (fst (raw ! p)) = Some v"
      using v unfolding want_def by (subst map_of_snoc) simp
    then show ?thesis using v unfolding want_def rs by simp
  qed
  have "map (\<lambda>p. the (want rs raw p)) [0 ..< length raw]
        = map (\<lambda>p. the (want (butlast rs) raw p)) [0 ..< length raw]"
    using w by (intro map_cong) auto
  then show ?thesis using assms w unfolding rs' all_written_def by simp
qed

lemma line_step_inv:
  assumes i: "inv_sel cfg raw tab rs st" and t: "table_of raw tab" and r: "\<not> gbl_reject cfg"
  shows "outcome
           (\<lambda>s. inv_sel cfg raw tab (add_line cfg rs l) s \<and> stderr s = stderr st)
           (\<lambda>s. all_written raw (add_line cfg rs l) s \<and> stderr s = stderr st)
           (\<lambda>e s. (frag_error cfg e \<or> (e = DuplicateMatch \<and> \<not> once raw (add_line cfg rs l)))
                   \<and> stderr s = stderr st)
           (line_step cfg env tab l st)"
proof (cases "is_header (chomp_cr l)")
  case False
  then show ?thesis
    using body_core[OF i r False] by (simp add: line_step_def accumulate_frame)
next
  case True
  let ?rs' = "add_line cfg rs l"
  have rs': "?rs' = rs @ [(header_key cfg (chomp_cr l), chomp_cr l @ [CHR 0x0A])]"
    using True by (simp add: add_line_def Let_def)
  have ls: "line_step cfg env tab l st =
      and_then (new_entry cfg env tab st)
        (\<lambda>s. and_then (match_header cfg tab (chomp_cr l) s)
                       (\<lambda>s3. Go (accumulate cfg (chomp_cr l) s3)))"
    using True by (simp add: line_step_def Let_def and_then_assoc)
  show ?thesis
    unfolding ls
  proof (rule outcome_and_then[where G'="\<lambda>s. after_store cfg raw tab rs s
                \<and> lastemitted s < int (length raw) - 1 \<and> stderr s = stderr st
                \<and> records s = records st + 1"])
    show "outcome
           (\<lambda>s. after_store cfg raw tab rs s \<and> lastemitted s < int (length raw) - 1
                \<and> stderr s = stderr st \<and> records s = records st + 1)
           (\<lambda>s. all_written raw ?rs' s \<and> stderr s = stderr st)
           (\<lambda>e s. (frag_error cfg e \<or> (e = DuplicateMatch \<and> \<not> once raw ?rs'))
                   \<and> stderr s = stderr st)
           (new_entry cfg env tab st)"
    proof (rule outcome_weaken[OF new_entry_core[OF i t r]])
      fix s assume "core raw rs s \<and> lastemitted s = int (length raw) - 1 \<and> stderr s = stderr st"
      then show "all_written raw ?rs' s \<and> stderr s = stderr st"
        unfolding rs' all_written_def core_def by simp
    qed auto
  next
    fix s
    assume a: "after_store cfg raw tab rs s \<and> lastemitted s < int (length raw) - 1
                \<and> stderr s = stderr st \<and> records s = records st + 1"
    then have a1: "after_store cfg raw tab rs s" and a2: "lastemitted s < int (length raw) - 1"
      by simp_all
    show "outcome
           (\<lambda>s. inv_sel cfg raw tab ?rs' s \<and> stderr s = stderr st)
           (\<lambda>s. all_written raw ?rs' s \<and> stderr s = stderr st)
           (\<lambda>e s. (frag_error cfg e \<or> (e = DuplicateMatch \<and> \<not> once raw ?rs'))
                   \<and> stderr s = stderr st)
           (and_then (match_header cfg tab (chomp_cr l) s)
                       (\<lambda>s3. Go (accumulate cfg (chomp_cr l) s3)))"
      by (rule outcome_weaken[OF header_core[OF a1 t r True a2]]) (use a in auto)
  qed
qed

lemma open_out_outcome:
  "outcome (\<lambda>s. lastemitted s = lastemitted st \<and> emitstrings s = emitstrings st
               \<and> emitlist s = emitlist st \<and> emitgroups s = emitgroups st
               \<and> accumstring s = accumstring st \<and> emit s = emit st
               \<and> emitting s = emitting st \<and> records s = records st
               \<and> emitted s = emitted st \<and> written s = written st \<and> stderr s = stderr st)
           (\<lambda>s. False)
           (\<lambda>e s. e = CannotOpenOut \<and> gbl_frag cfg = FRAG_NONE \<and> \<not> out_ok cfg env \<and> s = st)
           (open_out cfg env st)"
  by (auto simp: open_out_def out_ok_def split: option.splits)

lemma scan_lines_inv:
  assumes t: "table_of raw tab" and r: "\<not> gbl_reject cfg"
  shows "outcome
           (\<lambda>s. inv_sel cfg raw tab (records_of cfg ls) s \<and> stderr s = warns)
           (\<lambda>s. all_written raw (records_of cfg ls) s \<and> stderr s = warns)
           (\<lambda>e s. scan_error cfg env raw (records_of cfg ls) e \<and> stderr s = warns)
           (scan_lines cfg env (length raw) tab warns ls)"
proof (induction ls rule: rev_induct)
  case Nil
  let ?st0 = "(init_state env (length raw))\<lparr>stderr := warns\<rparr>"
  have ne: "raw \<noteq> []" using t by (simp add: table_of_def)
  have "inv_sel cfg raw tab [] s \<and> stderr s = warns"
    if "lastemitted s = lastemitted ?st0 \<and> emitstrings s = emitstrings ?st0
               \<and> emitlist s = emitlist ?st0 \<and> emitgroups s = emitgroups ?st0
               \<and> accumstring s = accumstring ?st0 \<and> emit s = emit ?st0
               \<and> emitting s = emitting ?st0 \<and> records s = records ?st0
               \<and> emitted s = emitted ?st0 \<and> written s = written ?st0 \<and> stderr s = stderr ?st0" for s
    using that ne
    by (simp add: inv_sel_def once_def core_def flags_def open_rec_def init_state_def want_def)
  then show ?case
    unfolding scan_lines_def records_of_def
    using open_out_outcome[of ?st0 cfg env]
    by (cases "open_out cfg env ?st0") (auto simp: scan_error_def init_state_def)
next
  case (snoc l ls)
  let ?rs = "records_of cfg ls"
  show ?case
    unfolding scan_lines_snoc records_of_snoc
  proof (rule outcome_and_then[where G'="\<lambda>s. inv_sel cfg raw tab ?rs s \<and> stderr s = warns"])
    show "outcome (\<lambda>s. inv_sel cfg raw tab ?rs s \<and> stderr s = warns)
           (\<lambda>s. all_written raw (add_line cfg ?rs l) s \<and> stderr s = warns)
           (\<lambda>e s. scan_error cfg env raw (add_line cfg ?rs l) e \<and> stderr s = warns)
           (scan_lines cfg env (length raw) tab warns ls)"
    proof (rule outcome_weaken[OF snoc.IH])
      fix s assume "all_written raw ?rs s \<and> stderr s = warns"
      then show "all_written raw (add_line cfg ?rs l) s \<and> stderr s = warns"
        using all_written_add_line by simp
    next
      fix e s assume "scan_error cfg env raw ?rs e \<and> stderr s = warns"
      then show "scan_error cfg env raw (add_line cfg ?rs l) e \<and> stderr s = warns"
        using once_add_line[of raw cfg ?rs l] unfolding scan_error_def by blast
    qed simp
  next
    fix s assume a: "inv_sel cfg raw tab ?rs s \<and> stderr s = warns"
    then have i: "inv_sel cfg raw tab ?rs s" by simp
    show "outcome (\<lambda>s. inv_sel cfg raw tab (add_line cfg ?rs l) s \<and> stderr s = warns)
           (\<lambda>s. all_written raw (add_line cfg ?rs l) s \<and> stderr s = warns)
           (\<lambda>e s. scan_error cfg env raw (add_line cfg ?rs l) e \<and> stderr s = warns)
           (line_step cfg env tab l s)"
      by (rule outcome_weaken[OF line_step_inv[OF i t r]]) (use a in \<open>auto simp: scan_error_def\<close>)
  qed
qed

subsection \<open>The last loop\<close>

lemma outcome_final_drain:
  "P st \<Longrightarrow>
   (\<And>s. P s \<Longrightarrow> lastemitted s < int n \<Longrightarrow>
         \<not> (0 \<le> lastemitted s \<and> nat (lastemitted s) < length (emitstrings s)
               \<and> emitstrings s ! nat (lastemitted s) \<noteq> Null)
        \<Longrightarrow> P (s\<lparr>lastemitted := lastemitted s + 1\<rparr>)) \<Longrightarrow>
   (\<And>s. P s \<Longrightarrow> lastemitted s < int n \<Longrightarrow> 0 \<le> lastemitted s
        \<Longrightarrow> nat (lastemitted s) < length (emitstrings s)
        \<Longrightarrow> emitstrings s ! nat (lastemitted s) \<noteq> Null
        \<Longrightarrow> outcome (\<lambda>s'. P (s'\<lparr>lastemitted := lastemitted s' + 1\<rparr>)) B D (emit_slot cfg env s))
   \<Longrightarrow> outcome (\<lambda>s. P s \<and> \<not> lastemitted s < int n) B D (final_drain cfg env n st)"
proof (induction cfg env n st rule: final_drain.induct)
  case (1 cfg env n st)
  show ?case
  proof (cases "lastemitted st < int n")
    case False
    then show ?thesis using final_drain_stop[OF False, of cfg env] "1.prems"(1) by simp
  next
    case lt: True
    show ?thesis
    proof (cases "0 \<le> lastemitted st \<and> nat (lastemitted st) < length (emitstrings st)
               \<and> emitstrings st ! nat (lastemitted st) \<noteq> Null")
      case False
      have "P (st\<lparr>lastemitted := lastemitted st + 1\<rparr>)" using "1.prems"(2)[OF "1.prems"(1) lt False] .
      from "1.IH"(2)[OF lt False this "1.prems"(2,3)]
      show ?thesis using final_drain_skip[OF lt False, of cfg env] by simp
    next
      case True
      then have rd: "final_drain cfg env n st =
        (case emit_slot cfg env st of
                    Go st' \<Rightarrow> final_drain cfg env n (st'\<lparr>lastemitted := lastemitted st' + 1\<rparr>)
                  | Bye st' \<Rightarrow> Bye st'
                  | Die e st' \<Rightarrow> Die e st')"
        using final_drain_round[OF lt, of cfg env] by simp
      have st: "outcome (\<lambda>s'. P (s'\<lparr>lastemitted := lastemitted s' + 1\<rparr>)) B D (emit_slot cfg env st)"
        using "1.prems"(3)[OF "1.prems"(1) lt] True by blast
      show ?thesis
      proof (cases "emit_slot cfg env st")
        case (Go st')
        have "P (st'\<lparr>lastemitted := lastemitted st' + 1\<rparr>)" using st Go by simp
        from "1.IH"(1)[OF lt True Go this "1.prems"(2,3)]
        show ?thesis using rd Go by simp
      next
        case (Bye st')
        then show ?thesis using rd st by simp
      next
        case (Die e st')
        then show ?thesis using rd st by simp
      qed
    qed
  qed
qed

lemma drop_take_Suc:
  assumes "a \<le> b" "b < length xs"
  shows "drop a (take (Suc b) xs) = drop a (take b xs) @ [xs ! b]"
  using assms by (simp add: take_Suc_conv_app_nth)

lemma final_drain_writes:
  assumes c0: "0 \<le> lastemitted s0" and n: "n \<le> length (emitstrings s0)"
    and nf: "\<forall>p. nat (lastemitted s0) \<le> p \<and> p < n \<longrightarrow> emitstrings s0 ! p \<noteq> Freed"
    and gs: "gbl_frag cfg \<noteq> FRAG_NONE \<longrightarrow>
              (\<forall>p. nat (lastemitted s0) \<le> p \<and> p < n \<and> emitstrings s0 ! p \<noteq> Null
                     \<longrightarrow> emitgroups s0 ! p \<noteq> None)"
    and le: "lastemitted s0 \<le> int n"
  shows "outcome
           (\<lambda>s'. map snd (written s') = map snd (written s0)
                     @ concat (map held_in (drop (nat (lastemitted s0)) (take n (emitstrings s0))))
                 \<and> stderr s' = stderr s0)
           (\<lambda>s'. False)
           (\<lambda>e s'. frag_error cfg e \<and> stderr s' = stderr s0)
           (final_drain cfg env n s0)"
proof -
  have init: "fin_inv n s0 s0" using le by (simp add: fin_inv_def)
  have "outcome (\<lambda>s. fin_inv n s0 s \<and> \<not> lastemitted s < int n) (\<lambda>s'. False)
           (\<lambda>e s'. frag_error cfg e \<and> stderr s' = stderr s0) (final_drain cfg env n s0)"
  proof (rule outcome_final_drain[where P="fin_inv n s0", OF init])
    fix s
    assume f: "fin_inv n s0 s" and lt: "lastemitted s < int n"
      and no: "\<not> (0 \<le> lastemitted s \<and> nat (lastemitted s) < length (emitstrings s)
               \<and> emitstrings s ! nat (lastemitted s) \<noteq> Null)"
    let ?c = "nat (lastemitted s)"
    have c: "0 \<le> lastemitted s" "?c < n" "?c < length (emitstrings s0)"
      "length (emitstrings s) = length (emitstrings s0)" "nat (lastemitted s0) \<le> ?c"
      using f lt c0 n by (auto simp: fin_inv_def)
    then have "emitstrings s ! ?c = Null" using no by simp
    then have z: "emitstrings s0 ! ?c = Null" using f c unfolding fin_inv_def by simp
    have n1: "nat (lastemitted s + 1) = Suc ?c" using c(1) by linarith
    have "drop (nat (lastemitted s0)) (take (Suc ?c) (emitstrings s0))
          = drop (nat (lastemitted s0)) (take ?c (emitstrings s0)) @ [Null]"
      using drop_take_Suc[OF c(5) c(3)] z by simp
    then show "fin_inv n s0 (s\<lparr>lastemitted := lastemitted s + 1\<rparr>)"
      using f lt c by (auto simp: fin_inv_def n1)
  next
    fix s
    assume f: "fin_inv n s0 s" and lt: "lastemitted s < int n" and c1: "0 \<le> lastemitted s"
      and c2: "nat (lastemitted s) < length (emitstrings s)"
      and c3: "emitstrings s ! nat (lastemitted s) \<noteq> Null"
    let ?c = "nat (lastemitted s)"
    have c: "?c < n" "?c < length (emitstrings s0)" "nat (lastemitted s0) \<le> ?c"
      using f lt c0 c1 n by (auto simp: fin_inv_def)
    have same: "emitstrings s ! ?c = emitstrings s0 ! ?c" using f c unfolding fin_inv_def by simp
    then have "emitstrings s ! ?c \<noteq> Freed" using nf c by simp
    then obtain pl where pl: "emitstrings s ! ?c = Alloc pl"
      using c3 by (cases "emitstrings s ! ?c") auto
    have g: "gbl_frag cfg \<noteq> FRAG_NONE \<longrightarrow> emitgroups s ! ?c \<noteq> None"
      using gs c same c3 f unfolding fin_inv_def by simp
    have n1: "nat (lastemitted s + 1) = Suc ?c" using c1 by linarith
    have seg: "drop (nat (lastemitted s0)) (take (Suc ?c) (emitstrings s0))
          = drop (nat (lastemitted s0)) (take ?c (emitstrings s0)) @ [Alloc pl]"
      using drop_take_Suc[OF c(3) c(2)] same pl by simp
    have step: "fin_inv n s0 (s'\<lparr>lastemitted := lastemitted s' + 1\<rparr>)"
      if h: "lastemitted s' = lastemitted s \<and> emitlist s' = emitlist s
                 \<and> emitgroups s' = emitgroups s \<and> accumstring s' = accumstring s
                 \<and> emitting s' = emitting s \<and> emit s' = emit s \<and> records s' = records s
                 \<and> emitted s' = emitted s \<and> stderr s' = stderr s
                 \<and> emitstrings s' = (emitstrings s)[?c := Freed]
                 \<and> map snd (written s') = map snd (written s) @ [pl]" for s'
      using h f lt seg by (auto simp: fin_inv_def n1)
    have se: "stderr s = stderr s0" using f by (simp add: fin_inv_def)
    show "outcome (\<lambda>s'. fin_inv n s0 (s'\<lparr>lastemitted := lastemitted s' + 1\<rparr>)) (\<lambda>s'. False)
            (\<lambda>e s'. frag_error cfg e \<and> stderr s' = stderr s0) (emit_slot cfg env s)"
      using emit_slot_outcome[OF pl g, of env] step se
      by (cases "emit_slot cfg env s") auto
  qed
  then show ?thesis
  proof (rule outcome_weaken)
    fix s assume "fin_inv n s0 s \<and> \<not> lastemitted s < int n"
    then have "fin_inv n s0 s" "lastemitted s = int n" by (auto simp: fin_inv_def)
    then show "map snd (written s) = map snd (written s0)
                     @ concat (map held_in (drop (nat (lastemitted s0)) (take n (emitstrings s0))))
                 \<and> stderr s = stderr s0"
      by (simp add: fin_inv_def)
  qed auto
qed

subsection \<open>The order of the output\<close>

lemma key_once:
  "distinct (filter (\<lambda>x. x = k) (map fst rs))
   \<Longrightarrow> map snd (filter (\<lambda>r. fst r = k) rs) = held_in (slot_for (map_of rs k))"
proof (induction rs)
  case Nil
  then show ?case by simp
next
  case (Cons r rs)
  show ?case
  proof (cases "fst r = k")
    case True
    then have "k \<notin> set (filter (\<lambda>x. x = k) (map fst rs))" using Cons.prems by simp
    then have "k \<notin> fst ` set rs" by auto
    then have "filter (\<lambda>r. fst r = k) rs = []" by (auto simp: filter_empty_conv)
    then show ?thesis using True by (cases r) simp
  next
    case False
    then show ?thesis using Cons by (cases r) auto
  qed
qed

lemma once_key:
  assumes "once raw rs" "k \<in> fst ` set raw"
  shows "distinct (filter (\<lambda>x. x = k) (map fst rs))"
proof -
  have "filter (\<lambda>x. x = k) (filter (\<lambda>k. k \<in> fst ` set raw) (map fst rs))
        = filter (\<lambda>x. x = k) (map fst rs)"
    using assms(2) by (auto intro: filter_cong)
  then show ?thesis using assms(1) unfolding once_def by (metis distinct_filter)
qed

lemma order_law_want:
  assumes "once raw rs"
  shows "order_law raw rs = concat (map (\<lambda>p. held_in (slot_for (want rs raw p))) [0 ..< length raw])"
proof -
  have "map (\<lambda>e. map snd (filter (\<lambda>r. fst r = fst e) rs)) raw
        = map (\<lambda>e. held_in (slot_for (map_of rs (fst e)))) raw"
    using key_once[OF once_key[OF assms]] by (intro map_cong) auto
  also have "\<dots> = map (\<lambda>p. held_in (slot_for (want rs raw p))) [0 ..< length raw]"
    unfolding want_def by (rule nth_equalityI) simp_all
  finally show ?thesis by (simp add: order_law_def)
qed

lemma concat_singletons: "concat (map (\<lambda>p. [f p]) xs) = map f xs"
  by (induction xs) simp_all

lemma held_freed:
  "\<forall>x \<in> set xs. x = Freed \<Longrightarrow> concat (map held_in xs) = []"
  by (induction xs) simp_all

lemma core_total:
  assumes c: "core raw rs s"
  shows "map snd (written s) @ held s
         = concat (map (\<lambda>p. held_in (slot_for (want rs raw p))) [0 ..< length raw])"
    and "held s = concat (map held_in (drop (nat (lastemitted s + 1)) (take (length raw) (emitstrings s))))"
proof -
  let ?k = "nat (lastemitted s + 1)"
  let ?f = "\<lambda>p. held_in (slot_for (want rs raw p))"
  have k: "?k \<le> length raw" and len: "length (emitstrings s) = length raw"
    using c by (auto simp: core_def)
  have low: "\<forall>p < ?k. want rs raw p \<noteq> None"
  proof (intro allI impI)
    fix p assume "p < ?k"
    then have "int p \<le> lastemitted s" by linarith
    then show "want rs raw p \<noteq> None" using c unfolding core_def by blast
  qed
  have m: "map ?f [0 ..< ?k] = map (\<lambda>p. [the (want rs raw p)]) [0 ..< ?k]"
    using low by (intro map_cong) auto
  have "map snd (written s) = map (\<lambda>p. the (want rs raw p)) [0 ..< ?k]"
    using c by (simp add: core_def)
  then have w: "map snd (written s) = concat (map ?f [0 ..< ?k])"
    by (simp only: m concat_singletons)
  have fr: "\<forall>x \<in> set (take ?k (emitstrings s)). x = Freed"
  proof
    fix x assume "x \<in> set (take ?k (emitstrings s))"
    then obtain p where p: "p < ?k" "p < length (emitstrings s)" "x = emitstrings s ! p"
      by (auto simp: in_set_conv_nth)
    then have "int p \<le> lastemitted s" by linarith
    then show "x = Freed" using c p len unfolding core_def by simp
  qed
  have "emitstrings s = take ?k (emitstrings s) @ drop ?k (emitstrings s)" by simp
  then have "held s = concat (map held_in (take ?k (emitstrings s)))
                      @ concat (map held_in (drop ?k (emitstrings s)))"
    unfolding held_def by (metis concat_append map_append)
  then have h: "held s = concat (map held_in (drop ?k (emitstrings s)))"
    using held_freed[OF fr] by simp
  then show "held s = concat (map held_in (drop ?k (take (length raw) (emitstrings s))))"
    using len by simp
  have "drop ?k (emitstrings s) = map (\<lambda>p. slot_for (want rs raw p)) [?k ..< length raw]"
  proof (rule nth_equalityI)
    show "length (drop ?k (emitstrings s)) = length (map (\<lambda>p. slot_for (want rs raw p)) [?k ..< length raw])"
      using len by simp
  next
    fix i assume "i < length (drop ?k (emitstrings s))"
    then have i: "?k + i < length raw" using len by simp
    then have "\<not> int (?k + i) \<le> lastemitted s" by linarith
    then show "drop ?k (emitstrings s) ! i = map (\<lambda>p. slot_for (want rs raw p)) [?k ..< length raw] ! i"
      using c i len unfolding core_def by simp
  qed
  then have "held s = concat (map ?f [?k ..< length raw])"
    using h by (simp add: comp_def)
  moreover have "[0 ..< length raw] = [0 ..< ?k] @ [?k ..< length raw]"
    using k by (metis le0 upt_add_eq_append le_add_diff_inverse)
  ultimately show "map snd (written s) @ held s = concat (map ?f [0 ..< length raw])"
    using w by simp
qed

lemma all_written_order_law:
  assumes a: "all_written raw rs s" and o: "once raw rs"
  shows "map snd (written s) = order_law raw rs"
proof -
  obtain b x where rs: "rs = b @ [x]" using a unfolding all_written_def by (metis append_butlast_last_id)
  have "held_in (slot_for (want rs raw p)) = [the (want b raw p)]" if "p < length raw" for p
  proof -
    from that obtain v where v: "want b raw p = Some v"
      using a unfolding all_written_def rs by auto
    have "map_of (b @ [(fst x, snd x)]) (fst (raw ! p)) = Some v"
      using v unfolding want_def by (subst map_of_snoc) simp
    then show ?thesis using v unfolding want_def rs by simp
  qed
  then have m: "map (\<lambda>p. held_in (slot_for (want rs raw p))) [0 ..< length raw]
             = map (\<lambda>p. [the (want b raw p)]) [0 ..< length raw]"
    by (intro map_cong) auto
  have "order_law raw rs = map (\<lambda>p. the (want b raw p)) [0 ..< length raw]"
    by (simp only: order_law_want[OF o] m concat_singletons)
  then show ?thesis using a unfolding all_written_def rs by simp
qed

lemma matched_count:
  assumes o: "once raw rs" and d: "distinct (map fst raw)"
  shows "length (filter (\<lambda>k. k \<in> fst ` set raw) (map fst rs)) < length raw
         \<longleftrightarrow> \<not> fst ` set raw \<subseteq> fst ` set rs"
proof -
  let ?m = "filter (\<lambda>k. k \<in> fst ` set raw) (map fst rs)"
  have s: "set ?m = fst ` set raw \<inter> fst ` set rs" by auto
  have "length ?m = card (fst ` set raw \<inter> fst ` set rs)"
    using o distinct_card[of ?m] unfolding once_def s by simp
  moreover have "length raw = card (fst ` set raw)"
    using d distinct_card[of "map fst raw"] by simp
  moreover have "card (fst ` set raw \<inter> fst ` set rs) < card (fst ` set raw)
                 \<longleftrightarrow> \<not> fst ` set raw \<subseteq> fst ` set rs"
  proof
    assume "card (fst ` set raw \<inter> fst ` set rs) < card (fst ` set raw)"
    then show "\<not> fst ` set raw \<subseteq> fst ` set rs" by (metis inf.absorb1 less_irrefl)
  next
    assume "\<not> fst ` set raw \<subseteq> fst ` set rs"
    then have "fst ` set raw \<inter> fst ` set rs \<subset> fst ` set raw" by auto
    then show "card (fst ` set raw \<inter> fst ` set rs) < card (fst ` set raw)"
      by (intro psubset_card_mono) auto
  qed
  ultimately show ?thesis by simp
qed

lemma report_misses_unmatched:
  assumes f: "flags cfg raw tab rs st" and l: "length tab = length raw"
  shows "report_misses cfg tab st = map (miss_diag cfg) (unmatched tab rs)"
proof -
  have "filter (\<lambda>i. \<not> emitlist st ! i) [0 ..< length tab]
        = filter (\<lambda>i. header_name (tab ! i) \<notin> fst ` set rs) [0 ..< length tab]"
    using f l unfolding flags_def by (intro filter_cong) auto
  moreover have "map header_name tab = map (\<lambda>i. header_name (tab ! i)) [0 ..< length tab]"
    by (rule nth_equalityI) simp_all
  ultimately show ?thesis
    unfolding report_misses_def unmatched_def miss_diag_def
    by (simp add: filter_map comp_def)
qed

lemma store_last_stderr:
  "store_last tab (st\<lparr>stderr := x\<rparr>) = (store_last tab st)\<lparr>stderr := x\<rparr>"
  by (simp add: store_last_def split: option.splits)

lemma store_last_frame:
  "lastemitted (store_last tab st) = lastemitted st" "written (store_last tab st) = written st"
  "emitgroups (store_last tab st) = emitgroups st" "stderr (store_last tab st) = stderr st"
  "emitlist (store_last tab st) = emitlist st" "emitted (store_last tab st) = emitted st"
  by (simp_all add: store_last_def split: option.splits)

lemma store_last_core:
  assumes i: "inv_sel cfg raw tab rs st" and t: "table_of raw tab"
  shows "core raw rs (store_last tab st)"
proof (cases "accumstring st")
  case None
  then have "rs = [] \<or> fst (last rs) \<notin> fst ` set raw"
    using i unfolding inv_sel_def open_rec_def by (auto split: if_splits)
  then have "core raw rs st" using i core_close_unmatched unfolding inv_sel_def by blast
  then show ?thesis using None by (simp add: store_last_def)
next
  case (Some a)
  have "core raw rs (stored tab a st)"
    using core_store[OF _ _ t _ Some, of rs] i unfolding inv_sel_def by blast
  moreover have "core raw rs (store_last tab st) = core raw rs (stored tab a st)"
    by (rule core_cong) (simp_all add: store_last_def stored_def Some)
  ultimately show ?thesis by simp
qed

lemma unmatched_none:
  assumes "table_of raw tab" "fst ` set raw \<subseteq> fst ` set rs"
  shows "unmatched tab rs = []"
  using assms unfolding unmatched_def table_of_def by (auto simp: filter_empty_conv)

lemma check_found_inv:
  assumes t: "table_of raw tab" and r: "\<not> gbl_reject cfg" and i: "inv_sel cfg raw tab rs st"
  shows "check_found cfg tab st =
           (if \<not> fst ` set raw \<subseteq> fst ` set rs \<and> \<not> gbl_com cfg
            then Die MissingSelector (st\<lparr>stderr := stderr st @ map (miss_diag cfg) (unmatched tab rs)\<rparr>)
            else Go (st\<lparr>stderr := stderr st @ map (miss_diag cfg) (unmatched tab rs)\<rparr>))"
proof -
  have l: "length tab = length raw" and d: "distinct (map fst raw)"
    using t by (simp_all add: table_of_def)
  have f: "flags cfg raw tab rs st" and o: "once raw rs" using i by (simp_all add: inv_sel_def)
  have e: "emitted st < length raw \<longleftrightarrow> \<not> fst ` set raw \<subseteq> fst ` set rs"
    using matched_count[OF o d] f by (simp add: flags_def)
  have c: "(int (emitted st) \<le> int (length tab) - 1) = (emitted st < length raw)"
    using l by auto
  show ?thesis
  proof (cases "fst ` set raw \<subseteq> fst ` set rs")
    case True
    then have "check_found cfg tab st = Go st" using e c by (simp add: check_found_def)
    then show ?thesis using True unmatched_none[OF t True] by simp
  next
    case False
    then show ?thesis
      using e c r report_misses_unmatched[OF f l]
      by (simp add: check_found_def Let_def)
  qed
qed

lemma finish_inv:
  assumes t: "table_of raw tab" and r: "\<not> gbl_reject cfg" and i: "inv_sel cfg raw tab rs st"
  shows "if \<not> fst ` set raw \<subseteq> fst ` set rs \<and> \<not> gbl_com cfg
         then finish cfg env tab st
                = EXIT_FAILURE MissingSelector
                    (st\<lparr>stderr := stderr st @ map (miss_diag cfg) (unmatched tab rs)\<rparr>)
         else (case finish cfg env tab st of
                 EXIT_SUCCESS s' \<Rightarrow>
                   map snd (written s') = map snd (written st) @ held (store_last tab st)
                   \<and> map snd (written s') = order_law raw rs
                   \<and> stderr s' = stderr st @ map (miss_diag cfg) (unmatched tab rs)
               | EXIT_FAILURE e s' \<Rightarrow>
                   frag_error cfg e
                   \<and> stderr s' = stderr st @ map (miss_diag cfg) (unmatched tab rs))"
proof (cases "\<not> fst ` set raw \<subseteq> fst ` set rs \<and> \<not> gbl_com cfg")
  case True
  then show ?thesis
    unfolding finish_def check_found_inv[OF t r i] by simp
next
  case False
  let ?x = "stderr st @ map (miss_diag cfg) (unmatched tab rs)"
  let ?s2 = "store_last tab st"
  let ?s0 = "?s2\<lparr>stderr := ?x, lastemitted := lastemitted ?s2 + 1\<rparr>"
  have l: "length tab = length raw" using t by (simp add: table_of_def)
  have o: "once raw rs" and f: "flags cfg raw tab rs st" using i by (simp_all add: inv_sel_def)
  have c: "core raw rs ?s2" by (rule store_last_core[OF i t])
  have gs: "groups_set cfg raw rs st" using flags_groups_set[OF f] by simp
  have fin: "finish cfg env tab st =
          (case final_drain cfg env (length raw) ?s0 of
             Go st' \<Rightarrow> EXIT_SUCCESS st' | Bye st' \<Rightarrow> EXIT_SUCCESS st'
           | Die e st' \<Rightarrow> EXIT_FAILURE e st')"
    unfolding finish_def check_found_inv[OF t r i] if_not_P[OF False]
    by (simp add: store_last_stderr Let_def l)
  have p1: "0 \<le> lastemitted ?s0" using c by (simp add: core_def)
  have p2: "length raw \<le> length (emitstrings ?s0)" using c by (simp add: core_def)
  have p5: "lastemitted ?s0 \<le> int (length raw)" using c by (simp add: core_def)
  have sl: "emitstrings ?s0 ! p = slot_for (want rs raw p)"
    if "nat (lastemitted ?s0) \<le> p \<and> p < length raw" for p
  proof -
    have "nat (lastemitted ?s2 + 1) \<le> p" using that by simp
    then have "\<not> int p \<le> lastemitted ?s2" by linarith
    then show ?thesis using c that unfolding core_def by simp
  qed
  have p3: "\<forall>p. nat (lastemitted ?s0) \<le> p \<and> p < length raw \<longrightarrow> emitstrings ?s0 ! p \<noteq> Freed"
  proof (intro allI impI)
    fix p assume "nat (lastemitted ?s0) \<le> p \<and> p < length raw"
    from sl[OF this] show "emitstrings ?s0 ! p \<noteq> Freed"
      by (cases "want rs raw p") simp_all
  qed
  have p4: "gbl_frag cfg \<noteq> FRAG_NONE \<longrightarrow>
              (\<forall>p. nat (lastemitted ?s0) \<le> p \<and> p < length raw \<and> emitstrings ?s0 ! p \<noteq> Null
                     \<longrightarrow> emitgroups ?s0 ! p \<noteq> None)"
  proof (intro allI impI)
    fix p assume fr: "gbl_frag cfg \<noteq> FRAG_NONE"
      and p: "nat (lastemitted ?s0) \<le> p \<and> p < length raw \<and> emitstrings ?s0 ! p \<noteq> Null"
    then have "want rs raw p \<noteq> None" using sl[of p] by (cases "want rs raw p") simp_all
    then have "emitgroups st ! p \<noteq> None" using gs fr p unfolding groups_set_def by blast
    then show "emitgroups ?s0 ! p \<noteq> None" by (simp add: store_last_frame)
  qed
  have h: "held ?s2 = concat (map held_in (drop (nat (lastemitted ?s0)) (take (length raw) (emitstrings ?s0))))"
    using core_total(2)[OF c] by simp
  have tot: "map snd (written st) @ held ?s2 = order_law raw rs"
    using core_total(1)[OF c] order_law_want[OF o] by (simp add: store_last_frame)
  have "outcome
           (\<lambda>s'. map snd (written s') = map snd (written ?s0)
                     @ concat (map held_in (drop (nat (lastemitted ?s0)) (take (length raw) (emitstrings ?s0))))
                 \<and> stderr s' = stderr ?s0)
           (\<lambda>s'. False)
           (\<lambda>e s'. frag_error cfg e \<and> stderr s' = stderr ?s0)
           (final_drain cfg env (length raw) ?s0)"
    by (rule final_drain_writes[OF p1 p2 p3 p4 p5])
  then have "outcome
           (\<lambda>s'. map snd (written s') = map snd (written st) @ held ?s2
                 \<and> map snd (written s') = order_law raw rs \<and> stderr s' = ?x)
           (\<lambda>s'. False)
           (\<lambda>e s'. frag_error cfg e \<and> stderr s' = ?x)
           (final_drain cfg env (length raw) ?s0)"
  proof (rule outcome_weaken)
    fix s' assume "map snd (written s') = map snd (written ?s0)
                     @ concat (map held_in (drop (nat (lastemitted ?s0)) (take (length raw) (emitstrings ?s0))))
                 \<and> stderr s' = stderr ?s0"
    then show "map snd (written s') = map snd (written st) @ held ?s2
                 \<and> map snd (written s') = order_law raw rs \<and> stderr s' = ?x"
      using tot unfolding h[symmetric] by (simp add: store_last_frame)
  qed simp_all
  then show ?thesis using False unfolding fin
    by (cases "final_drain cfg env (length raw) ?s0") (auto simp: outcome_def)
qed

lemma want_butlast:
  assumes "want (butlast rs) raw p = Some v"
  shows "want rs raw p = Some v"
proof (cases "rs = []")
  case True
  then show ?thesis using assms by simp
next
  case False
  then obtain b x where rs: "rs = b @ [x]" by (metis append_butlast_last_id)
  have "map_of (b @ [(fst x, snd x)]) (fst (raw ! p)) = Some v"
    using assms unfolding want_def rs by (subst map_of_snoc) simp
  then show ?thesis unfolding want_def rs by simp
qed

lemma written_prefix:
  assumes c: "core raw (butlast rs) st" and o: "once raw rs"
  shows "prefix (map snd (written st)) (order_law raw rs)"
proof -
  let ?k = "nat (lastemitted st + 1)"
  let ?f = "\<lambda>p. held_in (slot_for (want rs raw p))"
  have k: "?k \<le> length raw" using c by (auto simp: core_def)
  have low: "?f p = [the (want (butlast rs) raw p)]" if "p < ?k" for p
  proof -
    from that have "int p \<le> lastemitted st" by linarith
    then obtain v where v: "want (butlast rs) raw p = Some v"
      using c unfolding core_def by blast
    then show ?thesis using want_butlast[OF v] by simp
  qed
  have m: "map ?f [0 ..< ?k] = map (\<lambda>p. [the (want (butlast rs) raw p)]) [0 ..< ?k]"
    using low by (intro map_cong) auto
  have "map snd (written st) = map (\<lambda>p. the (want (butlast rs) raw p)) [0 ..< ?k]"
    using c by (simp add: core_def)
  then have w: "map snd (written st) = concat (map ?f [0 ..< ?k])"
    by (simp only: m concat_singletons)
  have "[0 ..< length raw] = [0 ..< ?k] @ [?k ..< length raw]"
    using k by (metis le0 upt_add_eq_append le_add_diff_inverse)
  then have "order_law raw rs = concat (map ?f [0 ..< ?k]) @ concat (map ?f [?k ..< length raw])"
    unfolding order_law_want[OF o] by (metis concat_append map_append)
  then show ?thesis unfolding w by (simp add: prefix_def)
qed

lemma all_written_keys:
  assumes "all_written raw rs st"
  shows "fst ` set raw \<subseteq> fst ` set rs"
proof
  fix k assume "k \<in> fst ` set raw"
  then obtain p where p: "p < length raw" "k = fst (raw ! p)"
    by (auto simp: in_set_conv_nth)
  then obtain v where "map_of (butlast rs) k = Some v"
    using assms unfolding all_written_def want_def by auto
  then have "(k, v) \<in> set (butlast rs)" by (rule map_of_SomeD)
  then have "(k, v) \<in> set rs" by (rule in_set_butlastD)
  then show "k \<in> fst ` set rs" by force
qed

text \<open>
  The run of a selection list without duplicates, in select mode: the table, the unfolding
  of \<^verbatim>\<open>main\<close>, and the result of the reading loop for each of the three ways to end it.
\<close>

lemma select_run:
  assumes r: "\<not> gbl_reject cfg" and d: "distinct (map fst (get_entries cfg sel))"
    and ne: "get_entries cfg sel \<noteq> []" and s: "select_table cfg sel = Inr (tab, warns)"
  shows "table_of (get_entries cfg sel) tab" "warns = []"
    "main cfg env sel (Some ls) =
           (case scan cfg env (length (get_entries cfg sel)) tab [] ls of
              Go st' \<Rightarrow> finish cfg env tab st'
            | Bye st' \<Rightarrow> EXIT_SUCCESS st'
            | Die e st' \<Rightarrow> EXIT_FAILURE e st')"
    "outcome
           (\<lambda>s. inv_sel cfg (get_entries cfg sel) tab (records_of cfg ls) s \<and> stderr s = [])
           (\<lambda>s. all_written (get_entries cfg sel) (records_of cfg ls) s \<and> stderr s = [])
           (\<lambda>e s. e = RecordTooLong \<and> cut_last cfg env ls
                  \<or> scan_error cfg env (get_entries cfg sel) (records_of cfg ls) e)
           (scan cfg env (length (get_entries cfg sel)) tab [] ls)"
proof -
  show t: "table_of (get_entries cfg sel) tab" and w: "warns = []"
    using table_of_select[OF d ne] s by simp_all
  show "main cfg env sel (Some ls) =
           (case scan cfg env (length (get_entries cfg sel)) tab [] ls of
              Go st' \<Rightarrow> finish cfg env tab st'
            | Bye st' \<Rightarrow> EXIT_SUCCESS st'
            | Die e st' \<Rightarrow> EXIT_FAILURE e st')"
    using main_unfold[OF s ne] w by simp
  let ?n = "length (get_entries cfg sel)"
  note inv = scan_lines_inv[OF t r, where ls=ls and env=env and warns="[]"]
  show "outcome
           (\<lambda>s. inv_sel cfg (get_entries cfg sel) tab (records_of cfg ls) s \<and> stderr s = [])
           (\<lambda>s. all_written (get_entries cfg sel) (records_of cfg ls) s \<and> stderr s = [])
           (\<lambda>e s. e = RecordTooLong \<and> cut_last cfg env ls
                  \<or> scan_error cfg env (get_entries cfg sel) (records_of cfg ls) e)
           (scan cfg env ?n tab [] ls)"
  proof (cases "scan cfg env ?n tab [] ls")
    case (Go st)
    then show ?thesis using inv scan_Go(1)[OF Go] by simp
  next
    case (Bye st)
    then show ?thesis using inv scan_Bye[OF Bye] by simp
  next
    case (Die e st)
    show ?thesis
    proof (cases "cut_last cfg env ls")
      case True
      have ls: "ls \<noteq> []" using True by (auto simp: cut_last_def)
      show ?thesis
      proof (cases "scan_lines cfg env ?n tab [] (butlast ls)")
        case g: (Go st')
        then show ?thesis using Die True unfolding scan_lines_of by simp
      next
        case b: (Bye st')
        then show ?thesis using Die True unfolding scan_lines_of by simp
      next
        case e: (Die e' st')
        then have "scan_lines cfg env ?n tab [] ls = Die e st"
          using Die True scan_lines_butlast[OF ls, of cfg env ?n tab "[]"]
          unfolding scan_lines_of[of cfg env ?n tab "[]" ls] by simp
        then show ?thesis using inv Die by simp
      qed
    next
      case False
      then have "scan_lines cfg env ?n tab [] ls = Die e st" using Die by (simp add: scan_lines_of)
      then show ?thesis using inv Die by simp
    qed
  qed
qed

lemma unmatched_set:
  assumes "table_of raw tab"
  shows "set (unmatched tab rs) = fst ` set raw - fst ` set rs"
  using assms unfolding unmatched_def table_of_def by auto

lemma unmatched_sorted:
  assumes "table_of raw tab"
  shows "sorted (unmatched tab rs)" "distinct (unmatched tab rs)"
proof -
  have "sorted (map header_name tab)" "distinct (map header_name tab)"
    using assms by (simp_all add: table_of_def)
  then show "sorted (unmatched tab rs)" "distinct (unmatched tab rs)"
    unfolding unmatched_def by (simp_all add: sorted_wrt_filter)
qed

text \<open>
  C1, as the code has it. The selection list has no name twice, and no key of the list
  comes twice in the stream. A run without \<^verbatim>\<open>-reject\<close> that ends with success has written
  the sequence of the order law: the records whose keys are in the list, in the order of
  the list, whatever their order in the stream. The run does end with success when no
  fragment files are asked for, the output can be opened, the reading loop does not end
  the run at a last line without line terminator, and every selector has a record or
  \<^verbatim>\<open>-com\<close> is given. When a selector has no record and \<^verbatim>\<open>-com\<close> is not given, the run
  does not end with success; when it ends with the fatal error for the missing selector,
  what it has written is a beginning of the sequence of the order law.
\<close>

theorem order_law_select:
  assumes r: "\<not> gbl_reject cfg" and d: "distinct (map fst (get_entries cfg sel))"
    and ne: "get_entries cfg sel \<noteq> []"
    and o: "once (get_entries cfg sel) (records_of cfg lines)"
  shows "(succeeded (main cfg env sel (Some lines))
            \<longrightarrow> outputs (main cfg env sel (Some lines))
                  = order_law (get_entries cfg sel) (records_of cfg lines))
       \<and> (gbl_frag cfg = FRAG_NONE \<and> out_ok cfg env \<and> \<not> cut_last cfg env lines
            \<and> (gbl_com cfg \<or> fst ` set (get_entries cfg sel) \<subseteq> fst ` set (records_of cfg lines))
            \<longrightarrow> succeeded (main cfg env sel (Some lines)))
       \<and> (\<not> gbl_com cfg
            \<and> \<not> fst ` set (get_entries cfg sel) \<subseteq> fst ` set (records_of cfg lines)
            \<longrightarrow> \<not> succeeded (main cfg env sel (Some lines)))
       \<and> (failure (main cfg env sel (Some lines)) = Some MissingSelector
            \<longrightarrow> prefix (outputs (main cfg env sel (Some lines)))
                  (order_law (get_entries cfg sel) (records_of cfg lines)))"
proof -
  let ?raw = "get_entries cfg sel" and ?rs = "records_of cfg lines"
  obtain tab where s: "select_table cfg sel = Inr (tab, [])"
    using table_of_select[OF d ne] by blast
  note run0 = select_run[OF r d ne s]
  note run = run0(1,2) run0(3)[where ls=lines and env=env] run0(4)[where ls=lines and env=env]
  show ?thesis
  proof (cases "scan cfg env (length ?raw) tab [] lines")
    case (Go st)
    then have i: "inv_sel cfg ?raw tab ?rs st" using run(4) by simp
    have m: "main cfg env sel (Some lines) = finish cfg env tab st" using run(3) Go by simp
    show ?thesis
    proof (cases "\<not> fst ` set ?raw \<subseteq> fst ` set ?rs \<and> \<not> gbl_com cfg")
      case True
      have "prefix (map snd (written st)) (order_law ?raw ?rs)"
        using written_prefix[of ?raw ?rs st] i unfolding inv_sel_def by blast
      then show ?thesis using finish_inv[OF run(1) r i, of env] m True
        by (auto simp: outputs_def)
    next
      case False
      then show ?thesis
        using finish_inv[OF run(1) r i, of env] m
        by (cases "finish cfg env tab st") (auto simp: outputs_def frag_error_def)
    qed
  next
    case (Bye st)
    then have a: "all_written ?raw ?rs st" using run(4) by simp
    then show ?thesis
      using all_written_order_law[OF _ o] all_written_keys[OF a] run(3) Bye
      by (simp add: outputs_def)
  next
    case (Die e st)
    then have "e = RecordTooLong \<and> cut_last cfg env lines \<or> scan_error cfg env ?raw ?rs e"
      using run(4) by simp
    then show ?thesis using run(3) Die o by (auto simp: scan_error_def frag_error_def)
  qed
qed

text \<open>
  C5, as the code has it. The stream is read to its end and \<^verbatim>\<open>main\<close> has not jumped to
  \<^verbatim>\<open>bye\<close>: the last position written is below the last position of the table. When
  every selector has a record or \<^verbatim>\<open>-com\<close> is given, the test for missing
  selectors lets the run go on, the record accumulated last gets its position, and the
  last loop writes, after what was written before, the payloads that the positions hold,
  from position 0 upwards; an empty position is passed over. Without fragment files the
  run then ends with success; with them it ends with success or with a fatal error of a
  fragment file. When a selector has no record and \<^verbatim>\<open>-com\<close> is not given, the run ends
  with the fatal error for the missing selector in front of the last loop, and nothing
  more is written. The selection list has no name twice.
\<close>

theorem finalization_drain:
  assumes r: "\<not> gbl_reject cfg" and d: "distinct (map fst (get_entries cfg sel))"
    and ne: "get_entries cfg sel \<noteq> []" and s: "select_table cfg sel = Inr (tab, warns)"
    and g: "scan cfg env (length (get_entries cfg sel)) tab warns lines = Go st"
  shows "lastemitted st + 1 < int (length tab)
       \<and> (gbl_com cfg \<or> fst ` set (get_entries cfg sel) \<subseteq> fst ` set (records_of cfg lines)
            \<longrightarrow> (gbl_frag cfg = FRAG_NONE \<longrightarrow> succeeded (main cfg env sel (Some lines)))
              \<and> (succeeded (main cfg env sel (Some lines))
                   \<longrightarrow> outputs (main cfg env sel (Some lines))
                         = map snd (written st) @ held (store_last tab st))
              \<and> (\<not> succeeded (main cfg env sel (Some lines))
                   \<longrightarrow> (\<exists>e. failure (main cfg env sel (Some lines)) = Some e
                             \<and> frag_error cfg e)))
       \<and> (\<not> gbl_com cfg
            \<and> \<not> fst ` set (get_entries cfg sel) \<subseteq> fst ` set (records_of cfg lines)
            \<longrightarrow> failure (main cfg env sel (Some lines)) = Some MissingSelector
              \<and> outputs (main cfg env sel (Some lines)) = map snd (written st))"
proof -
  note run0 = select_run[OF r d ne s]
  note run = run0(1,2) run0(3)[where ls=lines and env=env] run0(4)[where ls=lines and env=env]
  have g': "scan cfg env (length (get_entries cfg sel)) tab [] lines = Go st"
    using g run(2) by simp
  have i: "inv_sel cfg (get_entries cfg sel) tab (records_of cfg lines) st"
    using run(4) g' by simp
  have m: "main cfg env sel (Some lines) = finish cfg env tab st" using run(3) g' by simp
  have c: "lastemitted st + 1 < int (length tab)"
    using i run(1) unfolding inv_sel_def table_of_def by simp
  show ?thesis
  proof (cases "\<not> fst ` set (get_entries cfg sel) \<subseteq> fst ` set (records_of cfg lines)
                 \<and> \<not> gbl_com cfg")
    case True
    then show ?thesis
      using finish_inv[OF run(1) r i, of env] m c by (auto simp: outputs_def)
  next
    case False
    show ?thesis
      using finish_inv[OF run(1) r i, of env] m False c unfolding if_not_P[OF False]
      by (cases "finish cfg env tab st") (auto simp: outputs_def frag_error_def)
  qed
qed

text \<open>
  C8, as the code has it. The stream is read to its end and a selector has no record.
  The names of the table without a record are printed, in the order of the table, which
  is sorted, each one once. Without \<^verbatim>\<open>-com\<close> they are fatal errors, the exit status is failure, and nothing
  is written after the end of the stream. With \<^verbatim>\<open>-com\<close> they are warnings; the run then
  ends with success and has written every record with a selected key, in the order of the
  selection list, or it ends with a fatal error of a fragment file. The selection list has
  no name twice.
\<close>

theorem completeness_check:
  assumes r: "\<not> gbl_reject cfg" and d: "distinct (map fst (get_entries cfg sel))"
    and s: "select_table cfg sel = Inr (tab, warns)"
    and g: "scan cfg env (length (get_entries cfg sel)) tab warns lines = Go st"
    and u: "\<not> fst ` set (get_entries cfg sel) \<subseteq> fst ` set (records_of cfg lines)"
  shows "stderr (final_state (main cfg env sel (Some lines)))
           = map (miss_diag cfg) (unmatched tab (records_of cfg lines))
       \<and> set (unmatched tab (records_of cfg lines))
           = fst ` set (get_entries cfg sel) - fst ` set (records_of cfg lines)
       \<and> sorted (unmatched tab (records_of cfg lines))
       \<and> distinct (unmatched tab (records_of cfg lines))
       \<and> (\<not> gbl_com cfg \<longrightarrow> failure (main cfg env sel (Some lines)) = Some MissingSelector
                               \<and> outputs (main cfg env sel (Some lines)) = map snd (written st))
       \<and> (gbl_com cfg \<longrightarrow>
            (succeeded (main cfg env sel (Some lines))
               \<and> outputs (main cfg env sel (Some lines))
                   = order_law (get_entries cfg sel) (records_of cfg lines))
            \<or> (\<exists>e. failure (main cfg env sel (Some lines)) = Some e \<and> frag_error cfg e))"
proof -
  have ne: "get_entries cfg sel \<noteq> []" using u by auto
  note run0 = select_run[OF r d ne s]
  note run = run0(1,2) run0(3)[where ls=lines and env=env] run0(4)[where ls=lines and env=env]
  have g': "scan cfg env (length (get_entries cfg sel)) tab [] lines = Go st"
    using g run(2) by simp
  have i: "inv_sel cfg (get_entries cfg sel) tab (records_of cfg lines) st"
    and e: "stderr st = []"
    using run(4) g' by simp_all
  have m: "main cfg env sel (Some lines) = finish cfg env tab st" using run(3) g' by simp
  show ?thesis
  proof (cases "gbl_com cfg")
    case False
    then show ?thesis
      using finish_inv[OF run(1) r i, of env] m u e unmatched_set[OF run(1)]
        unmatched_sorted[OF run(1)]
      by (simp add: outputs_def)
  next
    case True
    then have nk: "\<not> (\<not> fst ` set (get_entries cfg sel) \<subseteq> fst ` set (records_of cfg lines) \<and> \<not> gbl_com cfg)"
      by blast
    show ?thesis
      using finish_inv[OF run(1) r i, of env] m e True unmatched_set[OF run(1)]
        unmatched_sorted[OF run(1)]
      unfolding if_not_P[OF nk]
      by (cases "finish cfg env tab st") (auto simp: outputs_def)
  qed
qed

theorem order_law_select_witness:
  "succeeded (main default_config plain_env [''B'', ''A'', ''C'']
                (Some [''>A'', ''a'', ''>C'', ''c'', ''>B'', ''b'']))
   \<and> outputs (main default_config plain_env [''B'', ''A'', ''C'']
                (Some [''>A'', ''a'', ''>C'', ''c'', ''>B'', ''b'']))
       = [[CHR ''>'', CHR ''B'', CHR 0x0A, CHR ''b'', CHR 0x0A],
          [CHR ''>'', CHR ''A'', CHR 0x0A, CHR ''a'', CHR 0x0A],
          [CHR ''>'', CHR ''C'', CHR 0x0A, CHR ''c'', CHR 0x0A]]"
proof -
  have r: "\<not> gbl_reject default_config" by code_simp
  have d: "distinct (map fst (get_entries default_config [''B'', ''A'', ''C'']))" by code_simp
  have ne: "get_entries default_config [''B'', ''A'', ''C''] \<noteq> []" by code_simp
  have o: "once (get_entries default_config [''B'', ''A'', ''C''])
             (records_of default_config [''>A'', ''a'', ''>C'', ''c'', ''>B'', ''b''])"
    by code_simp
  have k: "gbl_frag default_config = FRAG_NONE \<and> out_ok default_config plain_env
           \<and> \<not> cut_last default_config plain_env [''>A'', ''a'', ''>C'', ''c'', ''>B'', ''b'']
           \<and> (gbl_com default_config
                \<or> fst ` set (get_entries default_config [''B'', ''A'', ''C''])
                   \<subseteq> fst ` set (records_of default_config [''>A'', ''a'', ''>C'', ''c'', ''>B'', ''b'']))"
    by code_simp
  have l: "order_law (get_entries default_config [''B'', ''A'', ''C''])
             (records_of default_config [''>A'', ''a'', ''>C'', ''c'', ''>B'', ''b''])
       = [[CHR ''>'', CHR ''B'', CHR 0x0A, CHR ''b'', CHR 0x0A],
          [CHR ''>'', CHR ''A'', CHR 0x0A, CHR ''a'', CHR 0x0A],
          [CHR ''>'', CHR ''C'', CHR 0x0A, CHR ''c'', CHR 0x0A]]"
    by code_simp
  from order_law_select [OF r d ne o, of plain_env] k l
  show ?thesis by auto
qed

text \<open>
  A selector without a record, and no \<^verbatim>\<open>-com\<close>: of the selectors A and B the stream has
  B only; the order law gives the record of B, and the program writes nothing and fails.
\<close>

theorem miss_stops_output:
  "distinct (map fst (get_entries default_config [''A'', ''B'']))
   \<and> once (get_entries default_config [''A'', ''B'']) (records_of default_config [''>B'', ''b''])
   \<and> order_law (get_entries default_config [''A'', ''B'']) (records_of default_config [''>B'', ''b''])
       = [[CHR ''>'', CHR ''B'', CHR 0x0A, CHR ''b'', CHR 0x0A]]
   \<and> outputs (main default_config plain_env [''A'', ''B''] (Some [''>B'', ''b''])) = []
   \<and> failure (main default_config plain_env [''A'', ''B''] (Some [''>B'', ''b'']))
       = Some MissingSelector"
  by code_simp

theorem finalization_drain_witness:
  "succeeded (main com_config plain_env [''A'', ''B'', ''C''] (Some [''>C'', ''c'', ''>B'', ''b'']))
   \<and> outputs (main com_config plain_env [''A'', ''B'', ''C''] (Some [''>C'', ''c'', ''>B'', ''b'']))
       = [[CHR ''>'', CHR ''B'', CHR 0x0A, CHR ''b'', CHR 0x0A],
          [CHR ''>'', CHR ''C'', CHR 0x0A, CHR ''c'', CHR 0x0A]]"
proof -
  let ?tab = "[Entry ''A'' None 0, Entry ''B'' None 1, Entry ''C'' None 2]"
  let ?st = "res_state (scan com_config plain_env 3 ?tab [] [''>C'', ''c'', ''>B'', ''b''])"
  have r: "\<not> gbl_reject com_config" by code_simp
  have d: "distinct (map fst (get_entries com_config [''A'', ''B'', ''C'']))" by code_simp
  have ne: "get_entries com_config [''A'', ''B'', ''C''] \<noteq> []" by code_simp
  have s: "select_table com_config [''A'', ''B'', ''C''] = Inr (?tab, [])" by code_simp
  have g: "scan com_config plain_env (length (get_entries com_config [''A'', ''B'', ''C'']))
             ?tab [] [''>C'', ''c'', ''>B'', ''b''] = Go ?st"
    by code_simp
  have k: "gbl_com com_config" by code_simp
  have f: "gbl_frag com_config = FRAG_NONE" by code_simp
  have h: "map snd (written ?st) @ held (store_last ?tab ?st)
       = [[CHR ''>'', CHR ''B'', CHR 0x0A, CHR ''b'', CHR 0x0A],
          [CHR ''>'', CHR ''C'', CHR 0x0A, CHR ''c'', CHR 0x0A]]"
    by code_simp
  from finalization_drain [OF r d ne s g] k f h
  show ?thesis by simp
qed

text \<open>
  The same stream without \<^verbatim>\<open>-com\<close>: the stream ends with C held at position 2 and B
  accumulated, A has no record, and the program stops at the test that comes before the
  last loop. Nothing is written.
\<close>

theorem held_records_lost:
  "scan default_config plain_env 3
       [Entry ''A'' None 0, Entry ''B'' None 1, Entry ''C'' None 2] []
       [''>C'', ''c'', ''>B'', ''b'']
     = Go (res_state (scan default_config plain_env 3
             [Entry ''A'' None 0, Entry ''B'' None 1, Entry ''C'' None 2] []
             [''>C'', ''c'', ''>B'', ''b'']))
   \<and> held (store_last [Entry ''A'' None 0, Entry ''B'' None 1, Entry ''C'' None 2]
            (res_state (scan default_config plain_env 3
               [Entry ''A'' None 0, Entry ''B'' None 1, Entry ''C'' None 2] []
               [''>C'', ''c'', ''>B'', ''b''])))
       = [[CHR ''>'', CHR ''B'', CHR 0x0A, CHR ''b'', CHR 0x0A],
          [CHR ''>'', CHR ''C'', CHR 0x0A, CHR ''c'', CHR 0x0A]]
   \<and> select_table default_config [''A'', ''B'', ''C'']
       = Inr ([Entry ''A'' None 0, Entry ''B'' None 1, Entry ''C'' None 2], [])
   \<and> outputs (main default_config plain_env [''A'', ''B'', ''C'']
                (Some [''>C'', ''c'', ''>B'', ''b''])) = []
   \<and> failure (main default_config plain_env [''A'', ''B'', ''C'']
                (Some [''>C'', ''c'', ''>B'', ''b''])) = Some MissingSelector"
  by code_simp

theorem completeness_check_witness:
  "stderr (final_state (main com_config plain_env [''X'', ''Y'', ''Z'']
                          (Some [''>Z'', ''z'', ''>X'', ''x''])))
     = [DidNotFindWarning ''Y'']
   \<and> succeeded (main com_config plain_env [''X'', ''Y'', ''Z''] (Some [''>Z'', ''z'', ''>X'', ''x'']))
   \<and> outputs (main com_config plain_env [''X'', ''Y'', ''Z''] (Some [''>Z'', ''z'', ''>X'', ''x'']))
       = [[CHR ''>'', CHR ''X'', CHR 0x0A, CHR ''x'', CHR 0x0A],
          [CHR ''>'', CHR ''Z'', CHR 0x0A, CHR ''z'', CHR 0x0A]]"
proof -
  let ?tab = "[Entry ''X'' None 0, Entry ''Y'' None 1, Entry ''Z'' None 2]"
  let ?st = "res_state (scan com_config plain_env 3 ?tab [] [''>Z'', ''z'', ''>X'', ''x''])"
  have r: "\<not> gbl_reject com_config" by code_simp
  have d: "distinct (map fst (get_entries com_config [''X'', ''Y'', ''Z'']))" by code_simp
  have s: "select_table com_config [''X'', ''Y'', ''Z''] = Inr (?tab, [])" by code_simp
  have g: "scan com_config plain_env (length (get_entries com_config [''X'', ''Y'', ''Z'']))
             ?tab [] [''>Z'', ''z'', ''>X'', ''x''] = Go ?st"
    by code_simp
  have u: "\<not> fst ` set (get_entries com_config [''X'', ''Y'', ''Z''])
             \<subseteq> fst ` set (records_of com_config [''>Z'', ''z'', ''>X'', ''x''])"
    by code_simp
  have k: "gbl_com com_config" by code_simp
  have f: "\<not> frag_error com_config e" for e
    by (simp add: frag_error_def com_config_def default_config_def)
  have m: "map (miss_diag com_config) (unmatched ?tab (records_of com_config [''>Z'', ''z'', ''>X'', ''x'']))
             = [DidNotFindWarning ''Y'']"
    by code_simp
  have l: "order_law (get_entries com_config [''X'', ''Y'', ''Z''])
             (records_of com_config [''>Z'', ''z'', ''>X'', ''x''])
       = [[CHR ''>'', CHR ''X'', CHR 0x0A, CHR ''x'', CHR 0x0A],
          [CHR ''>'', CHR ''Z'', CHR 0x0A, CHR ''z'', CHR 0x0A]]"
    by code_simp
  from completeness_check [OF r d s g u] k f m l
  show ?thesis by simp
qed

text \<open>
  A missing selector with fragment files: with \<^verbatim>\<open>-com\<close> and \<^verbatim>\<open>-fragc\<close>, the selectors
  A and C of group g1, B of group g2 and Z, and the records A, B, C, the missing Z is a
  warning, and then the last loop cannot create the file of g1 a second time: the run
  fails and C is not written.
\<close>

theorem warned_then_fatal:
  "gbl_com (scenario_B_config\<lparr>gbl_com := True\<rparr>)
   \<and> stderr (final_state (main (scenario_B_config\<lparr>gbl_com := True\<rparr>) plain_env
               [''A g1'', ''B g2'', ''C g1'', ''Z g1'']
               (Some [''>A'', ''a'', ''>B'', ''b'', ''>C'', ''c''])))
       = [DidNotFindWarning ''Z'']
   \<and> failure (main (scenario_B_config\<lparr>gbl_com := True\<rparr>) plain_env
               [''A g1'', ''B g2'', ''C g1'', ''Z g1'']
               (Some [''>A'', ''a'', ''>B'', ''b'', ''>C'', ''c'']))
       = Some GroupContiguity
   \<and> outputs (main (scenario_B_config\<lparr>gbl_com := True\<rparr>) plain_env
               [''A g1'', ''B g2'', ''C g1'', ''Z g1'']
               (Some [''>A'', ''a'', ''>B'', ''b'', ''>C'', ''c'']))
       = [[CHR ''>'', CHR ''A'', CHR 0x0A, CHR ''a'', CHR 0x0A],
          [CHR ''>'', CHR ''B'', CHR 0x0A, CHR ''b'', CHR 0x0A]]"
  by code_simp

end
